(* ===== verification/Prelude.thy ===== *)
theory Prelude
  imports Main "HOL-Library.Word" "HOL-Library.Multiset" "HOL-Library.List_Lexorder" "HOL-Library.Char_ord"
begin

text \<open>
  Shared vocabulary of the development: the outcomes of C++ code (values, exceptions, undefined
  behaviour, deadlock), a state-passing computation type with its invariant rules, the ordered
  containers of the standard library (\<open>std::map\<close>, \<open>std::multimap\<close>) as key-sorted association
  lists, and the list lemmas the components share.
\<close>

section \<open>Outcomes of C++ code\<close>

text \<open>
  A call of the modelled code returns a value, throws, or leaves defined behaviour.  Two kinds of
  exception matter because the handlers of the code catch \<open>std::exception\<close> only, while some
  functions throw a bare \<open>std::string\<close>.  A \<open>fault\<close> is what no handler can catch: a failed
  \<open>assert\<close> (the build sets no \<open>NDEBUG\<close>), undefined behaviour, a lock taken twice by one
  thread, a loop that never ends.
\<close>

datatype exn = Std_exception string | String_exception string

datatype fault = Assertion_failed | Undefined_behaviour | Deadlock | Infinite_loop

datatype 'a outcome = Ok 'a | Throw exn | Abort fault

type_synonym ('s, 'a) cpp = "'s \<Rightarrow> 'a outcome \<times> 's"

definition ret :: "'a \<Rightarrow> ('s, 'a) cpp" where
  "ret a = (\<lambda>s. (Ok a, s))"

definition throw_exn :: "exn \<Rightarrow> ('s, 'a) cpp" where
  "throw_exn e = (\<lambda>s. (Throw e, s))"

definition abort :: "fault \<Rightarrow> ('s, 'a) cpp" where
  "abort f = (\<lambda>s. (Abort f, s))"

definition bnd :: "('s, 'a) cpp \<Rightarrow> ('a \<Rightarrow> ('s, 'b) cpp) \<Rightarrow> ('s, 'b) cpp" where
  "bnd m k = (\<lambda>s. case m s of
       (Ok a, s') \<Rightarrow> k a s'
     | (Throw e, s') \<Rightarrow> (Throw e, s')
     | (Abort f, s') \<Rightarrow> (Abort f, s'))"

abbreviation thn :: "('s, 'a) cpp \<Rightarrow> ('s, 'b) cpp \<Rightarrow> ('s, 'b) cpp" where
  "thn m n \<equiv> bnd m (\<lambda>_. n)"

definition reads :: "('s \<Rightarrow> 'a) \<Rightarrow> ('s, 'a) cpp" where
  "reads f = (\<lambda>s. (Ok (f s), s))"

definition writes :: "('s \<Rightarrow> 's) \<Rightarrow> ('s, unit) cpp" where
  "writes f = (\<lambda>s. (Ok (), f s))"

definition assert_cpp :: "bool \<Rightarrow> ('s, unit) cpp" where
  "assert_cpp b = (if b then ret () else abort Assertion_failed)"

text \<open>\<open>lift_outcome\<close> runs a stateless computation; \<open>when_cpp\<close> is an \<open>if\<close> without \<open>else\<close>.\<close>

definition lift_outcome :: "'a outcome \<Rightarrow> ('s, 'a) cpp" where
  "lift_outcome r = (\<lambda>s. (r, s))"

definition when_cpp :: "bool \<Rightarrow> ('s, unit) cpp \<Rightarrow> ('s, unit) cpp" where
  "when_cpp b m = (if b then m else ret ())"

text \<open>
  \<open>try { m } catch (std::exception& ex) { h }\<close>: the handler runs in the state the throw left;
  a thrown \<open>std::string\<close> and a fault pass through.
\<close>

definition try_std :: "('s, 'a) cpp \<Rightarrow> (string \<Rightarrow> ('s, 'a) cpp) \<Rightarrow> ('s, 'a) cpp" where
  "try_std m h = (\<lambda>s. case m s of
       (Throw (Std_exception msg), s') \<Rightarrow> h msg s'
     | (r, s') \<Rightarrow> (r, s'))"

text \<open>A computation on a part of the state (a member object), run on the whole.\<close>

definition on_part :: "('s \<Rightarrow> 'p) \<Rightarrow> ('p \<Rightarrow> 's \<Rightarrow> 's) \<Rightarrow> ('p, 'a) cpp \<Rightarrow> ('s, 'a) cpp" where
  "on_part get put m = (\<lambda>s. case m (get s) of (r, p) \<Rightarrow> (r, put p s))"

fun for_each :: "('a \<Rightarrow> ('s, unit) cpp) \<Rightarrow> 'a list \<Rightarrow> ('s, unit) cpp" where
  "for_each f [] = ret ()"
| "for_each f (x # xs) = thn (f x) (for_each f xs)"

subsection \<open>Running computations\<close>

named_theorems cpp_simps "how the computation combinators run on a state"

lemma ret_run [cpp_simps]: "ret a s = (Ok a, s)"
  by (simp add: ret_def)

lemma throw_run [cpp_simps]: "throw_exn e s = (Throw e, s)"
  by (simp add: throw_exn_def)

lemma abort_run [cpp_simps]: "abort f s = (Abort f, s)"
  by (simp add: abort_def)

lemma bnd_run [cpp_simps]:
  "bnd m k s = (case m s of
       (Ok a, s') \<Rightarrow> k a s'
     | (Throw e, s') \<Rightarrow> (Throw e, s')
     | (Abort f, s') \<Rightarrow> (Abort f, s'))"
  by (simp add: bnd_def)

lemma reads_run [cpp_simps]: "reads f s = (Ok (f s), s)"
  by (simp add: reads_def)

lemma writes_run [cpp_simps]: "writes f s = (Ok (), f s)"
  by (simp add: writes_def)

lemma assert_run [cpp_simps]: "assert_cpp b s = (if b then Ok () else Abort Assertion_failed, s)"
  by (simp add: assert_cpp_def cpp_simps)

lemma lift_outcome_run [cpp_simps]: "lift_outcome r s = (r, s)"
  by (simp add: lift_outcome_def)

lemma when_run [cpp_simps]: "when_cpp b m s = (if b then m s else (Ok (), s))"
  by (simp add: when_cpp_def cpp_simps)

lemma try_std_run [cpp_simps]:
  "try_std m h s = (case m s of
       (Throw (Std_exception msg), s') \<Rightarrow> h msg s'
     | (r, s') \<Rightarrow> (r, s'))"
  by (simp add: try_std_def)

lemma on_part_run [cpp_simps]:
  "on_part get put m s = (case m (get s) of (r, p) \<Rightarrow> (r, put p s))"
  by (simp add: on_part_def)

lemma bnd_assoc: "bnd (bnd m k) l = bnd m (\<lambda>a. bnd (k a) l)"
  by (rule ext) (simp add: cpp_simps split: prod.splits outcome.splits)

lemma for_each_append:
  "for_each f (xs @ ys) = thn (for_each f xs) (for_each f ys)"
proof (induction xs)
  case Nil
  show ?case by (rule ext) (simp add: cpp_simps)
next
  case (Cons x xs)
  then show ?case by (simp add: bnd_assoc)
qed

subsection \<open>Invariants of computations\<close>

text \<open>
  \<open>preserves I m\<close>: whatever the outcome of \<open>m\<close> (value, exception or fault), the state it leaves
  satisfies \<open>I\<close> if the one it started from did.  With \<open>I = (\<lambda>s. f s = c)\<close> it is a frame rule.
\<close>

definition preserves :: "('s \<Rightarrow> bool) \<Rightarrow> ('s, 'a) cpp \<Rightarrow> bool" where
  "preserves I m \<longleftrightarrow> (\<forall>s. I s \<longrightarrow> I (snd (m s)))"

named_theorems preserves_rules "composition rules for invariants of computations"

lemma preservesI: "(\<And>s. I s \<Longrightarrow> I (snd (m s))) \<Longrightarrow> preserves I m"
  by (simp add: preserves_def)

lemma preservesD: "preserves I m \<Longrightarrow> I s \<Longrightarrow> I (snd (m s))"
  by (simp add: preserves_def)

lemma preserves_ret [preserves_rules]: "preserves I (ret a)"
  by (simp add: preserves_def cpp_simps)

lemma preserves_throw [preserves_rules]: "preserves I (throw_exn e)"
  by (simp add: preserves_def cpp_simps)

lemma preserves_abort [preserves_rules]: "preserves I (abort f)"
  by (simp add: preserves_def cpp_simps)

lemma preserves_reads [preserves_rules]: "preserves I (reads f)"
  by (simp add: preserves_def cpp_simps)

lemma preserves_assert [preserves_rules]: "preserves I (assert_cpp b)"
  by (simp add: preserves_def cpp_simps)

lemma preserves_lift [preserves_rules]: "preserves I (lift_outcome r)"
  by (simp add: preserves_def cpp_simps)

lemma preserves_writes: "(\<And>s. I s \<Longrightarrow> I (f s)) \<Longrightarrow> preserves I (writes f)"
  by (simp add: preserves_def cpp_simps)

lemma preserves_conj: "preserves I m \<Longrightarrow> preserves J m \<Longrightarrow> preserves (\<lambda>s. I s \<and> J s) m"
  by (simp add: preserves_def)

lemma preserves_bnd [preserves_rules]:
  assumes "preserves I m" and "\<And>a. preserves I (k a)"
  shows "preserves I (bnd m k)"
proof (rule preservesI)
  fix s assume "I s"
  with assms(1) have "I (snd (m s))" by (rule preservesD)
  then show "I (snd (bnd m k s))"
    using preservesD [OF assms(2)] by (cases "m s") (auto simp: cpp_simps split: outcome.split)
qed

lemma preserves_when [preserves_rules]: "(b \<Longrightarrow> preserves I m) \<Longrightarrow> preserves I (when_cpp b m)"
  by (simp add: when_cpp_def preserves_ret)

lemma preserves_if [preserves_rules]:
  "(b \<Longrightarrow> preserves I m) \<Longrightarrow> (\<not> b \<Longrightarrow> preserves I n) \<Longrightarrow> preserves I (if b then m else n)"
  by simp

lemma preserves_try [preserves_rules]:
  assumes "preserves I m" and "\<And>msg. preserves I (h msg)"
  shows "preserves I (try_std m h)"
proof (rule preservesI)
  fix s assume "I s"
  with assms(1) have "I (snd (m s))" by (rule preservesD)
  then show "I (snd (try_std m h s))"
    using preservesD [OF assms(2)]
    by (cases "m s") (auto simp: cpp_simps split: outcome.split exn.split)
qed

lemma preserves_for_each [preserves_rules]:
  assumes "\<And>x. x \<in> set xs \<Longrightarrow> preserves I (f x)"
  shows "preserves I (for_each f xs)"
  using assms by (induction xs) (auto intro!: preserves_rules)

lemma preserves_on_part:
  assumes "\<And>s. I s \<Longrightarrow> I (put (snd (m (get s))) s)"
  shows "preserves I (on_part get put m)"
  using assms by (auto intro!: preservesI simp: cpp_simps split: prod.split) (metis snd_conv)

text \<open>
  \<open>kept I m\<close>: the same unless \<open>m\<close> ends in a fault, for what only returns and exceptions restore.
\<close>

definition kept :: "('s \<Rightarrow> bool) \<Rightarrow> ('s, 'a) cpp \<Rightarrow> bool" where
  "kept I m \<longleftrightarrow> (\<forall>s. I s \<longrightarrow> (\<exists>f. fst (m s) = Abort f) \<or> I (snd (m s)))"

named_theorems kept_rules "composition rules for what holds unless there is a fault"

lemma keptI: "(\<And>s r s'. I s \<Longrightarrow> m s = (r, s') \<Longrightarrow> (\<And>f. r \<noteq> Abort f) \<Longrightarrow> I s') \<Longrightarrow> kept I m"
  unfolding kept_def by (metis surjective_pairing)

lemma keptD: "kept I m \<Longrightarrow> I s \<Longrightarrow> m s = (r, s') \<Longrightarrow> (\<And>f. r \<noteq> Abort f) \<Longrightarrow> I s'"
  unfolding kept_def by (metis fst_conv snd_conv)

lemma kept_preserves: "preserves I m \<Longrightarrow> kept I m"
  by (simp add: kept_def preserves_def)

lemma kept_bnd [kept_rules]:
  assumes "kept I m" and "\<And>a. kept I (k a)"
  shows "kept I (bnd m k)"
proof (rule keptI)
  fix s r s' assume s: "I s" and run: "bnd m k s = (r, s')" and nf: "\<And>f. r \<noteq> Abort f"
  obtain q t where q: "m s = (q, t)" by fastforce
  show "I s'"
  proof (cases q)
    case (Ok a)
    have "I t" by (rule keptD [OF assms(1) s q]) (simp add: Ok)
    moreover have "k a t = (r, s')" using run q Ok by (simp add: cpp_simps)
    ultimately show ?thesis using keptD [OF assms(2)] nf by blast
  next
    case (Throw e)
    have "I t" by (rule keptD [OF assms(1) s q]) (simp add: Throw)
    then show ?thesis using run q Throw by (simp add: cpp_simps)
  next
    case (Abort f)
    then show ?thesis using run q nf [of f] by (simp add: cpp_simps)
  qed
qed

lemma kept_try [kept_rules]:
  assumes "kept I m" and "\<And>msg. kept I (h msg)"
  shows "kept I (try_std m h)"
proof (rule keptI)
  fix s r s' assume s: "I s" and run: "try_std m h s = (r, s')" and nf: "\<And>f. r \<noteq> Abort f"
  obtain q t where q: "m s = (q, t)" by fastforce
  have t: "I t" if "\<And>f. q \<noteq> Abort f" using keptD [OF assms(1) s q] that by blast
  show "I s'"
  proof (cases q)
    case (Throw e)
    then show ?thesis
      using run q t keptD [OF assms(2)] nf by (cases e) (auto simp: cpp_simps)
  qed (use run q t nf in \<open>auto simp: cpp_simps\<close>)
qed

lemma kept_if [kept_rules]:
  "(b \<Longrightarrow> kept I m) \<Longrightarrow> (\<not> b \<Longrightarrow> kept I n) \<Longrightarrow> kept I (if b then m else n)"
  by simp

lemma kept_for_each [kept_rules]:
  assumes "\<And>x. x \<in> set xs \<Longrightarrow> kept I (f x)"
  shows "kept I (for_each f xs)"
  using assms by (induction xs) (auto intro: kept_bnd simp: kept_preserves [OF preserves_ret])

text \<open>\<open>no_throw m\<close>: \<open>m\<close> returns or ends in a fault.\<close>

definition no_throw :: "('s, 'a) cpp \<Rightarrow> bool" where
  "no_throw m \<longleftrightarrow> (\<forall>s e. fst (m s) \<noteq> Throw e)"

named_theorems no_throw_rules "computations that throw no exception"

lemma no_throwI: "(\<And>s e. fst (m s) \<noteq> Throw e) \<Longrightarrow> no_throw m"
  by (simp add: no_throw_def)

lemma no_throwD: "no_throw m \<Longrightarrow> fst (m s) \<noteq> Throw e"
  by (simp add: no_throw_def)

lemma no_throw_basic [no_throw_rules]:
  "no_throw (ret a)" "no_throw (abort f)" "no_throw (reads g)" "no_throw (writes w)"
  by (simp_all add: no_throw_def cpp_simps)

lemma no_throw_bnd [no_throw_rules]:
  assumes "no_throw m" and "\<And>a. no_throw (k a)"
  shows "no_throw (bnd m k)"
proof (rule no_throwI)
  fix s e
  show "fst (bnd m k s) \<noteq> Throw e"
  proof (cases "m s")
    case (Pair r s')
    then show ?thesis using no_throwD [OF assms(1), of s] no_throwD [OF assms(2)]
      by (cases r) (simp_all add: bnd_run)
  qed
qed

lemma no_throw_when [no_throw_rules]: "no_throw m \<Longrightarrow> no_throw (when_cpp b m)"
  by (simp add: when_cpp_def no_throw_basic)

lemma no_throw_for_each [no_throw_rules]: "(\<And>x. no_throw (f x)) \<Longrightarrow> no_throw (for_each f xs)"
  by (induction xs) (auto intro: no_throw_rules)

section \<open>Lists in another order\<close>

text \<open>A permutation of what a function gives for a list is what it gives for a permutation of it.\<close>

lemma mset_map_listed:
  assumes "mset hs = mset (map f xs)"
  shows "\<exists>ys. mset ys = mset xs \<and> hs = map f ys"
  using assms
proof (induction hs arbitrary: xs)
  case (Cons h hs)
  then have "h \<in> set (map f xs)" by (metis list.set_intros(1) set_mset_mset)
  then obtain x where x: "x \<in> set xs" "h = f x" by auto
  have "mset (map f (remove1 x xs)) = mset (map f xs) - {#f x#}"
    using x(1) by (simp add: image_mset_Diff)
  also have "\<dots> = mset hs" unfolding Cons.prems [symmetric] by (simp add: x(2))
  finally have "mset hs = mset (map f (remove1 x xs))" by (rule sym)
  from Cons.IH [OF this] obtain ys where "mset ys = mset (remove1 x xs)" "hs = map f ys" by blast
  with x show ?case by (intro exI [of _ "x # ys"]) simp
qed simp

section \<open>Ordered containers\<close>

subsection \<open>\<open>std::map\<close>\<close>

text \<open>
  A \<open>std::map\<close> is the list of its entries in iteration order: keys strictly increasing.
  \<open>omap_put\<close> is \<open>m[k] = v\<close>, \<open>omap_erase\<close> is \<open>m.erase(k)\<close>, lookup is \<open>map_of\<close>.
\<close>

definition omap_ok :: "('k::linorder \<times> 'v) list \<Rightarrow> bool" where
  "omap_ok m \<longleftrightarrow> sorted_wrt (<) (map fst m)"

fun omap_put :: "'k::linorder \<Rightarrow> 'v \<Rightarrow> ('k \<times> 'v) list \<Rightarrow> ('k \<times> 'v) list" where
  "omap_put k v [] = [(k, v)]"
| "omap_put k v (e # m) =
     (if fst e < k then e # omap_put k v m
      else if fst e = k then (k, v) # m
      else (k, v) # e # m)"

definition omap_erase :: "'k \<Rightarrow> ('k \<times> 'v) list \<Rightarrow> ('k \<times> 'v) list" where
  "omap_erase k m = filter (\<lambda>e. fst e \<noteq> k) m"

definition omap_has :: "'k \<Rightarrow> ('k \<times> 'v) list \<Rightarrow> bool" where
  "omap_has k m \<longleftrightarrow> k \<in> fst ` set m"

lemma omap_has_iff: "omap_has k m \<longleftrightarrow> map_of m k \<noteq> None"
  by (auto simp: omap_has_def map_of_eq_None_iff)

lemma omap_ok_Nil [simp]: "omap_ok []"
  by (simp add: omap_ok_def)

lemma omap_ok_Cons [simp]: "omap_ok (e # m) \<longleftrightarrow> (\<forall>x \<in> set m. fst e < fst x) \<and> omap_ok m"
  by (auto simp: omap_ok_def)

lemma set_omap_put_subset: "set (omap_put k v m) \<subseteq> insert (k, v) (set m)"
  by (induction m) auto

lemma fst_set_omap_put [simp]: "fst ` set (omap_put k v m) = insert k (fst ` set m)"
  by (induction m) auto

lemma omap_ok_put [simp]: "omap_ok m \<Longrightarrow> omap_ok (omap_put k v m)"
proof (induction m)
  case Nil
  show ?case by simp
next
  case (Cons e m)
  have "\<forall>x \<in> set (omap_put k v m). fst x = k \<or> x \<in> set m"
    using set_omap_put_subset [of k v m] by auto
  then show ?case using Cons by (auto dest: order.strict_trans)
qed

lemma omap_put_notin: "k \<notin> fst ` set m \<Longrightarrow> set (omap_put k v m) = insert (k, v) (set m)"
  by (induction m) auto

lemma map_of_omap_put [simp]: "map_of (omap_put k v m) = (map_of m)(k \<mapsto> v)"
proof (induction m)
  case Nil
  show ?case by auto
next
  case (Cons e m)
  then show ?case by (cases e) (auto simp: fun_eq_iff)
qed

lemma length_omap_put:
  "omap_ok m \<Longrightarrow>
     length (omap_put k v m) = (if k \<in> fst ` set m then length m else Suc (length m))"
proof (induction m)
  case Nil
  show ?case by simp
next
  case (Cons e m)
  then show ?case by (cases "fst e < k"; cases "fst e = k") auto
qed

lemma omap_ok_erase [simp]: "omap_ok m \<Longrightarrow> omap_ok (omap_erase k m)"
  by (induction m) (auto simp: omap_erase_def)

lemma map_of_omap_erase [simp]: "map_of (omap_erase k m) = (map_of m)(k := None)"
proof (induction m)
  case Nil
  show ?case by (simp add: omap_erase_def)
next
  case (Cons e m)
  then show ?case by (cases e) (auto simp: omap_erase_def fun_eq_iff)
qed

lemma set_omap_erase [simp]: "set (omap_erase k m) = {e \<in> set m. fst e \<noteq> k}"
  by (auto simp: omap_erase_def)

lemma omap_ok_distinct: "omap_ok m \<Longrightarrow> distinct (map fst m)"
  by (induction m) auto

lemma omap_ok_map_of: "omap_ok m \<Longrightarrow> (k, v) \<in> set m \<longleftrightarrow> map_of m k = Some v"
  by (simp add: omap_ok_distinct)

lemma set_omap_put:
  assumes "omap_ok m"
  shows "set (omap_put k v m) = insert (k, v) {e \<in> set m. fst e \<noteq> k}"
proof -
  have "e \<in> set (omap_put k v m) \<longleftrightarrow> e = (k, v) \<or> e \<in> set m \<and> fst e \<noteq> k" for e
    using assms by (cases e) (auto simp: omap_ok_map_of)
  then show ?thesis by blast
qed

lemma omap_put_same: "omap_ok m \<Longrightarrow> map_of m k = Some v \<Longrightarrow> omap_put k v m = m"
proof (induction m)
  case Nil
  then show ?case by simp
next
  case (Cons e m)
  show ?case
  proof (cases "fst e = k")
    case True
    with Cons.prems show ?thesis by (cases e) auto
  next
    case False
    with Cons.prems have "map_of m k = Some v" by (cases e) auto
    then have "\<exists>y \<in> set m. fst y = k" by (force dest: map_of_SomeD)
    with Cons.prems(1) False have "fst e < k" by auto
    with Cons \<open>map_of m k = Some v\<close> show ?thesis by simp
  qed
qed

lemma omap_put_put [simp]: "omap_put k v (omap_put k w m) = omap_put k v m"
  by (induction m) auto

lemma omap_erase_put [simp]: "omap_erase k (omap_put k v m) = omap_erase k m"
  by (induction m) (auto simp: omap_erase_def)

lemma omap_hd_least: "omap_ok m \<Longrightarrow> e \<in> set m \<Longrightarrow> fst (hd m) \<le> fst e"
  by (cases m) (auto intro: less_imp_le)

subsection \<open>\<open>std::multimap\<close>\<close>

text \<open>
  A \<open>std::multimap\<close> is the list of its entries in iteration order: keys weakly increasing,
  equal keys in insertion order (an insertion goes to the upper bound of its key).  An iterator
  is a position; \<open>end()\<close> is the length.  \<open>find\<close> is the first entry of the key, as the
  implementations of the library have it and as the loops over \<open>count\<close> entries need it.
\<close>

fun mm_insert :: "'k::linorder \<Rightarrow> 'v \<Rightarrow> ('k \<times> 'v) list \<Rightarrow> ('k \<times> 'v) list" where
  "mm_insert k v [] = [(k, v)]"
| "mm_insert k v (e # m) = (if k < fst e then (k, v) # e # m else e # mm_insert k v m)"

definition mm_ok :: "('k::linorder \<times> 'v) list \<Rightarrow> bool" where
  "mm_ok m \<longleftrightarrow> sorted_wrt (\<le>) (map fst m)"

definition mm_count :: "'k \<Rightarrow> ('k \<times> 'v) list \<Rightarrow> nat" where
  "mm_count k m = length (filter (\<lambda>e. fst e = k) m)"

definition mm_find :: "'k::linorder \<Rightarrow> ('k \<times> 'v) list \<Rightarrow> nat" where
  "mm_find k m = (if mm_count k m = 0 then length m else length (takeWhile (\<lambda>e. fst e < k) m))"

definition erase_at :: "nat \<Rightarrow> 'a list \<Rightarrow> 'a list" where
  "erase_at i xs = take i xs @ drop (Suc i) xs"

lemma mm_ok_Nil [simp]: "mm_ok []"
  by (simp add: mm_ok_def)

lemma mm_ok_Cons [simp]: "mm_ok (e # m) \<longleftrightarrow> (\<forall>x \<in> set m. fst e \<le> fst x) \<and> mm_ok m"
  by (auto simp: mm_ok_def)

lemma mm_ok_append [simp]:
  "mm_ok (m @ n) \<longleftrightarrow> mm_ok m \<and> mm_ok n \<and> (\<forall>x \<in> set m. \<forall>y \<in> set n. fst x \<le> fst y)"
  by (auto simp: mm_ok_def sorted_wrt_append)

lemma set_mm_insert [simp]: "set (mm_insert k v m) = insert (k, v) (set m)"
  by (induction m) auto

lemma length_mm_insert [simp]: "length (mm_insert k v m) = Suc (length m)"
  by (induction m) auto

lemma mm_count_fst: "mm_count j m = length (filter (\<lambda>x. x = j) (map fst m))"
  by (simp add: mm_count_def filter_map comp_def)

lemma distinct_map_mm_insert:
  "distinct (map f (mm_insert k v m)) \<longleftrightarrow> f (k, v) \<notin> f ` set m \<and> distinct (map f m)"
  by (induction m) auto

lemma mm_ok_insert [simp]: "mm_ok m \<Longrightarrow> mm_ok (mm_insert k v m)"
  by (induction m) (auto simp: not_less)

lemma mm_insert_filter:
  "mm_ok m \<Longrightarrow> filter (\<lambda>e. fst e = j) (mm_insert k v m) =
     filter (\<lambda>e. fst e = j) m @ (if j = k then [(k, v)] else [])"
proof (induction m)
  case Nil
  show ?case by simp
next
  case (Cons e m)
  show ?case
  proof (cases "k < fst e")
    case True
    with Cons.prems have "\<forall>x \<in> set (e # m). fst x \<noteq> k" by auto
    then have "filter (\<lambda>x. fst x = k) (e # m) = []" by (simp add: filter_empty_conv)
    with True show ?thesis by auto
  next
    case False
    with Cons show ?thesis by auto
  qed
qed

lemma mm_count_insert: "mm_ok m \<Longrightarrow>
    mm_count j (mm_insert k v m) = mm_count j m + (if j = k then 1 else 0)"
  by (simp add: mm_count_def mm_insert_filter)

text \<open>The entries of a key are the \<open>count\<close> positions from \<open>find\<close> on.\<close>

lemma mm_split:
  assumes "mm_ok m"
  shows "m = takeWhile (\<lambda>e. fst e < k) m @ filter (\<lambda>e. fst e = k) m @ filter (\<lambda>e. k < fst e) m"
  using assms
proof (induction m)
  case Nil
  show ?case by simp
next
  case (Cons e m)
  show ?case
  proof (cases "fst e < k")
    case True
    with Cons show ?thesis by auto
  next
    case False
    with Cons.prems have "\<forall>x \<in> set m. \<not> fst x < k" by auto
    then have tw: "takeWhile (\<lambda>e. fst e < k) m = []" by (cases m) auto
    show ?thesis
    proof (cases "fst e = k")
      case True
      with tw Cons show ?thesis by auto
    next
      case ne: False
      with False Cons.prems have "\<forall>x \<in> set m. k < fst x" by auto
      then have "filter (\<lambda>e. fst e = k) m = []" and "filter (\<lambda>e. k < fst e) m = m"
        by (auto simp: filter_empty_conv filter_id_conv)
      with False ne tw show ?thesis by auto
    qed
  qed
qed

lemma mm_range:
  assumes "mm_ok m"
  shows "take (mm_count k m) (drop (mm_find k m) m) = filter (\<lambda>e. fst e = k) m"
proof (cases "mm_count k m = 0")
  case True
  then show ?thesis by (simp add: mm_count_def)
next
  case False
  let ?a = "takeWhile (\<lambda>e. fst e < k) m" and ?b = "filter (\<lambda>e. fst e = k) m"
    and ?c = "filter (\<lambda>e. k < fst e) m"
  have "m = ?a @ ?b @ ?c" by (rule mm_split [OF assms])
  then have "drop (length ?a) m = ?b @ ?c" by (metis append_eq_conv_conj)
  with False show ?thesis by (simp add: mm_find_def mm_count_def)
qed

lemma mm_find_bound: "mm_ok m \<Longrightarrow> mm_find k m + mm_count k m \<le> length m"
proof -
  assume "mm_ok m"
  then have "length m = length (takeWhile (\<lambda>e. fst e < k) m) + mm_count k m
      + length (filter (\<lambda>e. k < fst e) m)"
    by (subst mm_split [of m k]) (simp_all add: mm_count_def)
  then show ?thesis by (simp add: mm_find_def)
qed

lemma nth_append_last: "length a + length b \<le> j \<Longrightarrow> j < length (a @ b @ c) \<Longrightarrow> (a @ b @ c) ! j \<in> set c"
  using nth_append [of "a @ b" c j] by simp

lemma mm_index_in_range:
  assumes "mm_ok m" and "j < length m" and "fst (m ! j) = k"
  shows "\<exists>q < mm_count k m. j = mm_find k m + q"
proof -
  let ?a = "takeWhile (\<lambda>e. fst e < k) m" and ?b = "filter (\<lambda>e. fst e = k) m" and ?c = "filter (\<lambda>e. k < fst e) m"
  have split: "m = ?a @ ?b @ ?c" by (rule mm_split [OF assms(1)])
  have len: "length m = length ?a + length ?b + length ?c" by (subst split) simp
  have "length ?a \<le> j"
  proof (rule ccontr)
    assume "\<not> ?thesis"
    then have "j < length ?a" by simp
    then have "?a ! j \<in> set ?a" and "?a ! j = m ! j" by (rule nth_mem, rule takeWhile_nth)
    then have "fst (m ! j) < k" using set_takeWhileD by metis
    with assms(3) show False by simp
  qed
  moreover have "j < length ?a + length ?b"
  proof (rule ccontr)
    assume "\<not> ?thesis"
    then have "(?a @ ?b @ ?c) ! j \<in> set ?c"
      using assms(2) len by (intro nth_append_last) (simp_all only: length_append add.assoc not_less)
    then have "m ! j \<in> set ?c" by (simp only: split [symmetric])
    with assms(3) show False by simp
  qed
  ultimately have "j = mm_find k m + (j - length ?a)" and "j - length ?a < mm_count k m"
    by (auto simp: mm_find_def mm_count_def)
  then show ?thesis by blast
qed

lemma mm_range_nth:
  assumes "mm_ok m" and "i < mm_count k m"
  shows "mm_find k m + i < length m"
    and "m ! (mm_find k m + i) = filter (\<lambda>e. fst e = k) m ! i"
    and "fst (m ! (mm_find k m + i)) = k"
proof -
  show lt: "mm_find k m + i < length m"
    using mm_find_bound [OF assms(1), of k] assms(2) by simp
  have "take (mm_count k m) (drop (mm_find k m) m) ! i = m ! (mm_find k m + i)"
    using assms(2) lt by simp
  then show eq: "m ! (mm_find k m + i) = filter (\<lambda>e. fst e = k) m ! i"
    by (simp add: mm_range [OF assms(1)])
  have "filter (\<lambda>e. fst e = k) m ! i \<in> set (filter (\<lambda>e. fst e = k) m)"
    using assms(2) by (intro nth_mem) (simp add: mm_count_def)
  with eq show "fst (m ! (mm_find k m + i)) = k" by simp
qed

subsection \<open>Erasing by position\<close>

lemma length_erase_at: "i < length xs \<Longrightarrow> length (erase_at i xs) = length xs - 1"
  by (simp add: erase_at_def)

lemma set_erase_at_subset: "set (erase_at i xs) \<subseteq> set xs"
  by (auto simp: erase_at_def dest: in_set_takeD in_set_dropD)

lemma erase_at_mset: "i < length xs \<Longrightarrow> xs = take i xs @ xs ! i # drop (Suc i) xs"
  by (simp add: id_take_nth_drop)

lemma filter_erase_at:
  "i < length xs \<Longrightarrow> \<not> P (xs ! i) \<Longrightarrow> filter P (erase_at i xs) = filter P xs"
  by (subst (2) erase_at_mset [of i xs]) (simp_all add: erase_at_def)

lemma mm_ok_erase_at: "mm_ok m \<Longrightarrow> mm_ok (erase_at i m)"
proof -
  assume "mm_ok m"
  then have "mm_ok (take i m @ drop i m)" by simp
  moreover have "drop (Suc i) m = drop 1 (drop i m)" by simp
  ultimately show ?thesis
    by (metis erase_at_def mm_ok_append mm_ok_def drop_map in_set_dropD sorted_wrt_drop)
qed

lemma distinct_erase_at:
  assumes "distinct xs" and "i < length xs"
  shows "distinct (erase_at i xs)" and "set (erase_at i xs) = set xs - {xs ! i}"
proof -
  have "distinct (take i xs @ xs ! i # drop (Suc i) xs)"
    using assms erase_at_mset by metis
  then show "distinct (erase_at i xs)" by (simp add: erase_at_def)
  have "set xs = set (take i xs @ xs ! i # drop (Suc i) xs)"
    using assms(2) erase_at_mset by metis
  then show "set (erase_at i xs) = set xs - {xs ! i}"
    using \<open>distinct (take i xs @ xs ! i # drop (Suc i) xs)\<close> by (auto simp: erase_at_def)
qed

end
