(* ===== verification/Keys.thy ===== *)
theory Keys
  imports Prelude
begin

unbundle bit_operations_syntax

text \<open>
  Keys and digests: \<open>Sources/miniDHT_const.h\<close> and the digest part of
  \<open>Sources/miniDHT_const.cpp\<close>.  A \<open>std::bitset<SIZE>\<close> is a word of that length (bit \<open>i\<close> of the
  bitset is bit \<open>i\<close> of the word), a \<open>digest_t\<close> is the list of its 32 bytes \<open>c[0..31]\<close>, a key as
  the node, the bucket and the search carry it is its text (\<open>std::string\<close>).  The lemmas relate the
  loops to the arithmetic of words: \<open>operator<\<close> and the order of \<open>to_string()\<close> are the unsigned
  order, \<open>common_bits\<close> is the position of the leading bit of the exclusive or.
\<close>

section \<open>Constants and types\<close>

definition KEY_SIZE :: nat where "KEY_SIZE = 256"
definition TOKEN_SIZE :: nat where "TOKEN_SIZE = 32"
definition ALPHA :: nat where "ALPHA = 3"
definition BUCKET_SIZE :: nat where "BUCKET_SIZE = 5"
definition PERIODIC :: int where "PERIODIC = 5"
definition DIGEST_LENGTH :: nat where "DIGEST_LENGTH = 32"

type_synonym key = "256 word"
type_synonym token = "32 word"
type_synonym byte = "8 word"
type_synonym digest = "byte list"
type_synonym key_text = string

section \<open>Bitsets\<close>

text \<open>The loops \<open>for (i = 0; i < SIZE; ++i) ret[i] = f(i)\<close> build \<open>bitset_of f\<close>.\<close>

definition bitset_of :: "(nat \<Rightarrow> bool) \<Rightarrow> 'a::len word" where
  "bitset_of f = horner_sum of_bool 2 (map f [0..<LENGTH('a)])"

text \<open>\<open>bitset::to_string()\<close>: one character per bit, the most significant first.\<close>

definition bitset_to_string :: "'a::len word \<Rightarrow> string" where
  "bitset_to_string w = map (\<lambda>i. if bit w i then CHR ''1'' else CHR ''0'') (rev [0..<LENGTH('a)])"

fun bitset_less_loop :: "'a::len word \<Rightarrow> 'a word \<Rightarrow> nat \<Rightarrow> nat \<Rightarrow> bool" where
  "bitset_less_loop a b 0 pos = False"
| "bitset_less_loop a b (Suc n) pos =
     (if bit a (LENGTH('a) - pos)
      then (if \<not> bit b (LENGTH('a) - pos) then False else bitset_less_loop a b n (Suc pos))
      else (if bit b (LENGTH('a) - pos) then True else bitset_less_loop a b n (Suc pos)))"

definition bitset_less :: "'a::len word \<Rightarrow> 'a word \<Rightarrow> bool" where
  "bitset_less a b = (if a = b then False else bitset_less_loop a b (LENGTH('a)) 1)"

definition bitset_le :: "'a::len word \<Rightarrow> 'a word \<Rightarrow> bool" where
  "bitset_le a b = (bitset_less a b \<or> a = b)"

fun common_bits_loop :: "'a::len word \<Rightarrow> 'a word \<Rightarrow> nat \<Rightarrow> nat \<Rightarrow> nat" where
  "common_bits_loop k1 k2 0 i = LENGTH('a)"
| "common_bits_loop k1 k2 (Suc n) i =
     (if bit k1 (LENGTH('a) - 1 - i) \<noteq> bit k2 (LENGTH('a) - 1 - i) then i
      else common_bits_loop k1 k2 n (Suc i))"

definition common_bits :: "'a::len word \<Rightarrow> 'a word \<Rightarrow> nat" where
  "common_bits k1 k2 = common_bits_loop k1 k2 (LENGTH('a)) 0"

text \<open>
  \<open>random()\<close> is the environment's: \<open>rnd i\<close> is the value its \<open>i\<close>-th call returns, and \<open>pos\<close>
  the number of calls made before.  A random bitset draws \<open>SIZE\<close> values.
\<close>

definition random_bitset :: "(nat \<Rightarrow> nat) \<Rightarrow> nat \<Rightarrow> 'a::len word" where
  "random_bitset rnd pos = bitset_of (\<lambda>i. rnd (pos + i) mod 2 \<noteq> 0)"

section \<open>Digests and their text\<close>

definition hex_char :: "nat \<Rightarrow> char" where
  "hex_char n = (if n < 10 then char_of (48 + n) else char_of (87 + n))"

text \<open>\<open>std::hex\<close> output of an unsigned value: no leading zero.\<close>

fun stream_hex :: "nat \<Rightarrow> string" where
  "stream_hex n = (if n < 16 then [hex_char n] else stream_hex (n div 16) @ [hex_char (n mod 16)])"

declare stream_hex.simps [simp del]

text \<open>\<open>operator<<\<close> on digests: \<open>"%02x"\<close> for each of the bytes in order.\<close>

definition print_digest :: "digest \<Rightarrow> string" where
  "print_digest d =
     concat (map (\<lambda>i. [hex_char (unat (d ! i) div 16), hex_char (unat (d ! i) mod 16)])
       [0..<DIGEST_LENGTH])"

definition is_space :: "char \<Rightarrow> bool" where
  "is_space c \<longleftrightarrow> (of_char c :: nat) = 32 \<or> 9 \<le> (of_char c :: nat) \<and> (of_char c :: nat) \<le> 13"

text \<open>
  \<open>is >> c\<close> for a \<open>char\<close>: leading white space is skipped; at the end of the stream the variable
  keeps its value, here the 0 that \<open>memset\<close> put there.
\<close>

definition stream_char :: "string \<Rightarrow> char \<times> string" where
  "stream_char s = (case dropWhile is_space s of [] \<Rightarrow> (CHR 0x00, []) | c # r \<Rightarrow> (c, r))"

text \<open>
  \<open>strtoul(s, NULL, 16)\<close> on a C string of at most two characters, and the conversion of its result
  to \<open>unsigned char\<close>: white space, a sign, then hexadecimal digits up to the first character that
  is none; a negative number wraps.  (\<open>"0x"\<close> has no digit after the prefix, so it reads as \<open>"0"\<close>.)
\<close>

definition hex_value :: "char \<Rightarrow> nat option" where
  "hex_value c =
     (let n = (of_char c :: nat) in
      if 48 \<le> n \<and> n \<le> 57 then Some (n - 48)
      else if 97 \<le> n \<and> n \<le> 102 then Some (n - 87)
      else if 65 \<le> n \<and> n \<le> 70 then Some (n - 55)
      else None)"

fun hex_digits :: "nat \<Rightarrow> string \<Rightarrow> nat" where
  "hex_digits acc [] = acc"
| "hex_digits acc (c # cs) =
     (case hex_value c of None \<Rightarrow> acc | Some v \<Rightarrow> hex_digits (16 * acc + v) cs)"

definition strtoul16_byte :: "string \<Rightarrow> byte" where
  "strtoul16_byte s =
     (case dropWhile is_space s of
        [] \<Rightarrow> 0
      | c # cs \<Rightarrow>
          if c = CHR ''-'' then - word_of_nat (hex_digits 0 cs)
          else if c = CHR ''+'' then word_of_nat (hex_digits 0 cs)
          else word_of_nat (hex_digits 0 (c # cs)))"

definition read_hex_byte :: "string \<Rightarrow> byte \<times> string" where
  "read_hex_byte s =
     (let (c0, s1) = stream_char s; (c1, s2) = stream_char s1
      in (strtoul16_byte (takeWhile (\<lambda>c. c \<noteq> CHR 0x00) [c0, c1]), s2))"

text \<open>\<open>operator>>\<close> on digests: \<open>n\<close> bytes, two characters each.\<close>

fun read_digest_loop :: "nat \<Rightarrow> string \<Rightarrow> digest" where
  "read_digest_loop 0 s = []"
| "read_digest_loop (Suc n) s = (let (b, r) = read_hex_byte s in b # read_digest_loop n r)"

definition read_digest :: "string \<Rightarrow> digest" where
  "read_digest s = read_digest_loop DIGEST_LENGTH s"

definition digest_to_bitset :: "digest \<Rightarrow> 'a::len word" where
  "digest_to_bitset d = bitset_of (\<lambda>i. bit (d ! ((i div 8) mod DIGEST_LENGTH)) (i mod 8))"

definition string_to_key :: "string \<Rightarrow> key" where
  "string_to_key s = digest_to_bitset (read_digest s)"

text \<open>
  \<open>key_to_string\<close> at the only size the code uses, 256, where the test of \<open>SIZE % 8\<close> does not
  throw.  \<open>n\<close> bytes are left; the next one starts at bit \<open>i = 8 * (n - 1)\<close>.
\<close>

definition key_byte :: "key \<Rightarrow> nat \<Rightarrow> byte" where
  "key_byte b i = bitset_of (\<lambda>j. bit b (i + j))"

fun key_to_string_loop :: "key \<Rightarrow> nat \<Rightarrow> string" where
  "key_to_string_loop b 0 = []"
| "key_to_string_loop b (Suc n) =
     (let v = unat (key_byte b (8 * n))
      in (if v < 16 then ''0'' else []) @ stream_hex v @ key_to_string_loop b n)"

definition key_to_string :: "key \<Rightarrow> string" where
  "key_to_string b = key_to_string_loop b (KEY_SIZE div 8)"

fun digest_eq_loop :: "digest \<Rightarrow> digest \<Rightarrow> nat \<Rightarrow> nat \<Rightarrow> bool" where
  "digest_eq_loop a b 0 i = True"
| "digest_eq_loop a b (Suc n) i = (if a ! i \<noteq> b ! i then False else digest_eq_loop a b n (Suc i))"

definition digest_eq :: "digest \<Rightarrow> digest \<Rightarrow> bool" where
  "digest_eq a b = digest_eq_loop a b DIGEST_LENGTH 0"

definition digest_neq :: "digest \<Rightarrow> digest \<Rightarrow> bool" where
  "digest_neq a b = (\<not> digest_eq a b)"

text \<open>
  The hash context of OpenSSL is a parameter: an initial context, an update and a final function.
  \<open>digest_file\<close> feeds the file in the pieces \<open>fread\<close> returns, at most 32768 bytes each.
\<close>

definition digest_sum :: "'c \<Rightarrow> ('c \<Rightarrow> byte list \<Rightarrow> 'c) \<Rightarrow> ('c \<Rightarrow> digest) \<Rightarrow> byte list \<Rightarrow> digest" where
  "digest_sum init update final p = final (update init p)"

definition digest_from_string ::
  "'c \<Rightarrow> ('c \<Rightarrow> byte list \<Rightarrow> 'c) \<Rightarrow> ('c \<Rightarrow> digest) \<Rightarrow> string \<Rightarrow> digest" where
  "digest_from_string init update final s = digest_sum init update final (map of_char s)"

definition digest_key_from_string ::
  "'c \<Rightarrow> ('c \<Rightarrow> byte list \<Rightarrow> 'c) \<Rightarrow> ('c \<Rightarrow> digest) \<Rightarrow> string \<Rightarrow> 'a::len word" where
  "digest_key_from_string init update final s =
     digest_to_bitset (digest_from_string init update final s)"

function digest_file_loop :: "('c \<Rightarrow> byte list \<Rightarrow> 'c) \<Rightarrow> 'c \<Rightarrow> byte list \<Rightarrow> 'c" where
  "digest_file_loop update c rest =
     (if rest = [] then c
      else digest_file_loop update (update c (take 32768 rest)) (drop 32768 rest))"
  by pat_completeness auto
termination
  by (relation "measure (\<lambda>(u, c, rest). length rest)") auto

declare digest_file_loop.simps [simp del]

text \<open>The file system is a parameter too: the content of the path, if it can be opened.\<close>

definition digest_file ::
  "'c \<Rightarrow> ('c \<Rightarrow> byte list \<Rightarrow> 'c) \<Rightarrow> ('c \<Rightarrow> digest) \<Rightarrow> byte list option \<Rightarrow> int \<times> digest option" where
  "digest_file init update final content =
     (case content of
        None \<Rightarrow> (-534, None)
      | Some bytes \<Rightarrow> (0, Some (final (digest_file_loop update init bytes))))"

section \<open>Bitsets are words\<close>

named_theorems key_simps "bits of the words the code builds"

lemma bit_bitset_of [key_simps]:
  "bit (bitset_of f :: 'a::len word) i \<longleftrightarrow> i < LENGTH('a) \<and> f i"
  by (auto simp: bitset_of_def bit_horner_sum_bit_word_iff)

lemma bitset_of_bit [simp]: "bitset_of (bit w) = w"
  by (rule bit_word_eqI) (simp add: key_simps)

lemma nat_less_top_bit:
  fixes a b :: nat
  assumes "\<And>j. i < j \<Longrightarrow> bit a j = bit b j" and "\<not> bit a i" and "bit b i"
  shows "a < b"
proof -
  have "drop_bit (Suc i) a = drop_bit (Suc i) b"
    by (rule bit_eqI) (use assms(1) in \<open>auto simp: bit_drop_bit_eq\<close>)
  then have "push_bit (Suc i) (drop_bit (Suc i) a) = push_bit (Suc i) (drop_bit (Suc i) b)" by simp
  moreover have "take_bit (Suc i) a < take_bit (Suc i) b"
    using assms(2,3) by (simp add: take_bit_Suc_from_most trans_less_add1)
  ultimately show ?thesis
    using bits_ident [of "Suc i" a] bits_ident [of "Suc i" b] by linarith
qed

text \<open>Two different words have a leading bit where they differ; it decides the order.\<close>

lemma word_top_bit_ex:
  fixes a b :: "'a::len word"
  assumes "a \<noteq> b"
  obtains i where "i < LENGTH('a)" and "bit a i \<noteq> bit b i"
    and "\<And>j. i < j \<Longrightarrow> bit a j = bit b j"
proof -
  let ?D = "{i. i < LENGTH('a) \<and> bit a i \<noteq> bit b i}"
  have ne: "?D \<noteq> {}" using assms by (auto simp: bit_eq_iff dest: bit_imp_le_length)
  have fin: "finite ?D" by simp
  let ?i = "Max ?D"
  have "?i \<in> ?D" using Max_in [OF fin ne] .
  moreover have "bit a j = bit b j" if "?i < j" for j
    using that Max_ge [OF fin, of j] bit_imp_le_length [of a j] bit_imp_le_length [of b j]
    by (auto simp: not_le [symmetric])
  ultimately show ?thesis using that by blast
qed

lemma word_less_top_bit:
  fixes a b :: "'a::len word"
  assumes "\<And>j. i < j \<Longrightarrow> bit a j = bit b j" and "\<not> bit a i" and "bit b i"
  shows "a < b"
  unfolding word_less_nat_alt
  using assms by (intro nat_less_top_bit [of i]) (auto simp: bit_unsigned_iff)

lemma word_less_iff_top_bit:
  fixes a b :: "'a::len word"
  shows "a < b \<longleftrightarrow> (\<exists>i < LENGTH('a). \<not> bit a i \<and> bit b i \<and>
    (\<forall>j. i < j \<and> j < LENGTH('a) \<longrightarrow> bit a j = bit b j))" (is "_ \<longleftrightarrow> ?R")
proof
  assume "a < b"
  then obtain i where i: "i < LENGTH('a)" "bit a i \<noteq> bit b i" "\<And>j. i < j \<Longrightarrow> bit a j = bit b j"
    using word_top_bit_ex [of a b] by blast
  then show ?R using word_less_top_bit [of i b a] \<open>a < b\<close> by fastforce
next
  assume ?R
  then obtain i where "\<not> bit a i" "bit b i" and
    eq: "\<forall>j. i < j \<and> j < LENGTH('a) \<longrightarrow> bit a j = bit b j" by blast
  moreover have "bit a j = bit b j" if "i < j" for j
    using that eq bit_imp_le_length [of a j] bit_imp_le_length [of b j] by blast
  ultimately show "a < b" by (intro word_less_top_bit [of i])
qed

lemma bitset_less_loop_iff:
  fixes a b :: "'a::len word"
  assumes "pos + n = Suc (LENGTH('a))" and "0 < pos"
  shows "bitset_less_loop a b n pos \<longleftrightarrow>
    (\<exists>i < n. \<not> bit a i \<and> bit b i \<and> (\<forall>j. i < j \<and> j < n \<longrightarrow> bit a j = bit b j))"
  using assms
proof (induction n arbitrary: pos)
  case 0
  then show ?case by simp
next
  case (Suc n)
  from Suc.prems have pos: "LENGTH('a) - pos = n" by simp
  have IH: "bitset_less_loop a b n (Suc pos) \<longleftrightarrow>
    (\<exists>i < n. \<not> bit a i \<and> bit b i \<and> (\<forall>j. i < j \<and> j < n \<longrightarrow> bit a j = bit b j))"
    using Suc.prems by (intro Suc.IH) auto
  show ?case
  proof (cases "bit a n = bit b n")
    case True
    then show ?thesis using IH pos by (auto simp: less_Suc_eq)
  next
    case False
    then show ?thesis using pos by (auto simp: less_Suc_eq)
  qed
qed

lemma bitset_less_word: "bitset_less a b \<longleftrightarrow> a < (b :: 'a::len word)"
  using bitset_less_loop_iff [of 1 "LENGTH('a)" a b]
  by (auto simp: bitset_less_def word_less_iff_top_bit)

lemma bitset_le_word: "bitset_le a b \<longleftrightarrow> a \<le> (b :: 'a::len word)"
  by (auto simp: bitset_le_def bitset_less_word)

lemma bit_text_less_iff:
  "map (\<lambda>i. if p i then CHR ''1'' else CHR ''0'') (rev [0..<n]) <
   map (\<lambda>i. if q i then CHR ''1'' else CHR ''0'') (rev [0..<n]) \<longleftrightarrow>
     (\<exists>i < n. \<not> p i \<and> q i \<and> (\<forall>j. i < j \<and> j < n \<longrightarrow> p j = q j))"
proof (induction n)
  case 0
  then show ?case by simp
next
  case (Suc n)
  have "CHR ''0'' < CHR ''1''" and "\<not> CHR ''1'' < CHR ''0''" by simp_all
  with Suc show ?case by (cases "p n"; cases "q n") (auto simp: less_Suc_eq)
qed

lemma bitset_to_string_less_iff: "bitset_to_string a < bitset_to_string b \<longleftrightarrow> a < b"
  by (simp add: bitset_to_string_def bit_text_less_iff word_less_iff_top_bit)

lemma bitset_to_string_inject [simp]: "bitset_to_string a = bitset_to_string b \<longleftrightarrow> a = b"
  using bitset_to_string_less_iff [of a b] bitset_to_string_less_iff [of b a]
  by (metis linorder_neqE order.irrefl)

section \<open>Common leading bits and the exclusive-or distance\<close>

lemma common_bits_loop_lower:
  "i + n = LENGTH('a) \<Longrightarrow> i \<le> common_bits_loop (a :: 'a::len word) b n i"
proof (induction n arbitrary: i)
  case 0
  then show ?case by simp
next
  case (Suc n)
  then have "Suc i \<le> common_bits_loop a b n (Suc i)" by simp
  then show ?case by simp
qed

lemma common_bits_loop_ge:
  "i + n = LENGTH('a) \<Longrightarrow> m \<le> n \<Longrightarrow>
   i + m \<le> common_bits_loop (a :: 'a::len word) b n i \<longleftrightarrow>
     (\<forall>j. i \<le> j \<and> j < i + m \<longrightarrow> bit a (LENGTH('a) - 1 - j) = bit b (LENGTH('a) - 1 - j))"
proof (induction n arbitrary: i m)
  case 0
  then show ?case by auto
next
  case (Suc n)
  let ?e = "\<lambda>j. bit a (LENGTH('a) - 1 - j) = bit b (LENGTH('a) - 1 - j)"
  show ?case
  proof (cases m)
    case 0
    have "i \<le> common_bits_loop a b (Suc n) i"
      by (rule common_bits_loop_lower [OF Suc.prems(1)])
    with 0 show ?thesis by (auto simp del: common_bits_loop.simps)
  next
    case (Suc m')
    have IH: "Suc i + m' \<le> common_bits_loop a b n (Suc i) \<longleftrightarrow>
      (\<forall>j. Suc i \<le> j \<and> j < Suc i + m' \<longrightarrow> ?e j)"
      using Suc.prems \<open>m = Suc m'\<close> by (intro Suc.IH) auto
    have split: "(\<forall>j. i \<le> j \<and> j < i + m \<longrightarrow> ?e j) \<longleftrightarrow>
      ?e i \<and> (\<forall>j. Suc i \<le> j \<and> j < Suc i + m' \<longrightarrow> ?e j)"
    proof -
      have "i \<le> j \<and> j < i + m \<longleftrightarrow> j = i \<or> Suc i \<le> j \<and> j < Suc i + m'" for j
        using Suc by linarith
      then show ?thesis by auto
    qed
    show ?thesis using IH split Suc by simp
  qed
qed

lemma common_bits_le: "common_bits a b \<le> LENGTH('a)" for a b :: "'a::len word"
proof -
  have "common_bits_loop a b n i \<le> LENGTH('a)" if "i + n = LENGTH('a)" for n i
    using that by (induction n arbitrary: i) auto
  then show ?thesis by (simp add: common_bits_def)
qed

lemma common_bits_ge_iff:
  fixes a b :: "'a::len word"
  assumes "n \<le> LENGTH('a)"
  shows "n \<le> common_bits a b \<longleftrightarrow>
    (\<forall>j. LENGTH('a) - n \<le> j \<and> j < LENGTH('a) \<longrightarrow> bit a j = bit b j)"
proof -
  have "n \<le> common_bits a b \<longleftrightarrow>
    (\<forall>j < n. bit a (LENGTH('a) - 1 - j) = bit b (LENGTH('a) - 1 - j))"
    using common_bits_loop_ge [of 0 "LENGTH('a)" n a b] assms by (simp add: common_bits_def)
  also have "\<dots> \<longleftrightarrow> (\<forall>j. LENGTH('a) - n \<le> j \<and> j < LENGTH('a) \<longrightarrow> bit a j = bit b j)"
  proof
    assume l: "\<forall>j < n. bit a (LENGTH('a) - 1 - j) = bit b (LENGTH('a) - 1 - j)"
    show "\<forall>j. LENGTH('a) - n \<le> j \<and> j < LENGTH('a) \<longrightarrow> bit a j = bit b j"
    proof (intro allI impI)
      fix j assume "LENGTH('a) - n \<le> j \<and> j < LENGTH('a)"
      then have "LENGTH('a) - 1 - j < n" and "LENGTH('a) - 1 - (LENGTH('a) - 1 - j) = j"
        using assms by linarith+
      then show "bit a j = bit b j" using l by metis
    qed
  qed auto
  finally show ?thesis .
qed

lemma common_bits_comm: "common_bits a b = common_bits b (a :: 'a::len word)"
proof (rule order.antisym)
  show "common_bits a b \<le> common_bits b a" for a b :: "'a word"
    using common_bits_ge_iff [of "common_bits a b" a b] common_bits_ge_iff [of "common_bits a b" b a]
      common_bits_le [of a b] by (auto simp: eq_commute)
  then show "common_bits b a \<le> common_bits a b" .
qed

lemma common_bits_eq_iff:
  fixes a b :: "'a::len word"
  assumes "i < LENGTH('a)"
  shows "common_bits a b = i \<longleftrightarrow> bit a (LENGTH('a) - 1 - i) \<noteq> bit b (LENGTH('a) - 1 - i) \<and>
    (\<forall>j. LENGTH('a) - i \<le> j \<and> j < LENGTH('a) \<longrightarrow> bit a j = bit b j)"
proof -
  have "common_bits a b = i \<longleftrightarrow> i \<le> common_bits a b \<and> \<not> Suc i \<le> common_bits a b" by auto
  moreover have "(\<forall>j. LENGTH('a) - Suc i \<le> j \<and> j < LENGTH('a) \<longrightarrow> bit a j = bit b j) \<longleftrightarrow>
      bit a (LENGTH('a) - 1 - i) = bit b (LENGTH('a) - 1 - i) \<and>
      (\<forall>j. LENGTH('a) - i \<le> j \<and> j < LENGTH('a) \<longrightarrow> bit a j = bit b j)"
  proof -
    have "LENGTH('a) - Suc i \<le> j \<and> j < LENGTH('a) \<longleftrightarrow>
      j = LENGTH('a) - 1 - i \<or> LENGTH('a) - i \<le> j \<and> j < LENGTH('a)" for j
      using assms by linarith
    then show ?thesis by auto
  qed
  ultimately show ?thesis
    using assms common_bits_ge_iff [of i a b] common_bits_ge_iff [of "Suc i" a b] by auto
qed

lemma common_bits_full_iff: "common_bits a b = LENGTH('a) \<longleftrightarrow> a = b" for a b :: "'a::len word"
proof -
  have "common_bits a b = LENGTH('a) \<longleftrightarrow> LENGTH('a) \<le> common_bits a b"
    using common_bits_le [of a b] by auto
  also have "\<dots> \<longleftrightarrow> a = b"
    by (auto simp: common_bits_ge_iff bit_eq_iff dest: bit_imp_le_length)
  finally show ?thesis .
qed

lemma common_bits_self [simp]: "common_bits a a = LENGTH('a)" for a :: "'a::len word"
  by (simp add: common_bits_full_iff)

lemma common_bits_ultrametric:
  "min (common_bits a b) (common_bits b c) \<le> common_bits a (c :: 'a::len word)"
proof -
  let ?n = "min (common_bits a b) (common_bits b c)"
  have n: "?n \<le> LENGTH('a)" using common_bits_le [of a b] by simp
  have "?n \<le> common_bits a b" and "?n \<le> common_bits b c" by simp_all
  then show ?thesis using common_bits_ge_iff [OF n] by metis
qed

lemma nat_leading_bit:
  "bit (x :: nat) n \<and> (\<forall>j > n. \<not> bit x j) \<longleftrightarrow> 2 ^ n \<le> x \<and> x < 2 ^ Suc n"
proof
  assume l: "bit x n \<and> (\<forall>j > n. \<not> bit x j)"
  then have "take_bit (Suc n) x = x"
    by (intro bit_eqI) (auto simp: bit_take_bit_iff less_Suc_eq_le not_less[symmetric])
  then have "x = 2 ^ n + take_bit n x" using l by (simp add: take_bit_Suc_from_most)
  moreover have "take_bit n x < 2 ^ n" by simp
  ultimately show "2 ^ n \<le> x \<and> x < 2 ^ Suc n" unfolding power_Suc by linarith
next
  assume r: "2 ^ n \<le> x \<and> x < 2 ^ Suc n"
  then have t: "take_bit (Suc n) x = x" by (simp add: take_bit_nat_eq_self)
  then have high: "\<not> bit x j" if "n < j" for j
    using that bit_take_bit_iff [of "Suc n" x j] by simp
  have "bit x n"
  proof (rule ccontr)
    assume "\<not> bit x n"
    then have "x = take_bit n x" using t by (simp add: take_bit_Suc_from_most)
    then have "x < 2 ^ n" using take_bit_nat_less_exp [of n x] by simp
    with r show False by simp
  qed
  with high show "bit x n \<and> (\<forall>j > n. \<not> bit x j)" by blast
qed

lemma common_bits_xor_range:
  fixes a b :: "'a::len word"
  assumes "i < LENGTH('a)"
  shows "common_bits a b = i \<longleftrightarrow>
    2 ^ (LENGTH('a) - 1 - i) \<le> unat (a XOR b) \<and> unat (a XOR b) < 2 ^ (LENGTH('a) - i)"
proof -
  let ?n = "LENGTH('a) - 1 - i"
  have n: "LENGTH('a) - i = Suc ?n" using assms by simp
  have bits: "bit (unat (a XOR b)) j \<longleftrightarrow> bit a j \<noteq> bit b j" for j
    using bit_imp_le_length [of a j] bit_imp_le_length [of b j]
    by (auto simp: bit_unsigned_iff bit_xor_iff)
  have "common_bits a b = i \<longleftrightarrow> bit (unat (a XOR b)) ?n \<and> (\<forall>j > ?n. \<not> bit (unat (a XOR b)) j)"
    unfolding common_bits_eq_iff [OF assms] bits n
    using bit_imp_le_length [of a] bit_imp_le_length [of b] by (auto simp: Suc_le_eq)
  then show ?thesis by (simp only: nat_leading_bit n)
qed

section \<open>Digest and key texts\<close>

abbreviation byte_text :: "byte \<Rightarrow> string" where
  "byte_text b \<equiv> [hex_char (unat b div 16), hex_char (unat b mod 16)]"

lemma hex_char_code:
  "n < 16 \<Longrightarrow> (of_char (hex_char n) :: nat) = (if n < 10 then 48 + n else 87 + n)"
  by (simp add: hex_char_def)

lemma hex_char_facts:
  assumes "n < 16"
  shows "hex_value (hex_char n) = Some n" and "\<not> is_space (hex_char n)"
    and "hex_char n \<noteq> CHR ''-''" and "hex_char n \<noteq> CHR ''+''" and "hex_char n \<noteq> CHR 0x00"
proof -
  show v: "hex_value (hex_char n) = Some n"
    using assms by (auto simp: hex_value_def hex_char_code Let_def)
  show "\<not> is_space (hex_char n)"
    using assms by (auto simp: is_space_def hex_char_code)
  have "hex_value (CHR ''-'') = None" and "hex_value (CHR ''+'') = None"
    and "hex_value (CHR 0x00) = None" by (simp_all add: hex_value_def)
  with v show "hex_char n \<noteq> CHR ''-''" and "hex_char n \<noteq> CHR ''+''" and "hex_char n \<noteq> CHR 0x00"
    by (metis option.distinct(1))+
qed

lemma byte_halves:
  fixes b :: byte
  shows "unat b div 16 < 16" and "unat b mod 16 < 16"
proof -
  have "unat b < 256" using unsigned_less [of b] by simp
  then show "unat b div 16 < 16" by simp
qed simp

lemma read_hex_byte_text: "read_hex_byte (byte_text b @ r) = (b, r)"
proof -
  note h = hex_char_facts [OF byte_halves(1) [of b]]
    and l = hex_char_facts [OF byte_halves(2) [of b]]
  have "word_of_nat (16 * (unat b div 16) + unat b mod 16) = b" by simp
  with h l show ?thesis
    by (simp add: read_hex_byte_def stream_char_def strtoul16_byte_def)
qed

lemma read_digest_loop_text:
  "read_digest_loop (length d) (concat (map byte_text d) @ r) = d"
proof (induction d)
  case Nil
  show ?case by simp
next
  case (Cons b d)
  have "read_hex_byte (concat (map byte_text (b # d)) @ r) = (b, concat (map byte_text d) @ r)"
    using read_hex_byte_text [of b "concat (map byte_text d) @ r"] by simp
  with Cons show ?case by (simp del: concat.simps list.map)
qed

lemma print_digest_bytes: "length d = DIGEST_LENGTH \<Longrightarrow> print_digest d = concat (map byte_text d)"
  unfolding print_digest_def
  by (intro arg_cong [of _ _ concat] nth_equalityI) simp_all

lemma read_print_digest: "length d = DIGEST_LENGTH \<Longrightarrow> read_digest (print_digest d) = d"
  using read_digest_loop_text [of d "[]"] by (simp add: read_digest_def print_digest_bytes)

lemma length_read_digest [simp]: "length (read_digest s) = DIGEST_LENGTH"
proof -
  have "length (read_digest_loop n s) = n" for n s
    by (induction n arbitrary: s) (auto split: prod.split)
  then show ?thesis by (simp add: read_digest_def)
qed

text \<open>A canonical key text: 64 lower-case hexadecimal digits, what the printing functions produce.\<close>

definition canonical_key :: "key_text \<Rightarrow> bool" where
  "canonical_key s \<longleftrightarrow> print_digest (read_digest s) = s"

lemma canonical_print: "length d = DIGEST_LENGTH \<Longrightarrow> canonical_key (print_digest d)"
  by (simp add: canonical_key_def read_print_digest)

lemma canonical_key_iff: "canonical_key s \<longleftrightarrow> (\<exists>d. length d = DIGEST_LENGTH \<and> s = print_digest d)"
proof
  assume "canonical_key s"
  then show "\<exists>d. length d = DIGEST_LENGTH \<and> s = print_digest d"
    by (intro exI [of _ "read_digest s"]) (simp add: canonical_key_def)
qed (auto simp: canonical_print)

lemma bit_digest_to_bitset [key_simps]:
  "bit (digest_to_bitset d :: 'a::len word) i \<longleftrightarrow>
     i < LENGTH('a) \<and> bit (d ! ((i div 8) mod DIGEST_LENGTH)) (i mod 8)"
  by (simp add: digest_to_bitset_def key_simps)

lemma digest_to_bitset_inject:
  assumes "length d = DIGEST_LENGTH" and "length e = DIGEST_LENGTH"
    and eq: "digest_to_bitset d = (digest_to_bitset e :: key)"
  shows "d = e"
proof (rule nth_equalityI)
  show "length d = length e" using assms(1,2) by simp
next
  fix j assume j: "j < length d"
  show "d ! j = e ! j"
  proof (rule bit_word_eqI)
    fix i assume i: "i < LENGTH(8)"
    let ?n = "8 * j + i"
    have "?n < 256" and "?n div 8 = j" and "?n mod 8 = i" and "j mod DIGEST_LENGTH = j"
      using i j assms(1) by (auto simp: DIGEST_LENGTH_def)
    moreover have "bit (digest_to_bitset d :: key) ?n = bit (digest_to_bitset e :: key) ?n"
      using eq by simp
    ultimately show "bit (d ! j) i = bit (e ! j) i" by (simp add: key_simps)
  qed
qed

lemma string_to_key_inj: "canonical_key s \<Longrightarrow> canonical_key t \<Longrightarrow>
    string_to_key s = string_to_key t \<Longrightarrow> s = t"
  unfolding string_to_key_def canonical_key_def
  by (metis digest_to_bitset_inject length_read_digest)

subsection \<open>\<open>key_to_string\<close> and \<open>string_to_key\<close>\<close>

text \<open>
  \<open>key_to_string\<close> prints the most significant byte first, \<open>string_to_key\<close> reads the first byte
  as the least significant: together they reverse the bytes of a key.
\<close>

definition byte_reverse :: "key \<Rightarrow> key" where
  "byte_reverse b = bitset_of (\<lambda>i. bit b (8 * (31 - i div 8) + i mod 8))"

lemma bit_byte_reverse [key_simps]:
  "bit (byte_reverse b) i \<longleftrightarrow> i < 256 \<and> bit b (8 * (31 - i div 8) + i mod 8)"
  by (simp add: byte_reverse_def key_simps)

lemma byte_reverse_involution [simp]: "byte_reverse (byte_reverse b) = b"
proof (rule bit_word_eqI)
  fix i assume "i < LENGTH(256)"
  then have i: "i div 8 \<le> 31" by simp
  let ?j = "8 * (31 - i div 8) + i mod 8"
  have "?j div 8 = 31 - i div 8" and "?j mod 8 = i mod 8" and "?j < 256" using i by auto
  moreover have "8 * (31 - (31 - i div 8)) + i mod 8 = i" using i by simp
  ultimately show "bit (byte_reverse (byte_reverse b)) i = bit b i"
    using \<open>i < LENGTH(256)\<close> by (simp add: key_simps)
qed

lemma hex_char_0: "hex_char 0 = CHR ''0''"
  by (simp add: hex_char_def char_of_def bit_Suc_0_iff)

lemma stream_hex_byte:
  "v < 256 \<Longrightarrow> (if v < 16 then ''0'' else []) @ stream_hex v = [hex_char (v div 16), hex_char (v mod 16)]"
proof (cases "v < 16")
  case True
  then show ?thesis by (simp add: stream_hex.simps hex_char_0)
next
  case False
  assume "v < 256"
  then have "v div 16 < 16" by simp
  with False show ?thesis by (subst stream_hex.simps) (simp add: stream_hex.simps)
qed

lemma key_to_string_loop_text:
  "key_to_string_loop b n = concat (map (\<lambda>j. byte_text (key_byte b (8 * j))) (rev [0..<n]))"
proof (induction n)
  case 0
  show ?case by simp
next
  case (Suc n)
  have "unat (key_byte b (8 * n)) < 256" using unsigned_less [of "key_byte b (8 * n)"] by simp
  note stream_hex_byte [OF this]
  then show ?case
    by (simp add: Suc.IH Let_def append_assoc [symmetric] del: append_assoc)
qed

lemma key_to_string_print:
  "key_to_string b = print_digest (map (\<lambda>j. key_byte b (8 * (31 - j))) [0..<32])"
proof -
  have "rev [0..<32] = map (\<lambda>j. 31 - j) [0..<32::nat]" by (simp add: upt_rec)
  then show ?thesis
    by (simp add: key_to_string_def key_to_string_loop_text print_digest_bytes KEY_SIZE_def
        DIGEST_LENGTH_def comp_def)
qed

lemma length_key_to_string: "length (key_to_string b) = 64"
  by (simp add: key_to_string_print print_digest_def length_concat comp_def map_replicate_const sum_list_replicate
      DIGEST_LENGTH_def)

lemma canonical_key_to_string: "canonical_key (key_to_string b)"
  by (simp add: key_to_string_print canonical_print DIGEST_LENGTH_def)

lemma string_to_key_to_string: "string_to_key (key_to_string b) = byte_reverse b"
proof (rule bit_word_eqI)
  fix i assume "i < LENGTH(256)"
  then have i: "i div 8 < 32" by simp
  have "read_digest (key_to_string b) = map (\<lambda>j. key_byte b (8 * (31 - j))) [0..<32]"
    by (simp add: key_to_string_print read_print_digest DIGEST_LENGTH_def)
  then have "read_digest (key_to_string b) ! (i div 8) = key_byte b (8 * (31 - i div 8))"
    using i by simp
  with i \<open>i < LENGTH(256)\<close> show "bit (string_to_key (key_to_string b)) i = bit (byte_reverse b) i"
    by (simp add: string_to_key_def key_simps key_byte_def DIGEST_LENGTH_def)
qed

lemma digest_eq_iff:
  assumes "length a = DIGEST_LENGTH" and "length b = DIGEST_LENGTH"
  shows "digest_eq a b \<longleftrightarrow> a = b"
proof -
  have "digest_eq_loop a b n i \<longleftrightarrow> (\<forall>j. i \<le> j \<and> j < i + n \<longrightarrow> a ! j = b ! j)" for n i
  proof (induction n arbitrary: i)
    case (Suc n)
    have "i \<le> j \<and> j < i + Suc n \<longleftrightarrow> j = i \<or> Suc i \<le> j \<and> j < Suc i + n" for j by linarith
    with Suc show ?case by auto
  qed auto
  then show ?thesis using assms by (auto simp: digest_eq_def list_eq_iff_nth_eq)
qed

text \<open>Feeding a file in pieces gives the digest of its content, for a context that accumulates.\<close>

lemma digest_file_loop_eq:
  assumes "\<And>c x y. update (update c x) y = update c (x @ y)" and "\<And>c. update c [] = c"
  shows "digest_file_loop update c rest = update c rest"
proof (induction rest arbitrary: c rule: length_induct)
  case (1 rest)
  show ?case
  proof (cases "rest = []")
    case True
    then show ?thesis by (subst digest_file_loop.simps) (simp add: assms(2))
  next
    case False
    then have "length (drop 32768 rest) < length rest" by simp
    with 1 have "digest_file_loop update (update c (take 32768 rest)) (drop 32768 rest) =
        update (update c (take 32768 rest)) (drop 32768 rest)" by blast
    with False show ?thesis by (subst digest_file_loop.simps) (simp add: assms(1))
  qed
qed

section \<open>Properties\<close>

text \<open>
  Order of bitsets: the hand-written \<open>operator<\<close> and \<open>operator<=\<close> on bitsets are the numeric
  order, and so is the order of their texts, by which the maps keyed by \<open>to_string()\<close> iterate.
\<close>

lemma bitset_order_is_numeric:
  fixes a b :: "'a::len word"
  shows "bitset_less a b = (unat a < unat b) \<and> bitset_le a b = (unat a \<le> unat b) \<and>
    (bitset_to_string a < bitset_to_string b) = (unat a < unat b)"
  by (simp add: bitset_less_word bitset_le_word bitset_to_string_less_iff word_less_nat_alt
      word_le_nat_alt)

text \<open>
  C28 (bucket index): \<open>common_bits\<close> is the scale of the XOR distance: two keys share exactly
  \<open>i < 256\<close> leading bits when their XOR distance lies in \<open>[2^(255-i), 2^(256-i))\<close>, and 256 when
  they are equal; it is symmetric, and of three keys two pairs are at the least common prefix.
\<close>

theorem common_bits_is_xor_scale:
  fixes a b c :: key
  shows "(\<forall>i < KEY_SIZE. common_bits a b = i \<longleftrightarrow>
      2 ^ (KEY_SIZE - 1 - i) \<le> unat (a XOR b) \<and> unat (a XOR b) < 2 ^ (KEY_SIZE - i)) \<and>
    (common_bits a b = KEY_SIZE) = (a = b) \<and>
    common_bits a b = common_bits b a \<and>
    min (common_bits a b) (common_bits b c) \<le> common_bits a c"
  using common_bits_xor_range [of _ a b] common_bits_full_iff [of a b] common_bits_comm [of a b]
    common_bits_ultrametric [of a b c] by (simp add: KEY_SIZE_def)

theorem common_bits_is_xor_scale_witness:
  "(common_bits (0 :: key) (0 :: key) = 3) =
     (2 ^ (KEY_SIZE - 1 - 3) \<le> unat ((0 :: key) XOR 0) \<and> unat ((0 :: key) XOR 0) < 2 ^ (KEY_SIZE - 3))"
  using common_bits_is_xor_scale [of "0 :: key" "0 :: key" 0] by (simp add: KEY_SIZE_def)

text \<open>
  C29 (digest texts): reading the printed text of a digest gives the digest back; the digests the code
  compares with \<open>operator==\<close> are equal as byte sequences, and distinct canonical key texts (what the
  code prints) denote distinct keys.
\<close>

theorem digest_text_roundtrip:
  assumes "length d = DIGEST_LENGTH" and "length e = DIGEST_LENGTH"
  shows "read_digest (print_digest d) = d \<and> length (print_digest d) = 2 * DIGEST_LENGTH \<and>
    digest_eq d e = (d = e) \<and> digest_neq d e = (d \<noteq> e) \<and>
    (string_to_key (print_digest d) = string_to_key (print_digest e)) = (d = e)"
proof -
  have "(string_to_key (print_digest d) = string_to_key (print_digest e)) = (d = e)"
    using string_to_key_inj [OF canonical_print canonical_print, OF assms]
      read_print_digest assms by metis
  moreover have "length (print_digest d) = 2 * DIGEST_LENGTH"
    using assms by (simp add: print_digest_def length_concat comp_def sum_list_triv)
  ultimately show ?thesis using assms by (simp add: read_print_digest digest_eq_iff digest_neq_def)
qed

theorem digest_text_roundtrip_witness:
  "read_digest (print_digest (replicate 32 7)) = replicate 32 7"
  using digest_text_roundtrip [of "replicate 32 7" "replicate 32 7"] by (simp add: DIGEST_LENGTH_def)

text \<open>
  Key texts reverse the bytes: \<open>string_to_key\<close> does not invert \<open>key_to_string\<close>: together they
  reverse the order of the 32 bytes of a key, so they agree only on keys equal to their reversal;
  twice around is the identity, and the text is a canonical one.
\<close>

lemma key_text_reverses_bytes:
  "(\<forall>i < 256. bit (string_to_key (key_to_string b)) i = bit b (8 * (31 - i div 8) + i mod 8)) \<and>
   string_to_key (key_to_string (string_to_key (key_to_string b))) = b \<and>
   canonical_key (key_to_string b)"
  by (simp add: string_to_key_to_string key_simps canonical_key_to_string)

lemma key_text_reverses_bytes_example:
  "bit (string_to_key (key_to_string 1)) 248 \<and> \<not> bit (1 :: key) 248 \<and>
   string_to_key (key_to_string 1) \<noteq> (1 :: key)"
proof -
  have "bit (string_to_key (key_to_string 1)) 248 = bit (1 :: key) 0"
    using key_text_reverses_bytes [of 1] by auto
  then have "bit (string_to_key (key_to_string 1)) 248" by simp
  moreover have "\<not> bit (1 :: key) 248" by (simp add: bit_1_iff)
  ultimately show ?thesis by metis
qed

text \<open>
  Digest of a file: for a hash context that absorbs its input piece by piece, as the digest
  functions of OpenSSL document, \<open>digest_file\<close> of a readable file is the digest of its whole content,
  whatever its size; a file that cannot be opened gives -534 and no digest.
\<close>

lemma digest_file_is_digest_sum:
  assumes "\<And>c x y. update (update c x) y = update c (x @ y)" and "\<And>c. update c [] = c"
  shows "digest_file init update final (Some bytes) = (0, Some (digest_sum init update final bytes)) \<and>
    digest_file init update final None = (-534, None)"
  by (simp add: digest_file_def digest_sum_def digest_file_loop_eq [OF assms])

lemma digest_file_is_digest_sum_witness:
  "digest_file [] (@) (\<lambda>c. take 32 c) (Some [1, 2, 3]) = (0, Some [1, 2, 3])"
proof -
  have "digest_file [] (@) (\<lambda>c. take 32 c) (Some [1, 2, 3]) =
      (0, Some (digest_sum [] (@) (\<lambda>c. take 32 c) [1, 2, 3 :: byte]))"
    by (rule conjunct1 [OF digest_file_is_digest_sum]) simp_all
  then show ?thesis by (simp add: digest_sum_def)
qed

end
