(* ===== verification/Messages.thy ===== *)
theory Messages
  imports Keys "HOL-Library.Signed_Division"
begin

text \<open>
  The data the nodes exchange: the messages of \<open>Sources/miniDHT_proto.proto\<close> with the comparison
  and conversion functions of \<open>Sources/miniDHT_const.cpp\<close>.  An optional protobuf field is an
  \<open>option\<close>; its getter returns the default of the field when it is not set.
\<close>

section \<open>Protocol buffers\<close>

datatype endpoint_proto = Endpoint (address: string) (port: string)

record contact_proto =
  contact_key :: key_text
  contact_ep :: endpoint_proto
  contact_time :: "64 word option"

record data_item_proto =
  ttl :: "64 word"
  time :: "64 word"
  title :: string
  data :: string

datatype message_type =
    NONE | SEND_PING | REPLY_PING | SEND_STORE | REPLY_STORE
  | SEND_FIND_NODE | REPLY_FIND_NODE | SEND_FIND_VALUE | REPLY_FIND_VALUE

record message_proto =
  type_of :: message_type
  from_id :: key_text
  token_of :: token
  to_id_opt :: "key_text option"
  query_id_opt :: "key_text option"
  check_val_opt :: "64 word option"
  data_item_opt :: "data_item_proto option"
  hint_opt :: "string option"
  contact_list :: "contact_proto list"
  data_item_list :: "data_item_proto list"

definition default_item :: data_item_proto where
  "default_item = \<lparr>ttl = 0, time = 0, title = [], data = []\<rparr>"

definition to_id :: "message_proto \<Rightarrow> key_text" where
  "to_id m = (case to_id_opt m of None \<Rightarrow> [] | Some k \<Rightarrow> k)"

definition check_val :: "message_proto \<Rightarrow> 64 word" where
  "check_val m = (case check_val_opt m of None \<Rightarrow> 0 | Some v \<Rightarrow> v)"

definition data_item :: "message_proto \<Rightarrow> data_item_proto" where
  "data_item m = (case data_item_opt m of None \<Rightarrow> default_item | Some d \<Rightarrow> d)"

definition hint_of :: "message_proto \<Rightarrow> string" where
  "hint_of m = (case hint_opt m of None \<Rightarrow> [] | Some h \<Rightarrow> h)"

definition has_time :: "contact_proto \<Rightarrow> bool" where
  "has_time c = (contact_time c \<noteq> None)"

definition get_time :: "contact_proto \<Rightarrow> 64 word" where
  "get_time c = (case contact_time c of None \<Rightarrow> 0 | Some t \<Rightarrow> t)"

text \<open>A message as the sending functions start it: a type, the sender, a token.\<close>

definition new_message :: "message_type \<Rightarrow> key_text \<Rightarrow> token \<Rightarrow> message_proto" where
  "new_message ty from t =
     \<lparr>type_of = ty, from_id = from, token_of = t, to_id_opt = None, query_id_opt = None,
      check_val_opt = None, data_item_opt = None, hint_opt = None,
      contact_list = [], data_item_list = []\<rparr>"

section \<open>Comparison\<close>

text \<open>\<open>operator==\<close> on endpoints asserts that no field of either side is empty.\<close>

definition endpoint_eq :: "endpoint_proto \<Rightarrow> endpoint_proto \<Rightarrow> bool outcome" where
  "endpoint_eq e1 e2 =
     (if address e1 = [] \<or> address e2 = [] \<or> port e1 = [] \<or> port e2 = []
      then Abort Assertion_failed
      else if address e1 \<noteq> address e2 then Ok False
      else if port e1 \<noteq> port e2 then Ok False
      else Ok True)"

definition endpoint_neq :: "endpoint_proto \<Rightarrow> endpoint_proto \<Rightarrow> bool outcome" where
  "endpoint_neq e1 e2 = map_outcome Not (endpoint_eq e1 e2)"

definition contact_eq :: "contact_proto \<Rightarrow> contact_proto \<Rightarrow> bool outcome" where
  "contact_eq c1 c2 =
     (if contact_key c1 \<noteq> contact_key c2 then Ok False
      else case endpoint_neq (contact_ep c1) (contact_ep c2) of
        Ok True \<Rightarrow> Ok False
      | Ok False \<Rightarrow>
          (if has_time c1 \<noteq> has_time c2 then Ok False
           else if has_time c1 \<and> has_time c2 \<and> get_time c1 \<noteq> get_time c2 then Ok False
           else Ok True)
      | r \<Rightarrow> r)"

definition data_item_eq :: "data_item_proto \<Rightarrow> data_item_proto \<Rightarrow> bool" where
  "data_item_eq l r = (title l = title r \<and> data l = data r)"

definition endpoint_less :: "endpoint_proto \<Rightarrow> endpoint_proto \<Rightarrow> bool" where
  "endpoint_less e1 e2 =
     (if address e1 \<noteq> address e2 then address e1 < address e2 else port e1 < port e2)"

text \<open>
  \<open>operator<\<close> is the order of \<open>std::map<endpoint_proto, ...>\<close>: the instance makes it the order
  of the type, so that the lemmas on ordered maps apply to the session table.
\<close>

instantiation endpoint_proto :: linorder
begin

definition less_endpoint_proto_def:
  "(e1 :: endpoint_proto) < e2 \<longleftrightarrow> endpoint_less e1 e2"

definition less_eq_endpoint_proto_def:
  "(e1 :: endpoint_proto) \<le> e2 \<longleftrightarrow> endpoint_less e1 e2 \<or> e1 = e2"

instance
proof
  fix x y z :: endpoint_proto
  show "x < y \<longleftrightarrow> x \<le> y \<and> \<not> y \<le> x"
    by (cases x; cases y)
      (auto simp: less_endpoint_proto_def less_eq_endpoint_proto_def endpoint_less_def)
  show "x \<le> x" by (simp add: less_eq_endpoint_proto_def)
  show "x \<le> y \<Longrightarrow> y \<le> z \<Longrightarrow> x \<le> z"
    by (cases x; cases y; cases z)
      (auto simp: less_eq_endpoint_proto_def endpoint_less_def split: if_splits)
  show "x \<le> y \<Longrightarrow> y \<le> x \<Longrightarrow> x = y"
    by (cases x; cases y)
      (auto simp: less_eq_endpoint_proto_def endpoint_less_def split: if_splits)
  show "x \<le> y \<or> y \<le> x"
    by (cases x; cases y) (auto simp: less_eq_endpoint_proto_def endpoint_less_def)
qed

end

section \<open>Endpoints as text\<close>

text \<open>An address and port of the network library, with the text \<open>address().to_string()\<close> gives.\<close>

record tcp_endpoint =
  ip_text :: string
  ip_port :: "16 word"

text \<open>Decimal output of an unsigned value.\<close>

fun show_nat :: "nat \<Rightarrow> string" where
  "show_nat n =
     (if n < 10 then [char_of (48 + n)] else show_nat (n div 10) @ [char_of (48 + n mod 10)])"

declare show_nat.simps [simp del]

definition find_char :: "char \<Rightarrow> string \<Rightarrow> nat option" where
  "find_char c s =
     (let n = length (takeWhile (\<lambda>x. x \<noteq> c) s) in if n < length s then Some n else None)"

definition find_last_char :: "char \<Rightarrow> string \<Rightarrow> nat option" where
  "find_last_char c s =
     (case find_char c (rev s) of None \<Rightarrow> None | Some n \<Rightarrow> Some (length s - 1 - n))"

definition substr :: "string \<Rightarrow> nat \<Rightarrow> nat \<Rightarrow> string" where
  "substr s pos n = take n (drop pos s)"

definition string_to_endpoint_pair :: "string \<Rightarrow> (string \<times> string) outcome" where
  "string_to_endpoint_pair str =
     (case find_last_char CHR '':'' str of
        None \<Rightarrow> Throw (Std_exception ''malformed IP!'')
      | Some sep \<Rightarrow>
          if str ! 0 = CHR ''['' then
            (case find_char CHR '']'' str of
               None \<Rightarrow> Throw (Std_exception ''malformed IP!'')
             | Some pos \<Rightarrow> Ok (substr str 1 pos, substr str (sep + 1) (length str - 1)))
          else Ok (substr str 0 sep, substr str (sep + 1) (length str - 1)))"

definition endpoint_to_string :: "endpoint_proto \<Rightarrow> string" where
  "endpoint_to_string ep = address ep @ '':'' @ port ep"

definition tcp_endpoint_to_string :: "tcp_endpoint \<Rightarrow> string" where
  "tcp_endpoint_to_string ep = ip_text ep @ '':'' @ show_nat (unat (ip_port ep))"

definition create_endpoint_proto :: "string \<Rightarrow> string \<Rightarrow> endpoint_proto" where
  "create_endpoint_proto a p = Endpoint a p"

definition create_endpoint_proto_port :: "string \<Rightarrow> 16 word \<Rightarrow> endpoint_proto" where
  "create_endpoint_proto_port a p = create_endpoint_proto a (show_nat (unat p))"

definition endpoint_to_proto :: "tcp_endpoint \<Rightarrow> endpoint_proto outcome" where
  "endpoint_to_proto ep =
     (let epp = Endpoint (ip_text ep) (show_nat (unat (ip_port ep)))
      in if address epp = [] \<or> port epp = [] then Abort Assertion_failed else Ok epp)"

text \<open>
  Times are those of \<open>boost::posix_time\<close>: a \<open>ptime\<close> and a \<open>time_duration\<close> count microseconds in a
  64-bit integer, here from 1970 on, and their arithmetic wraps around at that width (\<open>ticks\<close>).  A reading
  of the clock is a date of the years 1400 to 9999, so that the difference of two readings does not wrap; what
  comes from a record or a message can be any \<open>long long\<close>.  The one count that stands for infinity,
  \<open>- 2 ^ 63\<close>, is not told apart from a time.  \<open>to_time_t\<close> is the number of seconds, rounded towards zero.
\<close>

definition ticks :: "int \<Rightarrow> int" where
  "ticks t = sint (word_of_int t :: 64 word)"

definition to_time_t :: "int \<Rightarrow> int" where
  "to_time_t t = t sdiv 1000000"

definition from_time_t :: "int \<Rightarrow> int" where
  "from_time_t s = ticks (s * 1000000)"

definition minutes :: "int \<Rightarrow> int" where "minutes n = ticks (n * 60000000)"
definition seconds :: "int \<Rightarrow> int" where "seconds n = ticks (n * 1000000)"

text \<open>The difference of two times.\<close>

definition time_diff :: "int \<Rightarrow> int \<Rightarrow> int" where
  "time_diff a b = ticks (a - b)"

section \<open>Lemmas\<close>

named_theorems message_simps "getters and comparisons of the messages"

definition good_ep :: "endpoint_proto \<Rightarrow> bool" where
  "good_ep e \<longleftrightarrow> address e \<noteq> [] \<and> port e \<noteq> []"

lemma endpoint_eq_good [message_simps]:
  "good_ep e1 \<Longrightarrow> good_ep e2 \<Longrightarrow> endpoint_eq e1 e2 = Ok (e1 = e2)"
  by (cases e1; cases e2) (auto simp: endpoint_eq_def good_ep_def)

lemma endpoint_neq_good [message_simps]:
  "good_ep e1 \<Longrightarrow> good_ep e2 \<Longrightarrow> endpoint_neq e1 e2 = Ok (e1 \<noteq> e2)"
  by (simp add: endpoint_neq_def message_simps)

lemma endpoint_eq_bad: "\<not> good_ep e1 \<or> \<not> good_ep e2 \<Longrightarrow> endpoint_eq e1 e2 = Abort Assertion_failed"
  by (auto simp: endpoint_eq_def good_ep_def)

lemma contact_eq_good [message_simps]:
  assumes "good_ep (contact_ep c1)" and "good_ep (contact_ep c2)"
  shows "contact_eq c1 c2 = Ok (c1 = c2)"
  using assms
  by (cases c1; cases c2)
    (auto simp: contact_eq_def message_simps has_time_def get_time_def split: bool.split)

lemma show_nat_not_Nil [simp]: "show_nat n \<noteq> []"
  by (subst show_nat.simps) simp

lemma show_nat_digits: "c \<in> set (show_nat n) \<Longrightarrow> 48 \<le> (of_char c :: nat) \<and> (of_char c :: nat) \<le> 57"
proof (induction n rule: show_nat.induct)
  case (1 n)
  show ?case
  proof (cases "n < 10")
    case True
    with 1 show ?thesis by (auto simp: show_nat.simps)
  next
    case False
    then have "show_nat n = show_nat (n div 10) @ [char_of (48 + n mod 10)]"
      by (subst show_nat.simps) simp
    with 1 False show ?thesis by auto
  qed
qed

lemma endpoint_to_proto_good [message_simps]:
  "ip_text ep \<noteq> [] \<Longrightarrow>
     endpoint_to_proto ep = Ok (Endpoint (ip_text ep) (show_nat (unat (ip_port ep))))"
  by (simp add: endpoint_to_proto_def)

lemma endpoint_to_proto_Ok: "endpoint_to_proto ep = Ok e \<Longrightarrow> good_ep e"
  by (auto simp: endpoint_to_proto_def good_ep_def Let_def split: if_splits)

lemma takeWhile_until: "c \<notin> set a \<Longrightarrow> takeWhile (\<lambda>x. x \<noteq> c) (a @ c # p) = a"
  by (induction a) auto

lemma find_last_char_append:
  "c \<notin> set p \<Longrightarrow> find_last_char c (a @ c # p) = Some (length a)"
  by (simp add: find_last_char_def find_char_def takeWhile_until Let_def)

lemma find_char_append: "c \<notin> set a \<Longrightarrow> find_char c (a @ c # p) = Some (length a)"
  by (simp add: find_char_def takeWhile_until Let_def)

lemma ticks_signed: "ticks t = signed_take_bit 63 t"
  unfolding ticks_def sint_sbintrunc' by simp

lemma ticks_id: "- (2 ^ 63) \<le> t \<Longrightarrow> t < 2 ^ 63 \<Longrightarrow> ticks t = t"
  by (simp add: ticks_signed signed_take_bit_int_eq_self)

lemma ticks_small: "\<bar>t\<bar> < 2 ^ 63 \<Longrightarrow> ticks t = t"
  by (rule ticks_id) auto

lemma minutes_id: "- 100000 \<le> n \<Longrightarrow> n \<le> 100000 \<Longrightarrow> minutes n = n * 60000000"
  by (simp add: minutes_def ticks_id)

text \<open>A difference can be taken before or after its operands wrap around.\<close>

lemma time_diff_from: "time_diff now (from_time_t t) = ticks (now - t * 1000000)"
proof -
  have "word_of_int (ticks u) = (word_of_int u :: 64 word)" for u by (simp add: ticks_def)
  then show ?thesis by (simp add: time_diff_def from_time_t_def ticks_def [of "now - _"])
qed

lemma to_time_t_nonneg: "0 \<le> t \<Longrightarrow> to_time_t t = t div 1000000"
  by (cases "t = 0") (simp_all add: to_time_t_def signed_divide_int_def)

section \<open>Reading decimal numbers\<close>

text \<open>
  \<open>std::atoi\<close> on a C string: white space, a sign, then digits up to the first character that is
  none.  The result is undefined where it is not an \<open>int\<close>.
\<close>

definition digit_value :: "char \<Rightarrow> nat option" where
  "digit_value c =
     (let n = (of_char c :: nat) in if 48 \<le> n \<and> n \<le> 57 then Some (n - 48) else None)"

fun decimal_digits :: "nat \<Rightarrow> string \<Rightarrow> nat" where
  "decimal_digits acc [] = acc"
| "decimal_digits acc (c # cs) =
     (case digit_value c of None \<Rightarrow> acc | Some v \<Rightarrow> decimal_digits (10 * acc + v) cs)"

definition decimal_value :: "string \<Rightarrow> int" where
  "decimal_value s =
     (case dropWhile is_space s of
        [] \<Rightarrow> 0
      | c # cs \<Rightarrow>
          if c = CHR ''-'' then - int (decimal_digits 0 cs)
          else if c = CHR ''+'' then int (decimal_digits 0 cs)
          else int (decimal_digits 0 (c # cs)))"

definition atoi :: "string \<Rightarrow> int outcome" where
  "atoi s =
     (let v = decimal_value s
      in if - (2 ^ 31) \<le> v \<and> v < 2 ^ 31 then Ok v else Abort Undefined_behaviour)"

text \<open>Decimal output of a signed value.\<close>

definition show_int :: "int \<Rightarrow> string" where
  "show_int i = (if i < 0 then CHR ''-'' # show_nat (nat (- i)) else show_nat (nat i))"

definition digit_char :: "char \<Rightarrow> bool" where
  "digit_char c \<longleftrightarrow> 48 \<le> (of_char c :: nat) \<and> (of_char c :: nat) \<le> 57"

lemma digit_value_Some: "n < 10 \<Longrightarrow> digit_value (char_of (48 + n)) = Some n"
  by (simp add: digit_value_def Let_def)

lemma decimal_digits_append_digit:
  assumes "\<And>c. c \<in> set s \<Longrightarrow> digit_char c" and "n < 10"
  shows "decimal_digits acc (s @ [char_of (48 + n)]) = 10 * decimal_digits acc s + n"
  using assms(1)
proof (induction s arbitrary: acc)
  case Nil
  show ?case using digit_value_Some [OF assms(2)] by simp
next
  case (Cons c s)
  then have "\<exists>v. digit_value c = Some v" by (auto simp: digit_value_def digit_char_def Let_def)
  with Cons show ?case by auto
qed

lemma show_nat_digit_chars: "c \<in> set (show_nat n) \<Longrightarrow> digit_char c"
  using show_nat_digits [of c n] by (simp add: digit_char_def)

lemma decimal_digits_show_nat: "decimal_digits 0 (show_nat n) = n"
proof (induction n rule: show_nat.induct)
  case (1 n)
  show ?case
  proof (cases "n < 10")
    case True
    then show ?thesis using digit_value_Some by (subst show_nat.simps) simp
  next
    case False
    have "show_nat n = show_nat (n div 10) @ [char_of (48 + n mod 10)]"
      using False by (subst show_nat.simps) simp
    moreover have "decimal_digits 0 (show_nat (n div 10) @ [char_of (48 + n mod 10)])
        = 10 * decimal_digits 0 (show_nat (n div 10)) + n mod 10"
      by (rule decimal_digits_append_digit) (auto intro: show_nat_digit_chars)
    ultimately show ?thesis using 1 False by simp
  qed
qed

lemma dropWhile_space_digits:
  assumes "\<And>c. c \<in> set s \<Longrightarrow> digit_char c" and "s \<noteq> []"
  shows "dropWhile is_space (replicate k CHR '' '' @ s) = s"
proof -
  have sp: "is_space CHR '' ''" by (simp add: is_space_def)
  obtain c cs where s: "s = c # cs" using assms(2) by (cases s) auto
  then have "\<not> is_space c" using assms(1) [of c] by (auto simp: digit_char_def is_space_def)
  with s have "dropWhile is_space s = s" by simp
  then show ?thesis using sp by (induction k) auto
qed

lemma decimal_value_show_nat: "decimal_value (replicate k CHR '' '' @ show_nat n) = int n"
proof -
  obtain c cs where s: "show_nat n = c # cs" by (cases "show_nat n") auto
  then have "digit_char c" using show_nat_digit_chars [of c n] by simp
  then have "c \<noteq> CHR ''-''" and "c \<noteq> CHR ''+''" by (auto simp: digit_char_def)
  moreover have "dropWhile is_space (replicate k CHR '' '' @ show_nat n) = show_nat n"
    by (rule dropWhile_space_digits) (auto intro: show_nat_digit_chars)
  moreover have "decimal_digits 0 (c # cs) = n" using decimal_digits_show_nat [of n] s by simp
  ultimately show ?thesis using s by (simp add: decimal_value_def del: decimal_digits.simps)
qed

lemma atoi_show_nat:
  "n < 2 ^ 31 \<Longrightarrow> atoi (replicate k CHR '' '' @ show_nat n) = Ok (int n)"
  by (simp add: atoi_def decimal_value_show_nat)

lemma length_show_nat: "n < 10 ^ Suc k \<Longrightarrow> length (show_nat n) \<le> Suc k"
proof (induction k arbitrary: n)
  case 0
  then show ?case by (subst show_nat.simps) simp
next
  case (Suc k)
  show ?case
  proof (cases "n < 10")
    case True
    then show ?thesis by (subst show_nat.simps) simp
  next
    case False
    have "n div 10 < 10 ^ Suc k" using Suc.prems by simp
    with Suc.IH False show ?thesis by (subst show_nat.simps) simp
  qed
qed

lemma endpoint_text_read:
  assumes "CHR '':'' \<notin> set p" and "a \<noteq> []" and "hd a \<noteq> CHR ''[''"
  shows "string_to_endpoint_pair (endpoint_to_string (Endpoint a p)) = Ok (a, p)"
  using assms(2,3) find_last_char_append [OF assms(1), of a]
  by (cases a) (simp_all add: string_to_endpoint_pair_def endpoint_to_string_def substr_def)

section \<open>Properties\<close>

text \<open>
  C31 (endpoint texts): an endpoint whose port has no colon and whose address does not start with a
  bracket is read back from its text; a bracketed address is read back with its closing bracket (the
  code takes as many characters as the position of the bracket), and a text without a colon throws.
\<close>

theorem endpoint_text_roundtrip:
  assumes "CHR '':'' \<notin> set p"
  shows "(a \<noteq> [] \<and> hd a \<noteq> CHR ''['' \<longrightarrow> string_to_endpoint_pair (endpoint_to_string (Endpoint a p)) = Ok (a, p)) \<and>
    (CHR '']'' \<notin> set a \<longrightarrow>
      string_to_endpoint_pair (endpoint_to_string (Endpoint (''['' @ a @ '']'') p)) = Ok (a @ '']'', p)) \<and>
    string_to_endpoint_pair p = Throw (Std_exception ''malformed IP!'')"
proof -
  have last: "find_last_char CHR '':'' (b @ CHR '':'' # p) = Some (length b)" for b
    by (rule find_last_char_append [OF assms])
  have one: "string_to_endpoint_pair (endpoint_to_string (Endpoint a p)) = Ok (a, p)"
    if "a \<noteq> []" and "hd a \<noteq> CHR ''[''"
    by (rule endpoint_text_read [OF assms that])
  have two: "string_to_endpoint_pair (endpoint_to_string (Endpoint (''['' @ a @ '']'') p)) = Ok (a @ '']'', p)"
    if "CHR '']'' \<notin> set a"
  proof -
    have "find_char CHR '']'' ((CHR ''['' # a) @ CHR '']'' # (CHR '':'' # p)) = Some (length (CHR ''['' # a))"
      by (rule find_char_append) (use that in simp)
    then show ?thesis
      using last [of "CHR ''['' # a @ '']''"]
      by (simp add: string_to_endpoint_pair_def endpoint_to_string_def substr_def)
  qed
  have len: "length (takeWhile (\<lambda>x. x \<noteq> CHR '':'') (rev p)) = length p"
    using assms by (subst takeWhile_eq_all_conv [THEN iffD2]) auto
  have three: "find_last_char CHR '':'' p = None"
    unfolding find_last_char_def find_char_def Let_def len by simp
  show ?thesis using one two by (simp add: string_to_endpoint_pair_def three)
qed

theorem endpoint_text_roundtrip_witness:
  "string_to_endpoint_pair (endpoint_to_string (Endpoint ''10.0.0.1'' ''4242'')) = Ok (''10.0.0.1'', ''4242'') \<and>
   string_to_endpoint_pair (endpoint_to_string (Endpoint ''[::1]'' ''4242'')) = Ok (''::1]'', ''4242'')"
  using endpoint_text_roundtrip [of "''4242''" "''10.0.0.1''"]
    endpoint_text_roundtrip [of "''4242''" "''::1''"] by simp

text \<open>
  Contact comparison: on contacts whose endpoints are complete, \<open>operator==\<close> is equality of
  contacts, the time included, and never fails its assertions; the order of endpoints is a linear
  order whose equivalence is equality; an incomplete endpoint on either side fails the assertions
  as soon as the keys are equal.
\<close>

lemma contact_comparison:
  assumes "good_ep (contact_ep c)" and "good_ep (contact_ep d)"
  shows "contact_eq c d = Ok (c = d) \<and> endpoint_neq (contact_ep c) (contact_ep d) = Ok (contact_ep c \<noteq> contact_ep d) \<and>
    (\<not> endpoint_less (contact_ep c) (contact_ep d) \<and> \<not> endpoint_less (contact_ep d) (contact_ep c)) =
      (contact_ep c = contact_ep d) \<and>
    (contact_key c = contact_key d \<longrightarrow>
      contact_eq c (d\<lparr>contact_ep := Endpoint [] p\<rparr>) = Abort Assertion_failed)"
proof -
  have "(\<not> endpoint_less (contact_ep c) (contact_ep d) \<and> \<not> endpoint_less (contact_ep d) (contact_ep c)) =
      (contact_ep c = contact_ep d)"
    unfolding less_endpoint_proto_def [symmetric] by auto
  moreover have "contact_key c = contact_key d \<longrightarrow>
      contact_eq c (d\<lparr>contact_ep := Endpoint [] p\<rparr>) = Abort Assertion_failed"
    by (simp add: contact_eq_def endpoint_neq_def endpoint_eq_def)
  ultimately show ?thesis using assms by (simp add: message_simps)
qed

lemma contact_comparison_witness:
  "contact_eq \<lparr>contact_key = ''g'', contact_ep = Endpoint ''h'' ''1'', contact_time = None\<rparr>
     \<lparr>contact_key = ''g'', contact_ep = Endpoint ''h'' ''1'', contact_time = Some 3\<rparr> = Ok False"
  by (subst conjunct1 [OF contact_comparison]) (simp_all add: good_ep_def)

end
