(* ===== verification/Bucket.thy ===== *)
theory Bucket
  imports Messages
begin

text \<open>
  The contact table of a node: class \<open>bucket\<close> of \<open>Sources/miniDHT_bucket.h\<close> and
  \<open>Sources/miniDHT_bucket.cpp\<close>, a \<open>std::multimap\<close> from the number of leading key bits a contact
  shares with the node to the contact.  An iterator is a position in the list of entries and
  \<open>end()\<close> is its length; a step beyond \<open>end()\<close> and a read at \<open>end()\<close> are undefined behaviour.
\<close>

section \<open>State and operations\<close>

record bucket =
  entries :: "(nat \<times> contact_proto) list"
  local_key :: key_text
  map_proximity :: "(string \<times> key_text) list"
  changed :: bool
  now_ :: "int option"

definition new_bucket :: "key_text \<Rightarrow> bucket" where
  "new_bucket k = \<lparr>entries = [], local_key = k, map_proximity = [], changed = True, now_ = None\<rparr>"

definition bucket_common :: "bucket \<Rightarrow> key_text \<Rightarrow> nat" where
  "bucket_common b k = common_bits (string_to_key (local_key b)) (string_to_key k)"

text \<open>The loop over the \<open>count\<close> entries from \<open>find\<close> on; \<open>n\<close> of them are left.\<close>

fun scan_key :: "(nat \<times> contact_proto) list \<Rightarrow> key_text \<Rightarrow> nat \<Rightarrow> nat \<Rightarrow> nat option" where
  "scan_key m k 0 ite = None"
| "scan_key m k (Suc n) ite =
     (if contact_key (snd (m ! ite)) = k then Some ite else scan_key m k n (Suc ite))"

definition find_key :: "bucket \<Rightarrow> key_text \<Rightarrow> nat" where
  "find_key b k =
     (let common = bucket_common b k
      in case scan_key (entries b) k (mm_count common (entries b)) (mm_find common (entries b)) of
           Some ite \<Rightarrow> ite
         | None \<Rightarrow> length (entries b))"

definition bucket_at :: "bucket \<Rightarrow> key_text \<Rightarrow> endpoint_proto outcome" where
  "bucket_at b k =
     (let common = bucket_common b k
      in case scan_key (entries b) k (mm_count common (entries b)) (mm_find common (entries b)) of
           Some ite \<Rightarrow> Ok (contact_ep (snd (entries b ! ite)))
         | None \<Rightarrow> Throw (String_exception ''unknown key''))"

text \<open>
  \<open>remove_contact\<close>: after an erasure the iterator is set to \<open>begin()\<close> and \<open>continue\<close> runs the
  \<open>++ite\<close> of the loop header, so the loop goes on at position 1; on an emptied table that
  increments \<open>end()\<close>.
\<close>

function remove_loop ::
  "endpoint_proto \<Rightarrow> nat \<Rightarrow> (nat \<times> contact_proto) list \<Rightarrow> unit outcome \<times> (nat \<times> contact_proto) list"
where
  "remove_loop ep i m =
     (if i < length m then
        (case endpoint_eq (contact_ep (snd (m ! i))) ep of
           Ok eq \<Rightarrow>
             (if eq then
                (if erase_at i m = [] then (Abort Undefined_behaviour, [])
                 else remove_loop ep 1 (erase_at i m))
              else remove_loop ep (Suc i) m)
         | Throw e \<Rightarrow> (Throw e, m)
         | Abort f \<Rightarrow> (Abort f, m))
      else (Ok (), m))"
  by pat_completeness auto
termination
  by (relation "measures [\<lambda>(ep, i, m). length m, \<lambda>(ep, i, m). length m - i]")
    (auto simp: length_erase_at)

declare remove_loop.simps [simp del]

definition remove_contact :: "endpoint_proto \<Rightarrow> (bucket, unit) cpp" where
  "remove_contact ep =
     (\<lambda>b. case remove_loop ep 0 (entries b) of (r, m) \<Rightarrow> (r, b\<lparr>entries := m\<rparr>))"

text \<open>
  \<open>map_time_ite[ite->second.time()] = ite++\<close>: C++17 evaluates the right side first, so the time is
  read at the next position; earlier standards leave the order to the compiler.  The build fixes no
  standard, so the order is the parameter \<open>rhs_first\<close>.
\<close>

fun map_time_loop ::
  "bool \<Rightarrow> (nat \<times> contact_proto) list \<Rightarrow> nat \<Rightarrow> nat \<Rightarrow> (64 word \<times> nat) list \<Rightarrow> (64 word \<times> nat) list outcome"
where
  "map_time_loop rhs_first m 0 ite mt = Ok mt"
| "map_time_loop rhs_first m (Suc n) ite mt =
     (let at = (if rhs_first then Suc ite else ite)
      in if at < length m
         then map_time_loop rhs_first m n (Suc ite) (omap_put (get_time (snd (m ! at))) ite mt)
         else Abort Undefined_behaviour)"

definition make_room ::
  "bool \<Rightarrow> nat \<Rightarrow> (nat \<times> contact_proto) list \<Rightarrow> (nat \<times> contact_proto) list outcome" where
  "make_room rhs_first common m =
     (let item_count = mm_count common m
      in if item_count \<ge> BUCKET_SIZE
         then map_outcome (\<lambda>mt. erase_at (snd (hd mt)) m)
                (map_time_loop rhs_first m item_count (mm_find common m) [])
         else Ok m)"

definition add_contact :: "bool \<Rightarrow> int \<Rightarrow> key_text \<Rightarrow> endpoint_proto \<Rightarrow> (bucket, unit) cpp" where
  "add_contact rhs_first now k ep = (\<lambda>b0.
     if k = local_key b0 then (Ok (), b0)
     else
       let b = b0\<lparr>now_ := Some now\<rparr>;
           common = bucket_common b k;
           c = \<lparr>contact_key = k, contact_ep = Endpoint (address ep) (port ep),
                contact_time = Some (word_of_int (to_time_t now))\<rparr>;
           ite = find_key b k
       in if address (contact_ep c) = [] \<or> port (contact_ep c) = [] then (Abort Assertion_failed, b)
          else if ite = length (entries b) then
            (case make_room rhs_first common (entries b) of
               Ok m \<Rightarrow> (Ok (), b\<lparr>entries := mm_insert common c m, changed := True\<rparr>)
             | Throw e \<Rightarrow> (Throw e, b)
             | Abort f \<Rightarrow> (Abort f, b))
          else
            (let old = snd (entries b ! ite)
             in case endpoint_neq (contact_ep old) ep of
                  Ok neq \<Rightarrow>
                    (let old' = (if neq then old\<lparr>contact_ep := Endpoint (address ep) (port ep)\<rparr>
                                 else old)
                     in (Ok (), b\<lparr>entries := (entries b)[ite := (fst (entries b ! ite),
                          old'\<lparr>contact_time := Some (word_of_int (to_time_t now))\<rparr>)]\<rparr>))
                | Throw e \<Rightarrow> (Throw e, b)
                | Abort f \<Rightarrow> (Abort f, b)))"

fun proximity_loop ::
  "key \<Rightarrow> (nat \<times> contact_proto) list \<Rightarrow> (string \<times> key_text) list \<Rightarrow> (string \<times> key_text) list" where
  "proximity_loop search_key [] mp = mp"
| "proximity_loop search_key (e # es) mp =
     (let loop_key = string_to_key (contact_key (snd e));
          result = NOT (search_key XOR loop_key)
      in proximity_loop search_key es
           (omap_put (bitset_to_string result) (contact_key (snd e)) mp))"

definition bucket_build_proximity :: "key_text \<Rightarrow> (bucket, (string \<times> key_text) list) cpp" where
  "bucket_build_proximity k = (\<lambda>b.
     if \<not> changed b then (Ok (map_proximity b), b)
     else let mp = proximity_loop (string_to_key k) (entries b) []
          in (Ok mp, b\<lparr>map_proximity := mp, changed := False\<rparr>))"

text \<open>The bits from \<open>bn\<close> on are drawn; \<open>256 - bn\<close> calls of \<open>random()\<close>.\<close>

definition random_key_in_bucket :: "(nat \<Rightarrow> nat) \<Rightarrow> nat \<Rightarrow> bucket \<Rightarrow> nat \<Rightarrow> key_text" where
  "random_key_in_bucket rnd pos b bn =
     (let ret = string_to_key (local_key b)
      in key_to_string (bitset_of
           (\<lambda>i. if bn \<le> i then rnd (pos + (i - bn)) mod 2 \<noteq> 0 else bit ret i)))"

section \<open>The invariant of the table\<close>

definition keys_of :: "bucket \<Rightarrow> key_text set" where
  "keys_of b = (contact_key \<circ> snd) ` set (entries b)"

definition entry_ok :: "bucket \<Rightarrow> nat \<times> contact_proto \<Rightarrow> bool" where
  "entry_ok b e \<longleftrightarrow> fst e = bucket_common b (contact_key (snd e)) \<and>
     contact_key (snd e) \<noteq> local_key b \<and> good_ep (contact_ep (snd e)) \<and> has_time (snd e)"

definition bucket_ok :: "bucket \<Rightarrow> bool" where
  "bucket_ok b \<longleftrightarrow> mm_ok (entries b) \<and> (\<forall>e \<in> set (entries b). entry_ok b e) \<and>
     distinct (map (contact_key \<circ> snd) (entries b)) \<and>
     (\<forall>i. mm_count i (entries b) \<le> BUCKET_SIZE)"

lemma new_bucket_ok: "bucket_ok (new_bucket k)"
  by (simp add: bucket_ok_def new_bucket_def mm_count_def)

lemma scan_key_Some:
  "scan_key m k n ite = Some i \<Longrightarrow> ite \<le> i \<and> i < ite + n \<and> contact_key (snd (m ! i)) = k"
proof (induction n arbitrary: ite)
  case (Suc n)
  show ?case
  proof (cases "contact_key (snd (m ! ite)) = k")
    case True
    with Suc.prems show ?thesis by auto
  next
    case False
    with Suc.prems have "scan_key m k n (Suc ite) = Some i" by simp
    then show ?thesis using Suc.IH by fastforce
  qed
qed simp

lemma scan_key_None:
  "scan_key m k n ite = None \<Longrightarrow> j < n \<Longrightarrow> contact_key (snd (m ! (ite + j))) \<noteq> k"
proof (induction n arbitrary: ite j)
  case (Suc n)
  then show ?case using Suc.IH [of "Suc ite" "j - 1"] by (cases j) (auto split: if_splits)
qed simp

lemma find_key_cases:
  assumes "bucket_ok b"
  obtains (found) i where "find_key b k = i" and "i < length (entries b)"
      and "contact_key (snd (entries b ! i)) = k" and "k \<in> keys_of b"
      and "bucket_at b k = Ok (contact_ep (snd (entries b ! i)))"
  | (missing) "find_key b k = length (entries b)" and "k \<notin> keys_of b"
      and "bucket_at b k = Throw (String_exception ''unknown key'')"
proof -
  let ?m = "entries b" and ?c = "bucket_common b k"
  have ok: "mm_ok ?m" using assms by (simp add: bucket_ok_def)
  show ?thesis
  proof (cases "scan_key ?m k (mm_count ?c ?m) (mm_find ?c ?m)")
    case None
    have "k \<notin> keys_of b"
    proof
      assume "k \<in> keys_of b"
      then obtain e where e: "e \<in> set ?m" "contact_key (snd e) = k" by (auto simp: keys_of_def)
      then have "fst e = ?c" using assms by (auto simp: bucket_ok_def entry_ok_def)
      with e have "e \<in> set (filter (\<lambda>e. fst e = ?c) ?m)" by simp
      then obtain j where "j < mm_count ?c ?m" "filter (\<lambda>e. fst e = ?c) ?m ! j = e"
        unfolding mm_count_def by (metis in_set_conv_nth)
      then show False using scan_key_None [OF None] mm_range_nth(2) [OF ok] e(2) by metis
    qed
    with None show ?thesis using that(2) by (simp add: find_key_def bucket_at_def)
  next
    case (Some i)
    then have i: "mm_find ?c ?m \<le> i" "i < mm_find ?c ?m + mm_count ?c ?m"
      "contact_key (snd (?m ! i)) = k"
      using scan_key_Some by blast+
    then have lt: "i < length ?m" using mm_find_bound [OF ok, of ?c] by simp
    then have "k \<in> keys_of b" using i(3) by (force simp: keys_of_def)
    with Some i(3) lt show ?thesis using that(1) by (simp add: find_key_def bucket_at_def)
  qed
qed

lemma find_key_iff: "bucket_ok b \<Longrightarrow> find_key b k < length (entries b) \<longleftrightarrow> k \<in> keys_of b"
  by (rule find_key_cases [of b k]) auto

lemma find_key_end_iff: "bucket_ok b \<Longrightarrow> find_key b k = length (entries b) \<longleftrightarrow> k \<notin> keys_of b"
  by (rule find_key_cases [of b k]) auto

section \<open>Adding a contact\<close>

lemma map_time_loop_vals:
  assumes "map_time_loop r m n ite mt = Ok mt'" and "\<forall>e \<in> set mt. lo \<le> snd e \<and> snd e < hi"
    and "lo \<le> ite" and "ite + n \<le> hi"
  shows "\<forall>e \<in> set mt'. lo \<le> snd e \<and> snd e < hi"
  using assms
proof (induction n arbitrary: ite mt)
  case 0
  then show ?case by simp
next
  case (Suc n)
  let ?t = "get_time (snd (m ! (if r then Suc ite else ite)))"
  from Suc.prems(1) have "map_time_loop r m n (Suc ite) (omap_put ?t ite mt) = Ok mt'"
    by (auto simp: Let_def split: if_splits)
  moreover have "\<forall>e \<in> set (omap_put ?t ite mt). lo \<le> snd e \<and> snd e < hi"
    using set_omap_put_subset [of ?t ite mt] Suc.prems by auto
  moreover have "lo \<le> Suc ite" and "Suc ite + n \<le> hi" using Suc.prems(3,4) by simp_all
  ultimately show ?case by (rule Suc.IH)
qed

lemma map_time_loop_outcome:
  "(\<exists>mt'. map_time_loop r m n ite mt = Ok mt') \<or>
   map_time_loop r m n ite mt = Abort Undefined_behaviour \<and> length m < ite + n + of_bool r"
proof (induction n arbitrary: ite mt)
  case (Suc n)
  let ?at = "if r then Suc ite else ite"
  show ?case
  proof (cases "?at < length m")
    case True
    then show ?thesis
      using Suc.IH [of "Suc ite" "omap_put (get_time (snd (m ! ?at))) ite mt"] by simp
  next
    case False
    then have "length m < ite + Suc n + of_bool r" by (cases r) auto
    with False show ?thesis by simp
  qed
qed simp

lemma map_time_loop_ok:
  "map_time_loop r m n ite mt = Ok mt' \<Longrightarrow> omap_ok mt \<Longrightarrow> omap_ok mt'"
  by (induction n arbitrary: ite mt) (auto simp: Let_def split: if_splits)

lemma map_time_loop_grows:
  "map_time_loop r m n ite mt = Ok mt' \<Longrightarrow> fst ` set mt \<subseteq> fst ` set mt'"
proof (induction n arbitrary: ite mt)
  case (Suc n)
  then have "map_time_loop r m n (Suc ite)
      (omap_put (get_time (snd (m ! (if r then Suc ite else ite)))) ite mt) = Ok mt'"
    by (auto simp: Let_def split: if_splits)
  from Suc.IH [OF this] show ?case by auto
qed auto

lemma map_time_loop_nonempty:
  assumes "map_time_loop r m n ite mt = Ok mt'" and "0 < n"
  shows "mt' \<noteq> []"
proof -
  from assms obtain n' where "n = Suc n'" by (cases n) auto
  with assms(1) have "map_time_loop r m n' (Suc ite)
      (omap_put (get_time (snd (m ! (if r then Suc ite else ite)))) ite mt) = Ok mt'"
    by (auto simp: Let_def split: if_splits)
  from map_time_loop_grows [OF this] show ?thesis by auto
qed

lemma make_room_cases:
  assumes "mm_ok m" and "make_room r common m = Ok m'"
  obtains (room) "mm_count common m < BUCKET_SIZE" and "m' = m"
  | (evict) i where "BUCKET_SIZE \<le> mm_count common m" and "i < length m" and "fst (m ! i) = common"
      and "m' = erase_at i m"
proof (cases "BUCKET_SIZE \<le> mm_count common m")
  case False
  with assms(2) have "m' = m" by (simp add: make_room_def)
  with False show ?thesis using room by simp
next
  case True
  let ?n = "mm_count common m" and ?f = "mm_find common m"
  from True assms(2) obtain mt where mt: "map_time_loop r m ?n ?f [] = Ok mt"
    and m': "m' = erase_at (snd (hd mt)) m"
    by (cases "map_time_loop r m ?n ?f []") (auto simp: make_room_def Let_def)
  have "0 < ?n" using True by (simp add: BUCKET_SIZE_def)
  then have "hd mt \<in> set mt" using map_time_loop_nonempty [OF mt] by simp
  then have i: "?f \<le> snd (hd mt)" "snd (hd mt) < ?f + ?n"
    using map_time_loop_vals [OF mt, of ?f "?f + ?n"] by auto
  define j where "j = snd (hd mt) - ?f"
  have "j < ?n" and "snd (hd mt) = ?f + j" using i by (simp_all add: j_def)
  then show ?thesis
    using evict [OF True _ _ m'] mm_range_nth(1,3) [OF assms(1), of j common] by simp
qed

text \<open>
  Making room reads past the end exactly where the right side comes first and the full bucket is the
  last one of the table.
\<close>

lemma mm_last_bucket:
  assumes "mm_ok m" and "0 < mm_count k m"
  shows "length m = mm_find k m + mm_count k m \<longleftrightarrow> (\<forall>e \<in> set m. fst e \<le> k)"
proof -
  have "length m = length (takeWhile (\<lambda>e. fst e < k) m) + mm_count k m + length (filter (\<lambda>e. k < fst e) m)"
    by (subst mm_split [OF assms(1), of k]) (simp_all add: mm_count_def)
  with assms(2) show ?thesis by (auto simp: mm_find_def filter_empty_conv not_less)
qed

lemma map_time_loop_stuck:
  "0 < n \<Longrightarrow> length m = ite + n \<Longrightarrow> map_time_loop True m n ite mt = Abort Undefined_behaviour"
proof (induction n arbitrary: ite mt)
  case (Suc n)
  then show ?case by (cases n) (auto simp: Let_def)
qed simp

lemma make_room_outcome:
  assumes "mm_ok m"
  shows "if r \<and> BUCKET_SIZE \<le> mm_count common m \<and> (\<forall>e \<in> set m. fst e \<le> common)
    then make_room r common m = Abort Undefined_behaviour else \<exists>m'. make_room r common m = Ok m'"
proof -
  let ?n = "mm_count common m" and ?f = "mm_find common m"
  have "0 < ?n" if "BUCKET_SIZE \<le> ?n" using that by (simp add: BUCKET_SIZE_def)
  then have last: "(\<forall>e \<in> set m. fst e \<le> common) \<longleftrightarrow> length m = ?f + ?n" and pos: "0 < ?n" if "BUCKET_SIZE \<le> ?n"
    using mm_last_bucket [OF assms, of common] that by simp_all
  moreover have "?f + ?n \<le> length m" by (rule mm_find_bound [OF assms])
  ultimately show ?thesis
    using map_time_loop_outcome [of r m ?n ?f "[]"] map_time_loop_stuck [of ?n m ?f "[]"]
    by (cases "BUCKET_SIZE \<le> ?n"; cases r) (auto simp only: make_room_def Let_def if_True if_False
      last simp_thms outcome.map conj_ac split: if_splits, auto)
qed

lemma mm_count_erase_at:
  assumes "i < length m"
  shows "mm_count k (erase_at i m) = mm_count k m - (if fst (m ! i) = k then 1 else 0)"
proof -
  have "mm_count k m = mm_count k (take i m @ m ! i # drop (Suc i) m)"
    using erase_at_mset [OF assms] by simp
  then show ?thesis by (simp add: mm_count_def erase_at_def)
qed

lemma make_room_ok:
  assumes "bucket_ok b" and "make_room r common (entries b) = Ok m'"
  shows "mm_ok m'" and "set m' \<subseteq> set (entries b)"
    and "distinct (map (contact_key \<circ> snd) m')" and "mm_count common m' < BUCKET_SIZE"
    and "mm_count k m' \<le> BUCKET_SIZE"
proof -
  let ?m = "entries b"
  have ok: "mm_ok ?m" and dist: "distinct (map (contact_key \<circ> snd) ?m)"
    and cnt: "\<And>i. mm_count i ?m \<le> BUCKET_SIZE"
    using assms(1) by (auto simp: bucket_ok_def)
  have pos: "0 < BUCKET_SIZE" by (simp add: BUCKET_SIZE_def)
  have "mm_ok m' \<and> set m' \<subseteq> set ?m \<and> distinct (map (contact_key \<circ> snd) m') \<and>
      mm_count common m' < BUCKET_SIZE \<and> mm_count k m' \<le> BUCKET_SIZE"
  proof (rule make_room_cases [OF ok assms(2)])
    assume "mm_count common ?m < BUCKET_SIZE" and "m' = ?m"
    then show ?thesis using ok dist cnt by simp
  next
    fix i assume i: "i < length ?m" "fst (?m ! i) = common" "m' = erase_at i ?m"
      "BUCKET_SIZE \<le> mm_count common ?m"
    have "map (contact_key \<circ> snd) m' = erase_at i (map (contact_key \<circ> snd) ?m)"
      by (simp add: i(3) erase_at_def take_map drop_map)
    then have "distinct (map (contact_key \<circ> snd) m')"
      using distinct_erase_at(1) [OF dist] i(1) by simp
    moreover have "mm_count common m' < BUCKET_SIZE" and "mm_count k m' \<le> BUCKET_SIZE"
      using i mm_count_erase_at [OF i(1)] cnt [of common] cnt [of k] pos by simp_all
    ultimately show ?thesis
      using mm_ok_erase_at [OF ok, of i] set_erase_at_subset [of i ?m] i(3) by simp
  qed
  then show "mm_ok m'" and "set m' \<subseteq> set ?m" and "distinct (map (contact_key \<circ> snd) m')"
    and "mm_count common m' < BUCKET_SIZE" and "mm_count k m' \<le> BUCKET_SIZE" by blast+
qed

text \<open>The two ways \<open>add_contact\<close> changes the entries.\<close>

lemma bucket_ok_insert:
  assumes "bucket_ok b" and "make_room r (bucket_common b k) (entries b) = Ok m"
    and "k \<notin> keys_of b" and "k \<noteq> local_key b" and "good_ep ep"
    and b': "b' = b\<lparr>now_ := n,
        entries := mm_insert (bucket_common b k) \<lparr>contact_key = k, contact_ep = ep, contact_time = Some t\<rparr> m,
        changed := ch\<rparr>"
  shows "bucket_ok b'"
proof -
  note room = make_room_ok [OF assms(1,2)]
  let ?i = "bucket_common b k"
    and ?c = "\<lparr>contact_key = k, contact_ep = ep, contact_time = Some t\<rparr>"
  have common: "bucket_common b' = bucket_common b" by (rule ext) (simp add: bucket_common_def b')
  have "k \<notin> (contact_key \<circ> snd) ` set m" using room(2) assms(3) by (auto simp: keys_of_def)
  then have dist: "distinct (map (contact_key \<circ> snd) (mm_insert ?i ?c m))"
    using room(3) by (simp add: distinct_map_mm_insert)
  have ent: "entries b' = mm_insert ?i ?c m" and loc: "local_key b' = local_key b"
    by (simp_all add: b')
  have old: "entry_ok b e" if "e \<in> set m" for e
    using that room(2) assms(1) by (auto simp: bucket_ok_def)
  have "entry_ok b' e" if "e \<in> set (entries b')" for e
  proof (cases "e \<in> set m")
    case True
    then show ?thesis using old [OF True] by (simp add: entry_ok_def common loc)
  next
    case False
    then have "e = (?i, ?c)" using that by (simp add: ent)
    then show ?thesis using assms(4,5) by (simp add: entry_ok_def common loc has_time_def)
  qed
  moreover have "mm_count j (entries b') \<le> BUCKET_SIZE" for j
    using room(4) room(5) [of j] by (simp add: b' mm_count_insert room(1))
  ultimately show ?thesis
    using room(1) dist by (simp add: bucket_ok_def b')
qed

lemma bucket_ok_update:
  assumes "bucket_ok b" and "i < length (entries b)" and "contact_key c = contact_key (snd (entries b ! i))"
    and "good_ep (contact_ep c)" and "has_time c"
    and b': "b' = b\<lparr>now_ := n, entries := (entries b)[i := (fst (entries b ! i), c)]\<rparr>"
  shows "bucket_ok b'"
proof -
  let ?m = "entries b" and ?e = "(fst (entries b ! i), c)"
  have fsts: "map fst (entries b') = map fst ?m"
    using assms(2) by (simp add: b' map_update list_update_same_conv)
  have keys: "map (contact_key \<circ> snd) (entries b') = map (contact_key \<circ> snd) ?m"
    using assms(2,3) by (simp add: b' map_update list_update_same_conv)
  have common: "bucket_common b' = bucket_common b" by (rule ext) (simp add: bucket_common_def b')
  have "?m ! i \<in> set ?m" using assms(2) by simp
  then have "entry_ok b (?m ! i)" using assms(1) by (auto simp: bucket_ok_def)
  moreover have loc: "local_key b' = local_key b" by (simp add: b')
  ultimately have "entry_ok b' ?e" using assms(3-5) by (simp add: entry_ok_def common loc)
  moreover have "entry_ok b' e" if "e \<in> set ?m" for e
    using that assms(1) by (auto simp: bucket_ok_def entry_ok_def common loc)
  moreover have "set (entries b') \<subseteq> insert ?e (set ?m)"
    by (simp add: b' set_update_subset_insert)
  moreover have "mm_count j (entries b') = mm_count j ?m" for j
    by (simp only: mm_count_fst fsts)
  ultimately show ?thesis
    using assms(1) fsts keys by (auto simp: bucket_ok_def mm_ok_def)
qed

lemma bucket_ok_frame [simp]:
  "bucket_ok (b\<lparr>now_ := n\<rparr>) = bucket_ok b"
  "bucket_ok (b\<lparr>map_proximity := mp, changed := ch\<rparr>) = bucket_ok b"
  by (simp_all add: bucket_ok_def entry_ok_def bucket_common_def)

lemma find_key_frame [simp]: "find_key (b\<lparr>now_ := n\<rparr>) k = find_key b k"
  "bucket_common (b\<lparr>now_ := n\<rparr>) k = bucket_common b k"
  by (simp_all add: find_key_def bucket_common_def Let_def split: option.split)

text \<open>What \<open>add_contact\<close> does, as its cases.\<close>

lemma add_contact_cases:
  assumes "bucket_ok b"
  obtains (self) "k = local_key b" and "add_contact r now k ep b = (Ok (), b)"
  | (empty) "k \<noteq> local_key b" and "\<not> good_ep ep"
      and "add_contact r now k ep b = (Abort Assertion_failed, b\<lparr>now_ := Some now\<rparr>)"
  | (new) m where "k \<noteq> local_key b" and "good_ep ep" and "k \<notin> keys_of b"
      and "make_room r (bucket_common b k) (entries b) = Ok m"
      and "add_contact r now k ep b = (Ok (), b\<lparr>now_ := Some now,
        entries := mm_insert (bucket_common b k)
          \<lparr>contact_key = k, contact_ep = ep, contact_time = Some (word_of_int (to_time_t now))\<rparr> m,
        changed := True\<rparr>)"
  | (undefined) "k \<noteq> local_key b" and "good_ep ep" and "k \<notin> keys_of b"
      and "make_room r (bucket_common b k) (entries b) = Abort Undefined_behaviour" and "r"
      and "BUCKET_SIZE \<le> mm_count (bucket_common b k) (entries b)"
      and "\<forall>e \<in> set (entries b). fst e \<le> bucket_common b k"
      and "add_contact r now k ep b = (Abort Undefined_behaviour, b\<lparr>now_ := Some now\<rparr>)"
  | (update) i where "k \<noteq> local_key b" and "good_ep ep" and "i = find_key b k"
      and "i < length (entries b)" and "contact_key (snd (entries b ! i)) = k"
      and "add_contact r now k ep b = (Ok (), b\<lparr>now_ := Some now,
        entries := (entries b)[i := (fst (entries b ! i),
          \<lparr>contact_key = k, contact_ep = ep, contact_time = Some (word_of_int (to_time_t now))\<rparr>)]\<rparr>)"
proof -
  have ep: "Endpoint (address ep) (port ep) = ep" by simp
  have mm: "mm_ok (entries b)" using assms by (simp add: bucket_ok_def)
  consider "k = local_key b" | "k \<noteq> local_key b" "\<not> good_ep ep"
    | "k \<noteq> local_key b" "good_ep ep" "k \<notin> keys_of b"
    | "k \<noteq> local_key b" "good_ep ep" "k \<in> keys_of b" by blast
  then show ?thesis
  proof cases
    case 1
    then show ?thesis using self by (simp add: add_contact_def)
  next
    case 2
    then show ?thesis using empty by (auto simp: add_contact_def good_ep_def Let_def)
  next
    case 3
    then have e: "find_key b k = length (entries b)" by (simp add: find_key_end_iff [OF assms])
    consider m where "make_room r (bucket_common b k) (entries b) = Ok m"
      | "make_room r (bucket_common b k) (entries b) = Abort Undefined_behaviour" "r"
        "BUCKET_SIZE \<le> mm_count (bucket_common b k) (entries b)"
        "\<forall>e \<in> set (entries b). fst e \<le> bucket_common b k"
      using make_room_outcome [OF mm, of r "bucket_common b k"] by (auto split: if_splits)
    then show ?thesis
    proof cases
      case 1
      with 3 e show ?thesis
        by (intro new [of m]) (simp_all add: add_contact_def good_ep_def Let_def ep)
    next
      case 2
      with 3 e show ?thesis
        by (intro undefined) (simp_all add: add_contact_def good_ep_def Let_def ep)
    qed
  next
    case 4
    obtain i where i: "i = find_key b k" "i < length (entries b)"
      "contact_key (snd (entries b ! i)) = k"
      using find_key_cases [OF assms, of k] 4(3) by metis
    have good: "good_ep (contact_ep (snd (entries b ! i)))"
      using assms i(2) nth_mem [OF i(2)] by (auto simp: bucket_ok_def entry_ok_def)
    let ?c = "snd (entries b ! i)"
    have new: "(if contact_ep ?c \<noteq> ep then ?c\<lparr>contact_ep := ep\<rparr> else ?c)\<lparr>contact_time := t\<rparr> =
        \<lparr>contact_key = k, contact_ep = ep, contact_time = t\<rparr>" for t
      using i(3) by (cases ?c) auto
    have ne: "address ep \<noteq> []" "port ep \<noteq> []" using 4(2) by (simp_all add: good_ep_def)
    have "add_contact r now k ep b = (Ok (), b\<lparr>now_ := Some now,
        entries := (entries b)[i := (fst (entries b ! i),
          (if contact_ep ?c \<noteq> ep then ?c\<lparr>contact_ep := ep\<rparr> else ?c)
            \<lparr>contact_time := Some (word_of_int (to_time_t now))\<rparr>)]\<rparr>)"
      using 4(1) i(2) ne
      by (simp add: add_contact_def Let_def i(1) [symmetric] endpoint_neq_good [OF good 4(2)])
    then show ?thesis using update [OF 4(1,2) i] unfolding new by blast
  qed
qed

lemma add_contact_preserves: "bucket_ok b \<Longrightarrow> bucket_ok (snd (add_contact r now k ep b))"
proof (rule add_contact_cases [of b k r now ep], goal_cases)
  case (4 m)
  show ?case
    by (subst 4(6)) (simp, rule bucket_ok_insert [OF 4(1) 4(5) 4(4) 4(2) 4(3) refl])
next
  case (6 i)
  show ?case
    by (subst 6(7)) (simp, rule bucket_ok_update [OF 6(1) 6(5) _ _ _ refl],
      simp_all add: 6(3) 6(6) has_time_def)
qed simp_all

subsection \<open>The table as a finite map\<close>

text \<open>
  The abstraction: which contact the table holds for a key.  On it \<open>add_contact\<close> is a map update
  that may drop one contact of a full bucket, the one heard from the longest ago when the left side
  of the assignment is evaluated first.
\<close>

definition contact_map_of :: "(nat \<times> contact_proto) list \<Rightarrow> key_text \<Rightarrow> contact_proto option" where
  "contact_map_of m = map_of (map (\<lambda>e. (contact_key (snd e), snd e)) m)"

definition contact_map :: "bucket \<Rightarrow> key_text \<Rightarrow> contact_proto option" where
  "contact_map b = contact_map_of (entries b)"

lemma dom_contact_map: "dom (contact_map b) = keys_of b"
  by (simp add: contact_map_def contact_map_of_def keys_of_def dom_map_of_conv_image_fst image_image)

lemma contact_map_of_iff:
  "distinct (map (contact_key \<circ> snd) m) \<Longrightarrow>
     contact_map_of m k = Some c \<longleftrightarrow> c \<in> snd ` set m \<and> contact_key c = k"
  by (auto simp: contact_map_of_def comp_def image_iff)

lemma contact_map_of_eqI:
  assumes "distinct (map (contact_key \<circ> snd) m)"
    and "\<And>c. c \<in> snd ` set m \<longleftrightarrow> f (contact_key c) = Some c"
    and "\<And>k c. f k = Some c \<Longrightarrow> contact_key c = k"
  shows "contact_map_of m = f"
proof
  fix k
  have "contact_map_of m k = Some c \<longleftrightarrow> f k = Some c" for c
    using contact_map_of_iff [OF assms(1), of k c] assms(2,3) by metis
  then show "contact_map_of m k = f k" by (metis option.exhaust)
qed

lemma contact_map_of_insert:
  "contact_key c \<notin> (contact_key \<circ> snd) ` set m \<Longrightarrow>
     contact_map_of (mm_insert i c m) = (contact_map_of m)(contact_key c \<mapsto> c)"
proof (induction m)
  case Nil
  show ?case by (simp add: contact_map_of_def)
next
  case (Cons e m)
  then have "contact_key (snd e) \<noteq> contact_key c" by auto
  with Cons show ?case by (auto simp: contact_map_of_def fun_upd_twist)
qed

lemma contact_map_of_erase:
  assumes "distinct (map (contact_key \<circ> snd) m)" and "i < length m"
  shows "contact_map_of (erase_at i m) = (contact_map_of m)(contact_key (snd (m ! i)) := None)"
proof
  fix k
  have keys: "map (contact_key \<circ> snd) (erase_at i m) = erase_at i (map (contact_key \<circ> snd) m)"
    by (simp add: erase_at_def take_map drop_map)
  have d: "distinct (map (contact_key \<circ> snd) (erase_at i m))"
    unfolding keys by (rule distinct_erase_at(1)) (use assms in auto)
  have s: "set (erase_at i m) = set m - {m ! i}"
    using assms by (intro distinct_erase_at(2)) (auto simp: distinct_map)
  have inj: "e = m ! i" if "e \<in> set m" "contact_key (snd e) = contact_key (snd (m ! i))" for e
    using assms that nth_mem [OF assms(2)] by (auto simp: distinct_map inj_on_def)
  have "contact_map_of (erase_at i m) k = Some c \<longleftrightarrow>
      ((contact_map_of m)(contact_key (snd (m ! i)) := None)) k = Some c" for c
    using inj by (auto simp: contact_map_of_iff [OF d] contact_map_of_iff [OF assms(1)] s image_iff)
  then show "contact_map_of (erase_at i m) k =
      ((contact_map_of m)(contact_key (snd (m ! i)) := None)) k"
    by (metis option.exhaust)
qed

lemma contact_map_of_update:
  assumes "distinct (map (contact_key \<circ> snd) m)" and "i < length m"
    and "contact_key c = contact_key (snd (m ! i))"
  shows "contact_map_of (m[i := (j, c)]) = (contact_map_of m)(contact_key c \<mapsto> c)"
proof -
  let ?f = "\<lambda>e. (contact_key (snd e), snd e)"
  have "map ?f (m[i := (j, c)]) = (map ?f m)[i := (contact_key c, c)]"
    by (simp add: map_update)
  also have "map_of \<dots> = (map_of (map ?f m))(contact_key c \<mapsto> c)"
    using assms
  proof (induction m arbitrary: i)
    case (Cons e m)
    show ?case
    proof (cases i)
      case 0
      with Cons.prems show ?thesis by (auto simp: fun_eq_iff)
    next
      case (Suc i')
      with Cons.prems have "contact_key (snd e) \<noteq> contact_key c"
        by (auto simp: image_iff)
      with Suc Cons show ?thesis by (auto simp: fun_eq_iff)
    qed
  qed simp
  finally show ?thesis by (simp add: contact_map_of_def fun_upd_def)
qed

text \<open>The time the eviction takes for that of a position: its own, or that of the next one.\<close>

definition taken_time :: "bool \<Rightarrow> (nat \<times> contact_proto) list \<Rightarrow> nat \<Rightarrow> 64 word" where
  "taken_time r m i = get_time (snd (m ! (if r then Suc i else i)))"

lemma map_time_loop_times:
  assumes "map_time_loop r m n ite mt = Ok mt'" and "omap_ok mt"
    and "\<forall>e \<in> set mt. taken_time r m (snd e) = fst e"
  shows "(\<forall>e \<in> set mt'. taken_time r m (snd e) = fst e) \<and> (\<forall>j < n. taken_time r m (ite + j) \<in> fst ` set mt')"
  using assms
proof (induction n arbitrary: ite mt)
  case 0
  then show ?case by simp
next
  case (Suc n)
  let ?t = "taken_time r m ite" and ?mt = "omap_put (taken_time r m ite) ite mt"
  have step: "map_time_loop r m n (Suc ite) ?mt = Ok mt'"
    using Suc.prems(1) by (auto simp: Let_def taken_time_def split: if_splits)
  have "\<forall>e \<in> set ?mt. taken_time r m (snd e) = fst e"
    using Suc.prems(3) set_omap_put_subset [of ?t ite mt] by auto
  from Suc.IH [OF step omap_ok_put [OF Suc.prems(2)] this]
  have IH: "\<forall>e \<in> set mt'. taken_time r m (snd e) = fst e"
    "\<forall>j < n. taken_time r m (Suc ite + j) \<in> fst ` set mt'" by blast+
  have "?t \<in> fst ` set mt'" using map_time_loop_grows [OF step] by auto
  then have "taken_time r m (ite + j) \<in> fst ` set mt'" if "j < Suc n" for j
    using that IH(2) by (cases j) auto
  with IH(1) show ?case by blast
qed

lemma make_room_oldest:
  assumes "mm_ok m" and "make_room r common m = Ok m'" and "BUCKET_SIZE \<le> mm_count common m"
  obtains i where "i < length m" and "fst (m ! i) = common" and "m' = erase_at i m"
    and "\<forall>j < length m. fst (m ! j) = common \<longrightarrow> taken_time r m i \<le> taken_time r m j"
proof -
  let ?n = "mm_count common m" and ?f = "mm_find common m"
  from assms(2,3) obtain mt where mt: "map_time_loop r m ?n ?f [] = Ok mt"
    and m': "m' = erase_at (snd (hd mt)) m"
    by (cases "map_time_loop r m ?n ?f []") (auto simp: make_room_def Let_def)
  have "0 < ?n" using assms(3) by (simp add: BUCKET_SIZE_def)
  then have hd: "hd mt \<in> set mt" using map_time_loop_nonempty [OF mt] by simp
  then have i: "?f \<le> snd (hd mt)" "snd (hd mt) < ?f + ?n"
    using map_time_loop_vals [OF mt, of ?f "?f + ?n"] by auto
  define l where "l = snd (hd mt) - ?f"
  have l: "l < ?n" "snd (hd mt) = ?f + l" using i by (simp_all add: l_def)
  have times: "\<forall>e \<in> set mt. taken_time r m (snd e) = fst e" "\<forall>j < ?n. taken_time r m (?f + j) \<in> fst ` set mt"
    using map_time_loop_times [OF mt] by auto
  have "taken_time r m (snd (hd mt)) \<le> taken_time r m j" if j: "j < length m" "fst (m ! j) = common" for j
  proof -
    from mm_index_in_range [OF assms(1) j] obtain q where "q < ?n" "j = ?f + q" by blast
    with times(2) have "taken_time r m j \<in> fst ` set mt" by blast
    then have "fst (hd mt) \<le> taken_time r m j"
      using omap_hd_least [OF map_time_loop_ok [OF mt omap_ok_Nil]] by auto
    with times(1) hd show ?thesis by simp
  qed
  then show ?thesis
    using that [of "snd (hd mt)"] mm_range_nth(1,3) [OF assms(1) l(1)] l(2) m' by simp
qed

section \<open>Removing contacts\<close>

lemma bucket_ok_erase: "bucket_ok b \<Longrightarrow> bucket_ok (b\<lparr>entries := erase_at i (entries b)\<rparr>)"
proof -
  assume ok: "bucket_ok b"
  let ?m = "entries b"
  have "mm_count j (erase_at i ?m) \<le> mm_count j ?m" for j
  proof (cases "i < length ?m")
    case True
    then show ?thesis by (simp add: mm_count_erase_at)
  next
    case False
    then show ?thesis by (simp add: erase_at_def)
  qed
  moreover have "map (contact_key \<circ> snd) (erase_at i ?m) = erase_at i (map (contact_key \<circ> snd) ?m)"
    by (simp add: erase_at_def take_map drop_map)
  moreover have "distinct (erase_at i xs)" if "distinct xs" for xs :: "key_text list"
    using that distinct_erase_at(1) [of xs i] by (cases "i < length xs") (simp_all add: erase_at_def)
  moreover have "mm_count j ?m \<le> BUCKET_SIZE" for j using ok by (simp add: bucket_ok_def)
  moreover have "entry_ok (b\<lparr>entries := m\<rparr>) e \<longleftrightarrow> entry_ok b e" for m e
    by (simp add: entry_ok_def bucket_common_def)
  moreover have "entry_ok b e" if "e \<in> set (erase_at i ?m)" for e
    using that ok set_erase_at_subset [of i ?m] by (auto simp: bucket_ok_def)
  moreover have "mm_ok (erase_at i ?m)" and "distinct (map (contact_key \<circ> snd) ?m)"
    using ok by (simp_all add: bucket_ok_def mm_ok_erase_at)
  ultimately show ?thesis
    unfolding bucket_ok_def by (simp del: map_map) (meson order_trans)
qed

text \<open>Whatever erasing keeps, the loop keeps.\<close>

lemma remove_loop_keeps:
  assumes "\<And>m i. Q m \<Longrightarrow> Q (erase_at i m)"
  shows "Q m \<Longrightarrow> Q (snd (remove_loop ep i m))"
proof (induction ep i m rule: remove_loop.induct)
  case (1 ep i m)
  show ?case
    by (subst remove_loop.simps)
      (use 1 assms [OF "1.prems", of i] in \<open>auto split: outcome.split\<close>)
qed

lemma remove_contact_ok: "bucket_ok b \<Longrightarrow> bucket_ok (snd (remove_contact ep b))"
proof -
  assume "bucket_ok b"
  then have "bucket_ok (b\<lparr>entries := snd (remove_loop ep 0 (entries b))\<rparr>)"
    using bucket_ok_erase [of "b\<lparr>entries := _\<rparr>"]
    by (intro remove_loop_keeps [where Q = "\<lambda>m. bucket_ok (b\<lparr>entries := m\<rparr>)"]) auto
  then show ?thesis by (cases "remove_loop ep 0 (entries b)") (simp add: remove_contact_def)
qed

abbreviation at_endpoint :: "endpoint_proto \<Rightarrow> nat \<times> contact_proto \<Rightarrow> bool" where
  "at_endpoint ep e \<equiv> contact_ep (snd e) = ep"

lemma filter_erase_matching:
  "i < length m \<Longrightarrow> P (m ! i) \<Longrightarrow> filter (\<lambda>e. \<not> P e) (erase_at i m) = filter (\<lambda>e. \<not> P e) m"
  by (rule filter_erase_at) simp_all

text \<open>
  What the loop leaves: every entry of another endpoint, in order; of the matching ones none
  beyond position 0 if it erased at all, none from position \<open>i\<close> on if it did not.
\<close>

definition removed :: "endpoint_proto \<Rightarrow> nat \<Rightarrow> (nat \<times> contact_proto) list \<Rightarrow>
    (nat \<times> contact_proto) list \<Rightarrow> bool" where
  "removed ep i m m' \<longleftrightarrow>
     filter (\<lambda>e. \<not> at_endpoint ep e) m' = filter (\<lambda>e. \<not> at_endpoint ep e) m \<and>
     (m' = m \<and> (\<forall>j < length m'. i \<le> j \<longrightarrow> \<not> at_endpoint ep (m' ! j)) \<or>
      length m' < length m \<and> (\<forall>j < length m'. 1 \<le> j \<longrightarrow> \<not> at_endpoint ep (m' ! j)))"

lemma removed_skip:
  assumes "\<not> at_endpoint ep (m ! i)" and "removed ep (Suc i) m m'"
  shows "removed ep i m m'"
proof -
  have "\<forall>j < length m. i \<le> j \<longrightarrow> \<not> at_endpoint ep (m ! j)"
    if "\<forall>j < length m. Suc i \<le> j \<longrightarrow> \<not> at_endpoint ep (m ! j)"
    using that assms(1) by (metis Suc_leI le_neq_implies_less)
  with assms(2) show ?thesis unfolding removed_def by blast
qed

lemma removed_erase:
  assumes "i < length m" and "at_endpoint ep (m ! i)" and "removed ep 1 (erase_at i m) m'"
  shows "removed ep i m m'"
proof -
  note f = filter_erase_matching [OF assms(1), of "at_endpoint ep", OF assms(2)]
  have "length (erase_at i m) < length m" using assms(1) by (simp add: length_erase_at)
  with assms(3) show ?thesis unfolding removed_def f by auto
qed

lemma remove_loop_result:
  assumes "good_ep ep" and "\<forall>e \<in> set m. good_ep (contact_ep (snd e))"
  shows "(\<exists>m'. remove_loop ep i m = (Ok (), m') \<and> removed ep i m m') \<or>
    remove_loop ep i m = (Abort Undefined_behaviour, []) \<and> m \<noteq> [] \<and> (\<forall>e \<in> set m. at_endpoint ep e)"
  using assms
proof (induction ep i m rule: remove_loop.induct)
  case (1 ep i m)
  show ?case
  proof (cases "i < length m")
    case False
    then have "remove_loop ep i m = (Ok (), m)" by (subst remove_loop.simps) simp
    with False show ?thesis by (auto simp: removed_def)
  next
    case True
    then have eq: "endpoint_eq (contact_ep (snd (m ! i))) ep = Ok (at_endpoint ep (m ! i))"
      using "1.prems" by (simp add: endpoint_eq_good)
    show ?thesis
    proof (cases "at_endpoint ep (m ! i)")
      case False
      with True eq have r: "remove_loop ep i m = remove_loop ep (Suc i) m"
        by (subst remove_loop.simps) simp
      from "1.IH"(2) [OF True eq False "1.prems"] show ?thesis
        unfolding r using removed_skip [OF False] by blast
    next
      case match: True
      let ?m = "erase_at i m"
      note f = filter_erase_matching [OF True, of "at_endpoint ep", OF match]
      have all: "\<forall>e \<in> set m. at_endpoint ep e" if "\<forall>e \<in> set ?m. at_endpoint ep e"
      proof -
        have "filter (\<lambda>e. \<not> at_endpoint ep e) ?m = []" using that by (simp add: filter_empty_conv)
        then show ?thesis unfolding f by (simp add: filter_empty_conv)
      qed
      show ?thesis
      proof (cases "?m = []")
        case empty: True
        then have "remove_loop ep i m = (Abort Undefined_behaviour, [])"
          using True eq match by (subst remove_loop.simps) simp
        then show ?thesis using all True empty by auto
      next
        case False
        then have r: "remove_loop ep i m = remove_loop ep 1 ?m"
          using True eq match by (subst remove_loop.simps) simp
        have "\<forall>e \<in> set ?m. good_ep (contact_ep (snd e))"
          using "1.prems"(2) set_erase_at_subset [of i m] by blast
        from "1.IH"(1) [OF True eq match False "1.prems"(1) this] show ?thesis
          unfolding r using removed_erase [OF True match] all True by auto
      qed
    qed
  qed
qed

section \<open>The proximity table\<close>

definition proximity_code :: "key \<Rightarrow> key_text \<Rightarrow> string" where
  "proximity_code sk k = bitset_to_string (NOT (sk XOR string_to_key k))"

lemma proximity_code_inject:
  "proximity_code sk k = proximity_code sk l \<longleftrightarrow> string_to_key k = string_to_key l"
proof -
  have "sk XOR (sk XOR x) = x" for x :: key by (simp add: xor.assoc [symmetric])
  then have "sk XOR x = sk XOR y \<longleftrightarrow> x = y" for x y :: key by metis
  moreover have "NOT x = NOT y \<longleftrightarrow> x = y" for x y :: key by (metis bit.double_compl)
  ultimately show ?thesis by (simp add: proximity_code_def)
qed

lemma proximity_loop_ok: "omap_ok mp \<Longrightarrow> omap_ok (proximity_loop sk es mp)"
  by (induction es arbitrary: mp) (simp_all add: Let_def)

lemma proximity_loop_set:
  assumes "inj_on string_to_key (K \<union> (contact_key \<circ> snd) ` set es)" and "omap_ok mp"
    and "set mp = (\<lambda>k. (proximity_code sk k, k)) ` K"
  shows "set (proximity_loop sk es mp) =
    (\<lambda>k. (proximity_code sk k, k)) ` (K \<union> (contact_key \<circ> snd) ` set es)"
  using assms
proof (induction es arbitrary: mp K)
  case Nil
  then show ?case by simp
next
  case (Cons e es)
  let ?k = "contact_key (snd e)" and ?g = "\<lambda>k. (proximity_code sk k, k)"
  have "k' = ?k" if "k' \<in> K" "proximity_code sk k' = proximity_code sk ?k" for k'
    using that Cons.prems(1) by (simp add: proximity_code_inject inj_on_def)
  then have "set (omap_put (proximity_code sk ?k) ?k mp) = ?g ` (insert ?k K)"
    unfolding set_omap_put [OF Cons.prems(2)] Cons.prems(3) by auto
  moreover have "K \<union> (contact_key \<circ> snd) ` set (e # es) =
      insert ?k K \<union> (contact_key \<circ> snd) ` set es" by auto
  ultimately show ?case
    using Cons.IH [of "insert ?k K" "omap_put (proximity_code sk ?k) ?k mp"] Cons.prems(1,2)
    by (simp add: Let_def proximity_code_def)
qed

lemma build_proximity_fresh:
  assumes "changed b"
  shows "bucket_build_proximity k b =
    (Ok (proximity_loop (string_to_key k) (entries b) []),
     b\<lparr>map_proximity := proximity_loop (string_to_key k) (entries b) [], changed := False\<rparr>)"
  using assms by (simp add: bucket_build_proximity_def Let_def)

lemma build_proximity_ok: "bucket_ok b \<Longrightarrow> bucket_ok (snd (bucket_build_proximity k b))"
  by (simp add: bucket_build_proximity_def Let_def)

lemma proximity_fresh_set:
  assumes "inj_on string_to_key (keys_of b)"
  shows "set (proximity_loop sk (entries b) []) = (\<lambda>k. (proximity_code sk k, k)) ` keys_of b"
  using proximity_loop_set [of "{}" "entries b" "[]" sk] assms by (simp add: keys_of_def)

section \<open>Keys for refreshing a bucket\<close>

lemma random_key_top_bit:
  assumes "8 \<le> bn"
  shows "bit (string_to_key (random_key_in_bucket rnd pos b bn)) 255 \<longleftrightarrow>
    bit (string_to_key (local_key b)) 7"
  using assms by (simp add: random_key_in_bucket_def string_to_key_to_string key_simps Let_def)

section \<open>Properties of the table\<close>

text \<open>
  C11 Every operation of the table keeps it well-formed: entries sorted by bucket, each in the
  bucket of its key, with a time and a complete endpoint, no key twice, never the node's own key,
  at most five entries per bucket; whatever the outcome of the operation.
\<close>

theorem bucket_operations_keep_table:
  assumes "bucket_ok b"
  shows "bucket_ok (snd (add_contact r now k ep b)) \<and> bucket_ok (snd (remove_contact ep b)) \<and>
    bucket_ok (snd (bucket_build_proximity k b))"
  using assms by (simp add: add_contact_preserves remove_contact_ok build_proximity_ok)

theorem bucket_operations_keep_table_witness:
  "bucket_ok (snd (add_contact True 7 ''01'' (Endpoint ''h'' ''1'') (new_bucket ''02'')))"
  using bucket_operations_keep_table
    [OF new_bucket_ok [of "''02''"], of True 7 "''01''" "Endpoint ''h'' ''1''"] by simp

text \<open>
  \<open>find_key\<close> and \<open>operator[]\<close> are lookup in the finite map the table represents: an iterator
  to the contact of the key, or \<open>end()\<close>; the endpoint, or the exception "unknown key".
\<close>

lemma bucket_lookup_refines_map:
  assumes "bucket_ok b"
  shows "case contact_map b k of
      Some c \<Rightarrow> find_key b k < length (entries b) \<and> snd (entries b ! find_key b k) = c \<and>
        bucket_at b k = Ok (contact_ep c)
    | None \<Rightarrow> find_key b k = length (entries b) \<and>
        bucket_at b k = Throw (String_exception ''unknown key'')"
proof (rule find_key_cases [OF assms, of k])
  fix i assume i: "find_key b k = i" "i < length (entries b)"
    "contact_key (snd (entries b ! i)) = k" "bucket_at b k = Ok (contact_ep (snd (entries b ! i)))"
  have "distinct (map (contact_key \<circ> snd) (entries b))" using assms by (simp add: bucket_ok_def)
  then have "contact_map b k = Some (snd (entries b ! i))"
    using i(2,3) by (simp add: contact_map_def contact_map_of_iff)
  with i show ?thesis by simp
next
  assume "find_key b k = length (entries b)" and "k \<notin> keys_of b"
    and "bucket_at b k = Throw (String_exception ''unknown key'')"
  moreover from this(2) have "contact_map b k = None"
    by (simp add: dom_contact_map [symmetric] domIff)
  ultimately show ?thesis by simp
qed

lemma bucket_lookup_refines_map_example:
  "bucket_at (new_bucket ''02'') ''01'' = Throw (String_exception ''unknown key'')"
  using bucket_lookup_refines_map [OF new_bucket_ok [of "''02''"], of "''01''"]
  by (simp add: new_bucket_def contact_map_def contact_map_of_def)

text \<open>What making room takes out of the map: nothing, or the contact a full bucket gives up.\<close>

definition evicted :: "bool \<Rightarrow> bucket \<Rightarrow> nat \<Rightarrow> key_text set \<Rightarrow> bool" where
  "evicted r b n gone \<longleftrightarrow> (\<exists>i < length (entries b). gone = {contact_key (snd (entries b ! i))} \<and> fst (entries b ! i) = n \<and>
     (\<forall>j < length (entries b). fst (entries b ! j) = n \<longrightarrow> taken_time r (entries b) i \<le> taken_time r (entries b) j))"

lemma make_room_map:
  assumes "bucket_ok b" and "make_room r n (entries b) = Ok m"
  shows "\<exists>gone. contact_map_of m = (contact_map b) |` (- gone) \<and>
    (if mm_count n (entries b) < BUCKET_SIZE then gone = {} else evicted r b n gone)"
proof (cases "mm_count n (entries b) < BUCKET_SIZE")
  case True
  with assms(2) have "m = entries b" by (simp add: make_room_def)
  with True show ?thesis by (intro exI [of _ "{}"]) (simp add: contact_map_def restrict_map_def fun_eq_iff)
next
  case False
  have d: "distinct (map (contact_key \<circ> snd) (entries b))" and mm: "mm_ok (entries b)"
    using assms(1) by (simp_all add: bucket_ok_def)
  from False have full: "BUCKET_SIZE \<le> mm_count n (entries b)" by simp
  obtain j where j: "j < length (entries b)" "fst (entries b ! j) = n" "m = erase_at j (entries b)"
    "\<forall>l < length (entries b). fst (entries b ! l) = n \<longrightarrow> taken_time r (entries b) j \<le> taken_time r (entries b) l"
    using make_room_oldest [OF mm assms(2) full] by metis
  have "contact_map_of m = (contact_map b) |` (- {contact_key (snd (entries b ! j))})"
    using contact_map_of_erase [OF d j(1)] j(3) by (auto simp: contact_map_def restrict_map_def fun_eq_iff)
  moreover have "evicted r b n {contact_key (snd (entries b ! j))}"
    unfolding evicted_def using j(1,2,4) by blast
  ultimately show ?thesis using False by (intro exI [of _ "{contact_key (snd (entries b ! j))}"]) simp
qed

lemma add_contact_map:
  assumes "bucket_ok b" and "k \<noteq> local_key b" and "good_ep ep" and "add_contact rhs now k ep b = (r, b')"
  defines "c \<equiv> \<lparr>contact_key = k, contact_ep = ep, contact_time = Some (word_of_int (to_time_t now))\<rparr>"
    and "full \<equiv> k \<notin> keys_of b \<and> BUCKET_SIZE \<le> mm_count (bucket_common b k) (entries b)"
  shows "if rhs \<and> full \<and> (\<forall>e \<in> set (entries b). fst e \<le> bucket_common b k)
    then r = Abort Undefined_behaviour \<and> contact_map b' = contact_map b
    else r = Ok () \<and> (\<exists>gone. contact_map b' = ((contact_map b) |` (- gone))(k \<mapsto> c) \<and>
      (if full then evicted rhs b (bucket_common b k) gone else gone = {}))"
proof (rule add_contact_cases [OF assms(1), of k rhs now ep])
  let ?i = "bucket_common b k" and ?m = "entries b"
  have d: "distinct (map (contact_key \<circ> snd) ?m)" and mm: "mm_ok ?m" using assms(1) by (simp_all add: bucket_ok_def)
  show ?thesis if k: "k \<notin> keys_of b" and m: "make_room rhs ?i ?m = Ok m"
    and a: "add_contact rhs now k ep b = (Ok (), b\<lparr>now_ := Some now, entries := mm_insert ?i
      \<lparr>contact_key = k, contact_ep = ep, contact_time = Some (word_of_int (to_time_t now))\<rparr> m, changed := True\<rparr>)" for m
  proof -
    note room = make_room_ok [OF assms(1) m]
    have ok: "\<not> (rhs \<and> full \<and> (\<forall>e \<in> set ?m. fst e \<le> ?i))"
      using make_room_outcome [OF mm, of rhs ?i] m by (auto simp: full_def split: if_splits)
    have "k \<notin> (contact_key \<circ> snd) ` set m" using k room(2) by (auto simp: keys_of_def)
    then have res: "contact_map b' = (contact_map_of m)(k \<mapsto> c)" "r = Ok ()"
      using a assms(4) contact_map_of_insert [of c m ?i] by (auto simp: contact_map_def c_def)
    from make_room_map [OF assms(1) m] obtain gone where gone: "contact_map_of m = (contact_map b) |` (- gone)"
      "if mm_count ?i ?m < BUCKET_SIZE then gone = {} else evicted rhs b ?i gone" by blast
    have "full \<longleftrightarrow> \<not> mm_count ?i ?m < BUCKET_SIZE" using k by (simp add: full_def not_less)
    then have "if full then evicted rhs b ?i gone else gone = {}" using gone(2) by (cases full) simp_all
    with res gone(1) have "r = Ok () \<and> (\<exists>gone. contact_map b' = ((contact_map b) |` (- gone))(k \<mapsto> c) \<and>
        (if full then evicted rhs b ?i gone else gone = {}))" by (intro conjI exI [of _ gone]) simp_all
    then show ?thesis unfolding if_not_P [OF ok] .
  qed
  show ?thesis if "k \<notin> keys_of b" and "rhs" and "BUCKET_SIZE \<le> mm_count ?i ?m" and "\<forall>e \<in> set ?m. fst e \<le> ?i"
    and "add_contact rhs now k ep b = (Abort Undefined_behaviour, b\<lparr>now_ := Some now\<rparr>)"
    using that assms(4) by (auto simp: full_def contact_map_def)
  show ?thesis if i: "i = find_key b k" "i < length ?m" "contact_key (snd (?m ! i)) = k"
    and a: "add_contact rhs now k ep b = (Ok (), b\<lparr>now_ := Some now, entries := ?m[i := (fst (?m ! i),
      \<lparr>contact_key = k, contact_ep = ep, contact_time = Some (word_of_int (to_time_t now))\<rparr>)]\<rparr>)" for i
  proof -
    have "k \<in> keys_of b" using i(2,3) nth_mem [OF i(2)] by (force simp: keys_of_def)
    moreover have "contact_map b' = (contact_map b)(k \<mapsto> c)" and "r = Ok ()"
      using a assms(4) contact_map_of_update [OF d i(2), of c] i(3) by (auto simp: contact_map_def c_def)
    ultimately show ?thesis by (simp add: full_def restrict_map_def fun_eq_iff)
  qed
qed (use assms(2,3) in simp_all)

text \<open>
  C12 On the map, adding a contact that is not the node itself stores it under its key with the endpoint
  and the present time.  Nothing is dropped where the key is known or its bucket has room.  Else one contact
  of the full bucket is: with the left side of \<open>map_time_ite[ite->second.time()] = ite++\<close> evaluated first,
  the one heard from the longest ago; with the right side first, as C++17 prescribes, the one whose
  successor in the table has been heard from the longest ago, and when the bucket is the last one of the
  table that successor is read past the end, which is undefined.
\<close>

theorem add_contact_refines_map_update:
  assumes "bucket_ok b" and "k \<noteq> local_key b" and "good_ep ep" and "add_contact rhs_first now k ep b = (r, b')"
  defines "c \<equiv> \<lparr>contact_key = k, contact_ep = ep, contact_time = Some (word_of_int (to_time_t now))\<rparr>"
    and "full \<equiv> k \<notin> keys_of b \<and> BUCKET_SIZE \<le> mm_count (bucket_common b k) (entries b)"
    and "at \<equiv> \<lambda>i. get_time (snd (entries b ! (if rhs_first then Suc i else i)))"
    and "here \<equiv> \<lambda>i. i < length (entries b) \<and> fst (entries b ! i) = bucket_common b k"
  shows "if rhs_first \<and> full \<and> (\<forall>e \<in> set (entries b). fst e \<le> bucket_common b k)
    then r = Abort Undefined_behaviour \<and> contact_map b' = contact_map b
    else r = Ok () \<and> (\<exists>gone. contact_map b' = ((contact_map b) |` (- gone))(k \<mapsto> c) \<and>
      (if full then \<exists>i. here i \<and> gone = {contact_key (snd (entries b ! i))} \<and> (\<forall>j. here j \<longrightarrow> at i \<le> at j)
       else gone = {}))"
proof -
  have ev: "evicted rhs_first b (bucket_common b k) gone \<longleftrightarrow>
      (\<exists>i. here i \<and> gone = {contact_key (snd (entries b ! i))} \<and> (\<forall>j. here j \<longrightarrow> at i \<le> at j))" for gone
    by (auto simp: evicted_def taken_time_def here_def at_def)
  show ?thesis using add_contact_map [OF assms(1-4)] unfolding c_def full_def ev .
qed

text \<open>
  Texts that hold no hexadecimal digit all read as the zero key, which makes small tables with a full
  bucket.
\<close>

lemma read_digest_loop_Nil: "read_digest_loop n [] = replicate n 0"
  by (induction n) (simp_all add: read_hex_byte_def stream_char_def strtoul16_byte_def)

lemma no_digit_key: "c \<in> set ''ghijklm'' \<Longrightarrow> string_to_key [c] = string_to_key ''g''"
proof -
  have "read_digest [c] = replicate 32 0" if c: "c \<in> set ''ghijklm''" for c
  proof -
    have "read_hex_byte [c] = (0, [])"
      using c by (auto simp: read_hex_byte_def stream_char_def strtoul16_byte_def is_space_def hex_value_def)
    then have "read_digest_loop (Suc n) [c] = replicate (Suc n) 0" for n by (simp add: read_digest_loop_Nil)
    from this [of 31] show ?thesis by (simp add: read_digest_def DIGEST_LENGTH_def)
  qed
  from this [of c] this [of "CHR ''g''"] show "c \<in> set ''ghijklm'' \<Longrightarrow> string_to_key [c] = string_to_key ''g''"
    by (simp add: string_to_key_def)
qed

text \<open>The table of the key \<open>02\<close> with a full bucket, and another text of the same key behind it.\<close>

definition crowded :: bucket where
  "crowded = (let b = new_bucket ''02''; entry = (\<lambda>k t. (bucket_common b k,
       \<lparr>contact_key = k, contact_ep = Endpoint ''h'' ''1'', contact_time = Some t\<rparr>))
     in b\<lparr>entries := [entry ''h'' 5, entry ''i'' 3, entry ''j'' 8, entry ''k'' 9, entry ''l'' 7, entry ''02g'' 2]\<rparr>)"

lemma full_last_bucket_reads_past_end:
  assumes "bucket_ok b" and "k \<noteq> local_key b" and "good_ep ep" and "k \<notin> keys_of b"
    and "mm_count (bucket_common b k) (entries b) = BUCKET_SIZE"
    and "\<forall>e \<in> set (entries b). fst e \<le> bucket_common b k"
  shows "fst (add_contact True now k ep b) = Abort Undefined_behaviour"
  using add_contact_map [OF assms(1-3), of True now] assms(4-6) by (cases "add_contact True now k ep b") simp

lemma bit_string_to_key:
  "bit (string_to_key s) i \<longleftrightarrow> i < 256 \<and> bit (read_digest s ! (i div 8)) (i mod 8)"
  by (auto simp: string_to_key_def key_simps DIGEST_LENGTH_def)

lemma byte_texts: "read_hex_byte ''01'' = (1, [])" "read_hex_byte ''02'' = (2, [])" "read_hex_byte ''h'' = (0, [])"
  "read_hex_byte ''02g'' = (2, ''g'')" "read_hex_byte ''g'' = (0, [])" "read_hex_byte [] = (0, [])"
  by (simp_all add: read_hex_byte_def stream_char_def strtoul16_byte_def is_space_def hex_value_def)

lemma read_digest_head: "read_digest s ! 0 = fst (read_hex_byte s)"
  using read_digest_loop.simps(2) [of 31 s] by (simp add: read_digest_def DIGEST_LENGTH_def split: prod.split)

lemma crowded_common:
  "c \<in> set ''hijklm'' \<Longrightarrow> bucket_common (new_bucket ''02'') [c] = bucket_common (new_bucket ''02'') ''h''"
  "bucket_common (new_bucket ''02'') ''02g'' = 256" "bucket_common (new_bucket ''02'') ''h'' < 256"
proof -
  have key: "string_to_key [c] = string_to_key ''h''" if "c \<in> set ''hijklm''" for c
    using that no_digit_key [of c] no_digit_key [of "CHR ''h''"] by auto
  then show "c \<in> set ''hijklm'' \<Longrightarrow> bucket_common (new_bucket ''02'') [c] = bucket_common (new_bucket ''02'') ''h''"
    unfolding bucket_common_def by metis
  have "read_digest_loop (Suc n) ''02g'' = read_digest_loop (Suc n) ''02''" for n
    by (cases n) (simp_all add: byte_texts read_digest_loop_Nil)
  from this [of 31] have "string_to_key ''02g'' = string_to_key ''02''"
    by (simp add: string_to_key_def read_digest_def DIGEST_LENGTH_def)
  then show "bucket_common (new_bucket ''02'') ''02g'' = 256" by (simp add: bucket_common_def new_bucket_def)
  have "\<not> bit (string_to_key ''h'') 1" and "bit (string_to_key ''02'') 1"
    using read_digest_head [of "''h''"] read_digest_head [of "''02''"] by (simp_all add: bit_string_to_key byte_texts)
  then have "string_to_key ''02'' \<noteq> string_to_key ''h''" by metis
  then show "bucket_common (new_bucket ''02'') ''h'' < 256"
    using common_bits_full_iff [of "string_to_key ''02''" "string_to_key ''h''"]
      common_bits_le [of "string_to_key ''02''" "string_to_key ''h''"] by (simp add: bucket_common_def new_bucket_def)
qed

lemma crowded_facts:
  defines "c \<equiv> bucket_common (new_bucket ''02'') ''h''"
  shows "bucket_common crowded = bucket_common (new_bucket ''02'')" "local_key crowded = ''02''"
    "map fst (entries crowded) = [c, c, c, c, c, 256]"
    "map (contact_key \<circ> snd) (entries crowded) = [''h'', ''i'', ''j'', ''k'', ''l'', ''02g'']"
    "map (get_time \<circ> snd) (entries crowded) = [5, 3, 8, 9, 7, 2]"
proof -
  have same: "bucket_common (new_bucket ''02'') ''i'' = c" "bucket_common (new_bucket ''02'') ''j'' = c"
    "bucket_common (new_bucket ''02'') ''k'' = c" "bucket_common (new_bucket ''02'') ''l'' = c"
    by (simp_all only: c_def, rule crowded_common(1), simp, rule crowded_common(1), simp, rule crowded_common(1), simp,
      rule crowded_common(1), simp)
  show "bucket_common crowded = bucket_common (new_bucket ''02'')" by (rule ext) (simp add: crowded_def Let_def bucket_common_def)
  show "local_key crowded = ''02''" by (simp add: crowded_def Let_def new_bucket_def)
  show "map fst (entries crowded) = [c, c, c, c, c, 256]"
    by (simp add: crowded_def Let_def same crowded_common(2)) (simp add: c_def)
  show "map (contact_key \<circ> snd) (entries crowded) = [''h'', ''i'', ''j'', ''k'', ''l'', ''02g'']"
    and "map (get_time \<circ> snd) (entries crowded) = [5, 3, 8, 9, 7, 2]"
    by (simp_all add: crowded_def Let_def get_time_def)
qed

lemma crowded_ok: "bucket_ok crowded"
proof -
  have "mm_ok (entries crowded)"
    unfolding mm_ok_def crowded_facts(3) using crowded_common(3) by simp
  moreover have "mm_count i (entries crowded) \<le> BUCKET_SIZE" for i
    using crowded_common(3) unfolding mm_count_fst crowded_facts(3) by (simp add: BUCKET_SIZE_def)
  moreover have "distinct (map (contact_key \<circ> snd) (entries crowded))" unfolding crowded_facts(4) by simp
  moreover have "\<forall>e \<in> set (entries crowded). entry_ok crowded e"
    unfolding entry_ok_def crowded_facts(1,2) by (simp add: crowded_def Let_def good_ep_def has_time_def)
  ultimately show ?thesis by (simp add: bucket_ok_def)
qed

lemma crowded_nth:
  "length (entries crowded) = 6"
  "i < 6 \<Longrightarrow> fst (entries crowded ! i) = (if i < 5 then bucket_common (new_bucket ''02'') ''h'' else 256)"
  "i < 6 \<Longrightarrow> contact_key (snd (entries crowded ! i)) = [''h'', ''i'', ''j'', ''k'', ''l'', ''02g''] ! i"
  "i < 6 \<Longrightarrow> get_time (snd (entries crowded ! i)) = [5, 3, 8, 9, 7, 2] ! i"
proof -
  show len: "length (entries crowded) = 6" using arg_cong [OF crowded_facts(4), of length] by simp
  have six: "i < 5 \<Longrightarrow> [c, c, c, c, c, d] ! i = c" "i = 5 \<Longrightarrow> [c, c, c, c, c, d] ! i = d" for i :: nat and c d :: nat
    by (auto simp: numeral_eq_Suc less_Suc_eq)
  show "i < 6 \<Longrightarrow> fst (entries crowded ! i) = (if i < 5 then bucket_common (new_bucket ''02'') ''h'' else 256)"
    using nth_map [of i "entries crowded" fst] six [of i] unfolding len crowded_facts(3) by auto
  show "i < 6 \<Longrightarrow> contact_key (snd (entries crowded ! i)) = [''h'', ''i'', ''j'', ''k'', ''l'', ''02g''] ! i"
    using nth_map [of i "entries crowded" "contact_key \<circ> snd"] unfolding len crowded_facts(4) by simp
  show "i < 6 \<Longrightarrow> get_time (snd (entries crowded ! i)) = [5, 3, 8, 9, 7, 2] ! i"
    using nth_map [of i "entries crowded" "get_time \<circ> snd"] unfolding len crowded_facts(5) by simp
qed

lemma crowded_new:
  "''m'' \<notin> keys_of crowded" "keys_of crowded = {''h'', ''i'', ''j'', ''k'', ''l'', ''02g''}"
  "i < length (entries crowded) \<and> fst (entries crowded ! i) = bucket_common crowded ''m'' \<longleftrightarrow> i < 5"
  "mm_count (bucket_common crowded ''m'') (entries crowded) = 5"
  "\<not> (\<forall>e \<in> set (entries crowded). fst e \<le> bucket_common crowded ''m'')"
proof -
  let ?c = "bucket_common (new_bucket ''02'') ''h''"
  have m: "bucket_common crowded ''m'' = ?c" using crowded_common(1) [of "CHR ''m''"] by (simp add: crowded_facts(1))
  have "keys_of crowded = set (map (contact_key \<circ> snd) (entries crowded))" by (simp add: keys_of_def)
  then show keys: "keys_of crowded = {''h'', ''i'', ''j'', ''k'', ''l'', ''02g''}" unfolding crowded_facts(4) by simp
  show "''m'' \<notin> keys_of crowded" unfolding keys by simp
  show "i < length (entries crowded) \<and> fst (entries crowded ! i) = bucket_common crowded ''m'' \<longleftrightarrow> i < 5"
    using crowded_nth(1) crowded_nth(2) [of i] crowded_common(3) unfolding m by (cases "i < 5") auto
  show "mm_count (bucket_common crowded ''m'') (entries crowded) = 5"
    unfolding mm_count_fst crowded_facts(3) m using crowded_common(3) by simp
  have "entries crowded ! 5 \<in> set (entries crowded)" by (rule nth_mem) (simp add: crowded_nth(1))
  moreover have "fst (entries crowded ! 5) = 256" by (simp add: crowded_nth(2))
  ultimately show "\<not> (\<forall>e \<in> set (entries crowded). fst e \<le> bucket_common crowded ''m'')"
    unfolding m using crowded_common(3) by (metis not_le)
qed

theorem add_contact_refines_map_update_witness:
  "(case add_contact False 7 ''m'' (Endpoint ''h'' ''2'') crowded of (r, b) \<Rightarrow>
      r = Ok () \<and> dom (contact_map b) = {''h'', ''j'', ''k'', ''l'', ''02g'', ''m''}) \<and>
   (case add_contact True 7 ''m'' (Endpoint ''h'' ''2'') crowded of (r, b) \<Rightarrow>
      r = Ok () \<and> dom (contact_map b) = {''h'', ''i'', ''j'', ''k'', ''02g'', ''m''})"
proof -
  have "r = Ok () \<and> dom (contact_map b) = insert ''m'' (keys_of crowded - {if rhs then ''l'' else ''i''})"
    if run: "add_contact rhs 7 ''m'' (Endpoint ''h'' ''2'') crowded = (r, b)" for rhs r b
  proof -
    have k: "''m'' \<noteq> local_key crowded" and ep: "good_ep (Endpoint ''h'' ''2'')" and full: "BUCKET_SIZE \<le> 5"
      by (simp_all add: crowded_facts(2) good_ep_def BUCKET_SIZE_def)
    have last: "(\<forall>e \<in> set (entries crowded). fst e \<le> bucket_common crowded ''m'') = False"
      and full: "(''m'' \<notin> keys_of crowded \<and> BUCKET_SIZE \<le> 5) = True"
      using crowded_new(1,5) full by blast+
    from add_contact_refines_map_update [OF crowded_ok k ep run,
      unfolded crowded_new(3,4) last full simp_thms if_False if_True]
    obtain gone c i where r: "r = Ok ()" and b: "contact_map b = ((contact_map crowded) |` (- gone))(''m'' \<mapsto> c)" and
      i: "i < 5" "gone = {contact_key (snd (entries crowded ! i))}"
        "\<And>j. j < 5 \<Longrightarrow> get_time (snd (entries crowded ! (if rhs then Suc i else i)))
          \<le> get_time (snd (entries crowded ! (if rhs then Suc j else j)))"
      by auto
    have dom: "dom (contact_map b) = insert ''m'' (keys_of crowded - gone)"
      unfolding b by (auto simp: dom_contact_map [symmetric])
    have "i = (if rhs then 4 else 1)"
    proof (cases rhs)
      case True
      from i(3) [of 4] True have le: "[5, 3, 8, 9, 7, 2] ! Suc i \<le> (2 :: 64 word)" using i(1) by (simp add: crowded_nth(4))
      from i(1) consider "i = 0" | "i = 1" | "i = 2" | "i = 3" | "i = 4" by linarith
      then show ?thesis using le True by cases simp_all
    next
      case False
      from i(3) [of 1] False have le: "[5, 3, 8, 9, 7, 2] ! i \<le> (3 :: 64 word)" using i(1) by (simp add: crowded_nth(4))
      from i(1) consider "i = 0" | "i = 1" | "i = 2" | "i = 3" | "i = 4" by linarith
      then show ?thesis using le False by cases simp_all
    qed
    then have "gone = {if rhs then ''l'' else ''i''}" using i(2) by (simp add: crowded_nth(3))
    with r dom show ?thesis by simp
  qed
  note run = this [unfolded crowded_new(2)]
  show ?thesis by (intro conjI; clarsimp split: prod.split; drule run; auto)
qed

lemma removed_at_most_one:
  assumes "removed ep 0 m m'" and "length (filter (at_endpoint ep) m) \<le> 1"
  shows "m' = filter (\<lambda>e. \<not> at_endpoint ep e) m"
proof -
  let ?P = "at_endpoint ep"
  have f: "filter (\<lambda>e. \<not> ?P e) m' = filter (\<lambda>e. \<not> ?P e) m"
    and split: "m' = m \<and> (\<forall>j < length m'. \<not> ?P (m' ! j)) \<or> length m' < length m"
    using assms(1) by (auto simp: removed_def)
  have "filter ?P m' = []"
    using split
  proof
    assume "m' = m \<and> (\<forall>j < length m'. \<not> ?P (m' ! j))"
    then have "\<not> ?P e" if "e \<in> set m'" for e using that by (metis in_set_conv_nth)
    then show ?thesis by (simp add: filter_empty_conv)
  next
    assume "length m' < length m"
    then have "length (filter ?P m') < length (filter ?P m)"
      using sum_length_filter_compl [of ?P m] sum_length_filter_compl [of ?P m'] f by simp
    with assms(2) have "length (filter ?P m') = 0" by linarith
    then show ?thesis by simp
  qed
  then have "filter (\<lambda>e. \<not> ?P e) m' = m'" by (auto simp: filter_empty_conv filter_id_conv)
  with f show ?thesis by simp
qed

lemma removed_tail:
  assumes "removed ep 0 m m'"
  shows "\<forall>e \<in> set (tl m'). \<not> at_endpoint ep e"
proof
  fix e assume "e \<in> set (tl m')"
  then obtain j where j: "j < length (tl m')" "tl m' ! j = e" unfolding in_set_conv_nth by blast
  then have "Suc j < length m'" and e: "m' ! Suc j = e" by (simp_all add: nth_tl)
  moreover have "1 \<le> Suc j" by simp
  ultimately have "\<not> at_endpoint ep (m' ! Suc j)" using assms unfolding removed_def by blast
  with e show "\<not> at_endpoint ep e" by simp
qed

lemma remove_only_contact:
  assumes "entries b = [e]" and "contact_ep (snd e) = ep" and "good_ep ep" and "good_ep (contact_ep (snd e))"
  shows "fst (remove_contact ep b) = Abort Undefined_behaviour"
proof -
  have "endpoint_eq (contact_ep (snd e)) ep = Ok True" using assms(2-4) by (simp add: endpoint_eq_good)
  with assms(1) have "remove_loop ep 0 (entries b) = (Abort Undefined_behaviour, [])"
    by (subst remove_loop.simps) (simp add: erase_at_def)
  then show ?thesis by (simp add: remove_contact_def)
qed

text \<open>
  C38 \<open>remove_contact\<close> either returns or steps past the end of an emptied table.  When it returns
  it has removed no contact of another endpoint, and it has removed every contact of the endpoint
  unless one is left at the head of the table; with at most one contact of that endpoint it removes
  exactly that one.  It is undefined only when every contact of the table has that endpoint, and
  then always when there is one contact.
\<close>

theorem remove_contact_effect:
  assumes "bucket_ok b" and "good_ep ep"
  shows "(case remove_contact ep b of
      (Ok _, b') \<Rightarrow>
        filter (\<lambda>e. \<not> at_endpoint ep e) (entries b') = filter (\<lambda>e. \<not> at_endpoint ep e) (entries b) \<and>
        (\<forall>e \<in> set (tl (entries b')). \<not> at_endpoint ep e) \<and>
        (length (filter (at_endpoint ep) (entries b)) \<le> 1 \<longrightarrow>
           entries b' = filter (\<lambda>e. \<not> at_endpoint ep e) (entries b))
    | (Throw _, _) \<Rightarrow> False
    | (Abort f, _) \<Rightarrow> f = Undefined_behaviour \<and> entries b \<noteq> [] \<and>
        (\<forall>e \<in> set (entries b). at_endpoint ep e)) \<and>
    (\<forall>e. entries b = [e] \<and> at_endpoint ep e \<longrightarrow>
      fst (remove_contact ep b) = Abort Undefined_behaviour)"
proof
  have good: "\<forall>e \<in> set (entries b). good_ep (contact_ep (snd e))"
    using assms(1) by (auto simp: bucket_ok_def entry_ok_def)
  show "\<forall>e. entries b = [e] \<and> at_endpoint ep e \<longrightarrow> fst (remove_contact ep b) = Abort Undefined_behaviour"
  proof (intro allI impI, elim conjE)
    fix e assume e: "entries b = [e]" "at_endpoint ep e"
    from good e(1) have "good_ep (contact_ep (snd e))" by simp
    from remove_only_contact [OF e assms(2) this] show "fst (remove_contact ep b) = Abort Undefined_behaviour" .
  qed
  from remove_loop_result [OF assms(2) good, of 0] show "case remove_contact ep b of
      (Ok _, b') \<Rightarrow>
        filter (\<lambda>e. \<not> at_endpoint ep e) (entries b') = filter (\<lambda>e. \<not> at_endpoint ep e) (entries b) \<and>
        (\<forall>e \<in> set (tl (entries b')). \<not> at_endpoint ep e) \<and>
        (length (filter (at_endpoint ep) (entries b)) \<le> 1 \<longrightarrow>
           entries b' = filter (\<lambda>e. \<not> at_endpoint ep e) (entries b))
    | (Throw _, _) \<Rightarrow> False
    | (Abort f, _) \<Rightarrow> f = Undefined_behaviour \<and> entries b \<noteq> [] \<and>
        (\<forall>e \<in> set (entries b). at_endpoint ep e)"
  proof (elim disjE exE conjE)
    fix m' assume "remove_loop ep 0 (entries b) = (Ok (), m')" and removed: "removed ep 0 (entries b) m'"
    then have run: "remove_contact ep b = (Ok (), b\<lparr>entries := m'\<rparr>)" by (simp add: remove_contact_def)
    have m': "entries (b\<lparr>entries := m'\<rparr>) = m'" by simp
    have "filter (\<lambda>e. \<not> at_endpoint ep e) m' = filter (\<lambda>e. \<not> at_endpoint ep e) (entries b)"
      using removed unfolding removed_def by blast
    then show ?thesis
      using removed_at_most_one [OF removed] removed_tail [OF removed] by (simp only: run prod.case outcome.case m') blast
  qed (simp add: remove_contact_def)
qed

text \<open>
  The table of a node that knows one contact, and of one whose first bucket is full, for the
  concrete instances below.
\<close>

definition one_contact :: bucket where
  "one_contact = snd (add_contact False 7 ''01'' (Endpoint ''h'' ''1'') (new_bucket ''02''))"

theorem remove_contact_effect_witness:
  "fst (remove_contact (Endpoint ''h'' ''1'') one_contact) = Abort Undefined_behaviour"
proof -
  have ok: "bucket_ok one_contact"
    unfolding one_contact_def by (intro add_contact_preserves new_bucket_ok)
  have "\<exists>e. entries one_contact = [e] \<and> at_endpoint (Endpoint ''h'' ''1'') e"
    by (simp add: one_contact_def add_contact_def new_bucket_def Let_def find_key_def mm_count_def
        make_room_def BUCKET_SIZE_def)
  then show ?thesis
    using remove_contact_effect [OF ok, of "Endpoint ''h'' ''1''"] by (auto simp: good_ep_def)
qed

text \<open>
  The key \<open>random_key_in_bucket(bn)\<close> draws is not in bucket \<open>bn\<close>: it keeps the low bits
  where the buckets count the high ones, and printing reverses its bytes.  For \<open>8 \<le> bn\<close> and half of
  all node keys (those whose bits 255 and 7 differ) it always lies in bucket 0.
\<close>

lemma random_key_misses_bucket:
  assumes "8 \<le> bn" and "bn < KEY_SIZE"
    and "bit (string_to_key (local_key b)) 255 \<noteq> bit (string_to_key (local_key b)) 7"
  shows "bucket_common b (random_key_in_bucket rnd pos b bn) = 0 \<and>
    bucket_common b (random_key_in_bucket rnd pos b bn) \<noteq> bn"
proof -
  let ?r = "random_key_in_bucket rnd pos b bn"
  have "bit (string_to_key (local_key b)) 255 \<noteq> bit (string_to_key ?r) 255"
    using random_key_top_bit [OF assms(1), of rnd pos b] assms(3) by blast
  then have "bucket_common b ?r = 0"
    using common_bits_eq_iff [of 0 "string_to_key (local_key b)" "string_to_key ?r"]
    by (auto simp: bucket_common_def)
  then show ?thesis using assms(1) by simp
qed

lemma random_key_misses_bucket_example:
  "let b = new_bucket (print_digest (replicate 31 0 @ [128]))
   in bucket_common b (random_key_in_bucket (\<lambda>i. i) 0 b 9) = 0"
proof -
  let ?d = "replicate 31 0 @ [128] :: digest"
  have d: "read_digest (print_digest ?d) = ?d" by (simp add: read_print_digest DIGEST_LENGTH_def)
  have "?d ! 31 = 128" and "?d ! 0 = 0" by (simp_all add: nth_append)
  then show ?thesis
    using random_key_misses_bucket [of 9 "new_bucket (print_digest ?d)" "\<lambda>i. i" 0]
    by (simp add: Let_def new_bucket_def KEY_SIZE_def bit_string_to_key d)
qed

lemma word_not_less_iff: "NOT a < NOT b \<longleftrightarrow> b < (a :: 'a::len word)"
  unfolding word_less_iff_top_bit by (auto simp: bit_not_iff)

text \<open>
  C37 A fresh proximity table lists every contact once, the farthest from the key first: it is
  sorted by the complement of the exclusive-or distance.  The table that is not fresh is returned
  as it is, whatever the key.
\<close>

theorem proximity_lists_contacts_farthest_first:
  assumes "inj_on string_to_key (keys_of b)"
  shows "case bucket_build_proximity k b of (r, b') \<Rightarrow>
    if changed b
    then \<exists>mp. r = Ok mp \<and> map_proximity b' = mp \<and> \<not> changed b' \<and>
      snd ` set mp = keys_of b \<and> distinct (map snd mp) \<and>
      sorted_wrt (\<lambda>x y. string_to_key k XOR string_to_key (snd y) <
        string_to_key k XOR string_to_key (snd x)) mp
    else r = Ok (map_proximity b) \<and> b' = b"
proof (cases "changed b")
  case False
  then show ?thesis by (simp add: bucket_build_proximity_def)
next
  case True
  let ?sk = "string_to_key k"
  let ?mp = "proximity_loop ?sk (entries b) []"
  have s: "set ?mp = (\<lambda>k. (proximity_code ?sk k, k)) ` keys_of b"
    by (rule proximity_fresh_set [OF assms])
  have ok: "omap_ok ?mp" by (simp add: proximity_loop_ok)
  have less: "proximity_code ?sk x < proximity_code ?sk y \<longleftrightarrow>
      ?sk XOR string_to_key y < ?sk XOR string_to_key x" for x y
    by (simp add: proximity_code_def bitset_to_string_less_iff word_not_less_iff)
  have srt: "sorted_wrt (\<lambda>x y. ?sk XOR string_to_key (snd y) < ?sk XOR string_to_key (snd x)) ?mp"
    using ok [unfolded omap_ok_def sorted_wrt_map] s
    by (elim sorted_wrt_mono_rel [rotated]) (auto simp: less)
  have d: "distinct (map snd ?mp)"
    using srt by (auto simp: distinct_conv_nth sorted_wrt_iff_nth_less) (metis linorder_neqE_nat order.irrefl)
  have "snd ` set ?mp = keys_of b" unfolding s by (simp add: image_image)
  with srt d True show ?thesis by (simp add: build_proximity_fresh)
qed

text \<open>A table with two contacts, asked for the key of the first one.\<close>

lemma demo_keys_differ: "string_to_key ''01'' \<noteq> string_to_key ''02''"
proof -
  have "bit (string_to_key ''01'') 0" and "\<not> bit (string_to_key ''02'') 0"
    using read_digest_head [of "''01''"] read_digest_head [of "''02''"]
    by (simp_all add: bit_string_to_key byte_texts)
  then show ?thesis by metis
qed

definition two_contacts :: bucket where
  "two_contacts = (let b = new_bucket ''03''; entry = (\<lambda>k. (bucket_common b k,
       \<lparr>contact_key = k, contact_ep = Endpoint ''h'' ''1'', contact_time = Some 0\<rparr>))
     in b\<lparr>entries := [entry ''01'', entry ''02'']\<rparr>)"

theorem proximity_lists_contacts_farthest_first_witness:
  "\<exists>mp. fst (bucket_build_proximity ''01'' two_contacts) = Ok mp \<and> map snd mp = [''02'', ''01'']"
proof -
  have keys: "keys_of two_contacts = {''01'', ''02''}" and fresh: "changed two_contacts"
    by (simp_all add: keys_of_def two_contacts_def Let_def new_bucket_def)
  have "inj_on string_to_key (keys_of two_contacts)"
    using demo_keys_differ by (auto simp: keys inj_on_def)
  moreover obtain r b where run: "bucket_build_proximity ''01'' two_contacts = (r, b)" by fastforce
  ultimately obtain mp where r: "r = Ok mp" and mp: "snd ` set mp = {''01'', ''02''}" "distinct (map snd mp)"
      "sorted_wrt (\<lambda>x y. string_to_key ''01'' XOR string_to_key (snd y) < string_to_key ''01'' XOR string_to_key (snd x)) mp"
    using proximity_lists_contacts_farthest_first [of two_contacts "''01''"] fresh by (simp only: run prod.case if_True keys) blast
  from mp(1,2) have "length (map snd mp) = card {''01'', ''02''}" by (metis distinct_card list.set_map)
  then obtain x y where xy: "mp = [x, y]" by (auto simp: numeral_2_eq_2 length_Suc_conv)
  then have "{snd x, snd y} = {''01'', ''02''}" using mp(1) by simp
  then have "map snd mp = [''02'', ''01''] \<or> map snd mp = [''01'', ''02'']" unfolding xy by (auto simp: doubleton_eq_iff)
  moreover have "map snd mp \<noteq> [''01'', ''02'']" using mp(3) by (auto simp: xy)
  ultimately show ?thesis using run r by auto
qed

definition full_table :: bucket where
  "full_table = \<lparr>entries = map (\<lambda>c. (256, \<lparr>contact_key = [c], contact_ep = Endpoint ''h'' ''1'',
      contact_time = Some 0\<rparr>)) ''hijkl'', local_key = ''g'', map_proximity = [], changed = True,
      now_ = None\<rparr>"

lemma full_table_common: "c \<in> set ''hijklm'' \<Longrightarrow> bucket_common full_table [c] = 256"
  using no_digit_key [of c] by (simp add: bucket_common_def full_table_def)

lemma full_table_ok: "bucket_ok full_table"
proof -
  have "entry_ok full_table e" if entry: "e \<in> set (entries full_table)" for e
  proof -
    from entry obtain c where "c \<in> set ''hijkl''" and e: "e = (256, \<lparr>contact_key = [c],
        contact_ep = Endpoint ''h'' ''1'', contact_time = Some 0\<rparr>)"
      unfolding full_table_def bucket.select_convs set_map by blast
    then have "c \<in> set ''hijklm''" and "c \<noteq> CHR ''g''" by auto
    moreover have "local_key full_table = ''g''" by (simp add: full_table_def)
    ultimately show ?thesis
      using full_table_common [of c] by (simp add: e entry_ok_def good_ep_def has_time_def)
  qed
  moreover have "mm_count i (entries full_table) \<le> BUCKET_SIZE" for i
    using length_filter_le [of "\<lambda>e. fst e = i" "entries full_table"]
    by (simp add: mm_count_def BUCKET_SIZE_def full_table_def)
  moreover have "mm_ok (entries full_table)"
    and "distinct (map (contact_key \<circ> snd) (entries full_table))"
    by (simp_all add: full_table_def)
  ultimately show ?thesis by (simp add: bucket_ok_def)
qed

lemma full_last_bucket_reads_past_end_example:
  "fst (add_contact True 7 ''m'' (Endpoint ''h'' ''2'') full_table) = Abort Undefined_behaviour"
proof (rule full_last_bucket_reads_past_end [OF full_table_ok])
  show "mm_count (bucket_common full_table ''m'') (entries full_table) = BUCKET_SIZE"
    and "\<forall>e \<in> set (entries full_table). fst e \<le> bucket_common full_table ''m''"
    using full_table_common [of "CHR ''m''"]
    by (auto simp: mm_count_def BUCKET_SIZE_def full_table_def)
qed (auto simp: full_table_def good_ep_def keys_of_def)

end
