(* ===== verification/Search.thy ===== *)
theory Search
  imports Messages
begin

text \<open>
  One iterative lookup: class \<open>search\<close> of \<open>Sources/miniDHT_search.h\<close> and
  \<open>Sources/miniDHT_search.cpp\<close>.  A search keeps the contacts nearest to its destination (the short
  list) and which of them it has already queried (\<open>map_node_busy\<close>) or stored to
  (\<open>map_value_busy\<close>).  The callbacks are identifiers; no value is an empty \<open>boost::function\<close>.
\<close>

section \<open>State\<close>

datatype search_type_t = NODE_SEARCH | VALUE_SEARCH | STORE_SEARCH

record search =
  short_list :: "contact_proto list"
  map_node_busy :: "(key_text \<times> bool) list"
  map_value_busy :: "(key_text \<times> bool) list"
  search_ttl :: int
  destination :: key_text
  source :: key_text
  search_type :: search_type_t
  node_callback_valid :: bool
  node_callback :: "nat option"
  value_callback :: "nat option"
  buffer :: data_item_proto
  bucket_nb :: nat
  hint :: string

definition new_search :: "int \<Rightarrow> key_text \<Rightarrow> key_text \<Rightarrow> search_type_t \<Rightarrow> search" where
  "new_search now src dest t =
     \<lparr>short_list = [], map_node_busy = [], map_value_busy = [], search_ttl = now,
      destination = dest, source = src, search_type = t, node_callback_valid = False,
      node_callback = None, value_callback = None, buffer = default_item,
      bucket_nb = common_bits (string_to_key dest) (string_to_key src), hint = []\<rparr>"

text \<open>The key text of 64 zeros, which the code asserts away.\<close>

definition zero_key_text :: key_text where
  "zero_key_text = replicate 64 (CHR ''0'')"

section \<open>Queries on the short list\<close>

text \<open>Every loop over the short list asserts that the endpoints it passes are complete.\<close>

fun nb_left_loop :: "(key_text \<times> bool) list \<Rightarrow> contact_proto list \<Rightarrow> nat \<Rightarrow> nat outcome" where
  "nb_left_loop busy [] i = Ok i"
| "nb_left_loop busy (c # cs) i =
     (if address (contact_ep c) = [] \<or> port (contact_ep c) = [] then Abort Assertion_failed
      else nb_left_loop busy cs (if \<not> omap_has (contact_key c) busy then Suc i else i))"

definition nb_node_left :: "search \<Rightarrow> nat outcome" where
  "nb_node_left s = nb_left_loop (map_node_busy s) (short_list s) 0"

fun is_full_loop :: "(key_text \<times> bool) list \<Rightarrow> contact_proto list \<Rightarrow> bool outcome" where
  "is_full_loop busy [] = Ok True"
| "is_full_loop busy (c # cs) =
     (if address (contact_ep c) = [] \<or> port (contact_ep c) = [] then Abort Assertion_failed
      else if \<not> omap_has (contact_key c) busy then Ok False
      else is_full_loop busy cs)"

definition is_node_full :: "search \<Rightarrow> bool outcome" where
  "is_node_full s = is_full_loop (map_node_busy s) (short_list s)"

definition is_value_full :: "search \<Rightarrow> bool outcome" where
  "is_value_full s = is_full_loop (map_value_busy s) (short_list s)"

fun in_bucket_loop :: "search \<Rightarrow> contact_proto list \<Rightarrow> nat \<Rightarrow> nat outcome" where
  "in_bucket_loop s [] nb = Ok nb"
| "in_bucket_loop s (c # cs) nb =
     (if address (contact_ep c) = [] \<or> port (contact_ep c) = [] then Abort Assertion_failed
      else in_bucket_loop s cs
        (if common_bits (string_to_key (contact_key c)) (string_to_key (destination s)) = bucket_nb s
         then Suc nb else nb))"

definition short_list_in_bucket :: "search \<Rightarrow> nat outcome" where
  "short_list_in_bucket s = in_bucket_loop s (short_list s) 0"

definition is_bucket_full :: "search \<Rightarrow> bool outcome" where
  "is_bucket_full s =
     (case short_list_in_bucket s of
        Ok n \<Rightarrow> if n \<ge> BUCKET_SIZE then Ok True else is_node_full s
      | Throw e \<Rightarrow> Throw e
      | Abort f \<Rightarrow> Abort f)"

section \<open>Picking the next contact\<close>

text \<open>
  The loop of the four \<open>get_...\<close> functions: the first contact that is not busy.  The two that
  return a key also assert that no key they pass is the zero key.
\<close>

fun pick_loop :: "bool \<Rightarrow> (key_text \<times> bool) list \<Rightarrow> contact_proto list \<Rightarrow> contact_proto option outcome" where
  "pick_loop check_zero busy [] = Ok None"
| "pick_loop check_zero busy (c # cs) =
     (if check_zero \<and> contact_key c = zero_key_text then Abort Assertion_failed
      else if address (contact_ep c) = [] \<or> port (contact_ep c) = [] then Abort Assertion_failed
      else if \<not> omap_has (contact_key c) busy then Ok (Some c)
      else pick_loop check_zero busy cs)"

definition get_node_endpoint :: "(search, endpoint_proto) cpp" where
  "get_node_endpoint = (\<lambda>s. case pick_loop False (map_node_busy s) (short_list s) of
       Ok (Some c) \<Rightarrow>
         (Ok (contact_ep c), s\<lparr>map_node_busy := omap_put (contact_key c) True (map_node_busy s)\<rparr>)
     | Ok None \<Rightarrow> (Throw (String_exception ''no endpoint found!''), s)
     | Throw e \<Rightarrow> (Throw e, s)
     | Abort f \<Rightarrow> (Abort f, s))"

definition get_node_key :: "(search, key_text) cpp" where
  "get_node_key = (\<lambda>s. case pick_loop True (map_node_busy s) (short_list s) of
       Ok (Some c) \<Rightarrow>
         (Ok (contact_key c), s\<lparr>map_node_busy := omap_put (contact_key c) True (map_node_busy s)\<rparr>)
     | Ok None \<Rightarrow> (Throw (String_exception ''no key found!''), s)
     | Throw e \<Rightarrow> (Throw e, s)
     | Abort f \<Rightarrow> (Abort f, s))"

definition get_value_endpoint :: "(search, endpoint_proto) cpp" where
  "get_value_endpoint = (\<lambda>s. case pick_loop False (map_value_busy s) (short_list s) of
       Ok (Some c) \<Rightarrow>
         (Ok (contact_ep c), s\<lparr>map_value_busy := omap_put (contact_key c) True (map_value_busy s)\<rparr>)
     | Ok None \<Rightarrow> (Throw (Std_exception ''no endpoint found!''), s)
     | Throw e \<Rightarrow> (Throw e, s)
     | Abort f \<Rightarrow> (Abort f, s))"

definition get_value_key :: "(search, key_text) cpp" where
  "get_value_key = (\<lambda>s. case pick_loop True (map_value_busy s) (short_list s) of
       Ok (Some c) \<Rightarrow>
         (Ok (contact_key c), s\<lparr>map_value_busy := omap_put (contact_key c) True (map_value_busy s)\<rparr>)
     | Ok None \<Rightarrow> (Throw (Std_exception ''no key found!''), s)
     | Throw e \<Rightarrow> (Throw e, s)
     | Abort f \<Rightarrow> (Abort f, s))"

section \<open>Updating the short list\<close>

text \<open>
  \<open>map_sorted[(source_bs ^ dest_bs).to_string()] = c\<close> for the new contacts, then for the ones the
  search has; the first \<open>BUCKET_SIZE\<close> entries are the new short list.
\<close>

fun sort_loop :: "key \<Rightarrow> contact_proto list \<Rightarrow> (string \<times> contact_proto) list \<Rightarrow> (string \<times> contact_proto) list"
where
  "sort_loop dest_bs [] ms = ms"
| "sort_loop dest_bs (c # cs) ms =
     (let source_bs = string_to_key (contact_key c)
      in sort_loop dest_bs cs (omap_put (bitset_to_string (source_bs XOR dest_bs)) c ms))"

fun fill_temp :: "(string \<times> contact_proto) list \<Rightarrow> contact_proto list \<Rightarrow> contact_proto list" where
  "fill_temp [] temp = temp"
| "fill_temp (e # es) temp =
     (let temp' = temp @ [snd e]
      in if length temp' \<ge> BUCKET_SIZE then temp' else fill_temp es temp')"

fun list_eq_loop :: "contact_proto list \<Rightarrow> contact_proto list \<Rightarrow> bool outcome" where
  "list_eq_loop (x # xs) (y # ys) =
     (case contact_eq x y of
        Ok eq \<Rightarrow> if eq then list_eq_loop xs ys else Ok False
      | Throw e \<Rightarrow> Throw e
      | Abort f \<Rightarrow> Abort f)"
| "list_eq_loop xs ys = Ok True"

definition contact_list_eq :: "contact_proto list \<Rightarrow> contact_proto list \<Rightarrow> bool outcome" where
  "contact_list_eq xs ys = (if length xs \<noteq> length ys then Ok False else list_eq_loop xs ys)"

definition new_short_list :: "search \<Rightarrow> contact_proto list \<Rightarrow> contact_proto list" where
  "new_short_list s lc =
     (let dest_bs = string_to_key (destination s);
          map_sorted = sort_loop dest_bs (short_list s) (sort_loop dest_bs lc [])
      in fill_temp map_sorted [])"

definition update_list :: "contact_proto list \<Rightarrow> (search, bool) cpp" where
  "update_list lc = (\<lambda>s.
     if length lc = 0 then (is_bucket_full s, s)
     else
       let temp = new_short_list s lc
       in case (if short_list s \<noteq> [] then contact_list_eq (short_list s) temp else Ok False) of
            Ok same \<Rightarrow>
              (if same then (Ok True, s)
               else let s' = s\<lparr>short_list := temp\<rparr> in (is_bucket_full s', s'))
          | Throw e \<Rightarrow> (Throw e, s)
          | Abort f \<Rightarrow> (Abort f, s))"

text \<open>What \<open>call_node_callback\<close> hands to the callback.\<close>

definition node_callback_keys :: "search \<Rightarrow> key_text list" where
  "node_callback_keys s = map contact_key (short_list s)"

section \<open>The short list in terms of its contacts\<close>

definition short_good :: "search \<Rightarrow> bool" where
  "short_good s \<longleftrightarrow> (\<forall>c \<in> set (short_list s). good_ep (contact_ep c))"

definition short_nonzero :: "search \<Rightarrow> bool" where
  "short_nonzero s \<longleftrightarrow> (\<forall>c \<in> set (short_list s). contact_key c \<noteq> zero_key_text)"

lemma is_full_loop_good:
  "\<forall>c \<in> set cs. good_ep (contact_ep c) \<Longrightarrow>
     is_full_loop busy cs = Ok (\<forall>c \<in> set cs. omap_has (contact_key c) busy)"
  by (induction cs) (auto simp: good_ep_def)

lemma nb_left_loop_good:
  "\<forall>c \<in> set cs. good_ep (contact_ep c) \<Longrightarrow>
     nb_left_loop busy cs i = Ok (i + length (filter (\<lambda>c. \<not> omap_has (contact_key c) busy) cs))"
  by (induction cs arbitrary: i) (auto simp: good_ep_def)

lemma in_bucket_loop_good:
  "\<forall>c \<in> set cs. good_ep (contact_ep c) \<Longrightarrow>
     in_bucket_loop s cs n = Ok (n + length (filter (\<lambda>c.
       common_bits (string_to_key (contact_key c)) (string_to_key (destination s)) = bucket_nb s) cs))"
  by (induction cs arbitrary: n) (auto simp: good_ep_def)

lemma is_bucket_full_good:
  "short_good s \<Longrightarrow> is_bucket_full s = Ok (
     BUCKET_SIZE \<le> length (filter (\<lambda>c.
       common_bits (string_to_key (contact_key c)) (string_to_key (destination s)) = bucket_nb s)
       (short_list s)) \<or>
     (\<forall>c \<in> set (short_list s). omap_has (contact_key c) (map_node_busy s)))"
  by (simp add: is_bucket_full_def short_list_in_bucket_def is_node_full_def short_good_def
      in_bucket_loop_good is_full_loop_good)

lemma pick_loop_good:
  assumes "\<forall>c \<in> set cs. good_ep (contact_ep c)"
    and "z \<longrightarrow> (\<forall>c \<in> set cs. contact_key c \<noteq> zero_key_text)"
  shows "pick_loop z busy cs = Ok (find (\<lambda>c. \<not> omap_has (contact_key c) busy) cs)"
  using assms by (induction cs) (auto simp: good_ep_def)

lemma contact_list_eq_good:
  assumes "\<forall>c \<in> set xs. good_ep (contact_ep c)" and "\<forall>c \<in> set ys. good_ep (contact_ep c)"
  shows "contact_list_eq xs ys = Ok (xs = ys)"
proof -
  have "list_eq_loop xs ys = Ok (xs = ys)" if "length xs = length ys"
    using that assms by (induction xs ys rule: list_eq_loop.induct) (auto simp: contact_eq_good)
  then show ?thesis by (auto simp: contact_list_eq_def)
qed

lemma fill_temp_take: "length temp < BUCKET_SIZE \<Longrightarrow>
    fill_temp es temp = temp @ take (BUCKET_SIZE - length temp) (map snd es)"
proof (induction es arbitrary: temp)
  case Nil
  then show ?case by simp
next
  case (Cons e es)
  show ?case
  proof (cases "Suc (length temp) < BUCKET_SIZE")
    case True
    then have "BUCKET_SIZE - length temp = Suc (BUCKET_SIZE - Suc (length temp))" by simp
    with True Cons.IH [of "temp @ [snd e]"] show ?thesis by simp
  next
    case False
    with Cons.prems have "BUCKET_SIZE - length temp = 1" by simp
    with False show ?thesis by simp
  qed
qed

section \<open>The contract of the two pickers\<close>

text \<open>
  \<open>get_node_key\<close> with \<open>is_node_full\<close> and \<open>get_value_key\<close> with \<open>is_value_full\<close> share a contract:
  a record of the contacts already picked, a test that none is left, and a pick that returns the
  first one left and records it.  The client loops of the node rest on this contract alone.
\<close>

definition open_keys :: "(key_text \<times> bool) list \<Rightarrow> search \<Rightarrow> key_text list" where
  "open_keys busy s = filter (\<lambda>k. \<not> omap_has k busy) (map contact_key (short_list s))"

definition short_distinct :: "search \<Rightarrow> bool" where
  "short_distinct s \<longleftrightarrow> distinct (map contact_key (short_list s))"

definition short_ok :: "search \<Rightarrow> bool" where
  "short_ok s \<longleftrightarrow> short_good s \<and> short_nonzero s \<and> short_distinct s"

lemma short_ok_list: "short_list s = short_list s' \<Longrightarrow> short_ok s = short_ok s'"
  by (simp add: short_ok_def short_good_def short_nonzero_def short_distinct_def)

lemma find_filter_hd: "filter P xs = c # cs \<Longrightarrow> find P xs = Some c"
  by (induction xs) (auto split: if_splits)

lemma filter_notin_tl:
  assumes "distinct xs" and "filter P xs = k # ks"
  shows "filter (\<lambda>x. x \<noteq> k \<and> P x) xs = ks"
proof -
  have "filter (\<lambda>x. x \<noteq> k \<and> P x) xs = filter (\<lambda>x. x \<noteq> k) (filter P xs)"
    by (simp add: conj_commute)
  also have "\<dots> = filter (\<lambda>x. x \<noteq> k) ks" by (simp add: assms(2))
  also have "\<dots> = ks"
    using distinct_filter [OF assms(1), of P] assms(2) by (auto simp: filter_id_conv)
  finally show ?thesis .
qed

fun pick_many :: "(search \<Rightarrow> bool outcome) \<Rightarrow> (search, key_text) cpp \<Rightarrow> nat \<Rightarrow> (search, key_text list) cpp"
where
  "pick_many full pick 0 = ret []"
| "pick_many full pick (Suc n) =
     bnd (\<lambda>s. (full s, s)) (\<lambda>f. if f then ret []
       else bnd pick (\<lambda>k. bnd (pick_many full pick n) (\<lambda>ks. ret (k # ks))))"

locale contact_picker =
  fixes busy :: "search \<Rightarrow> (key_text \<times> bool) list"
    and full :: "search \<Rightarrow> bool outcome"
    and pick :: "(search, key_text) cpp"
  assumes full_iff: "short_good s \<Longrightarrow>
      full s = Ok (\<forall>c \<in> set (short_list s). omap_has (contact_key c) (busy s))"
    and pick_next: "short_good s \<Longrightarrow> short_nonzero s \<Longrightarrow>
      find (\<lambda>c. \<not> omap_has (contact_key c) (busy s)) (short_list s) = Some c \<Longrightarrow>
      fst (pick s) = Ok (contact_key c) \<and> short_list (snd (pick s)) = short_list s \<and>
      (\<forall>k. omap_has k (busy (snd (pick s))) \<longleftrightarrow> k = contact_key c \<or> omap_has k (busy s))"
begin

definition open_of :: "search \<Rightarrow> key_text list" where
  "open_of s = open_keys (busy s) s"

lemma full_iff_open: "short_ok s \<Longrightarrow> full s = Ok (open_of s = [])"
  by (auto simp: full_iff short_ok_def open_of_def open_keys_def filter_empty_conv)

lemma pick_step:
  assumes ok: "short_ok s" and "open_of s = k # ks"
  shows "fst (pick s) = Ok k" and "open_of (snd (pick s)) = ks"
    and "short_list (snd (pick s)) = short_list s"
proof -
  let ?P = "\<lambda>c. \<not> omap_has (contact_key c) (busy s)"
  let ?Q = "\<lambda>k. \<not> omap_has k (busy s)"
  have "map contact_key (filter ?P (short_list s)) = k # ks"
    using assms(2) by (simp add: open_of_def open_keys_def filter_map comp_def)
  then obtain c cs where c: "filter ?P (short_list s) = c # cs" "contact_key c = k" by auto
  have find: "find ?P (short_list s) = Some c" by (rule find_filter_hd [OF c(1)])
  have p: "fst (pick s) = Ok k \<and> short_list (snd (pick s)) = short_list s \<and>
      (\<forall>j. omap_has j (busy (snd (pick s))) \<longleftrightarrow> j = k \<or> omap_has j (busy s))"
    using pick_next [OF _ _ find] ok c(2) by (simp add: short_ok_def)
  then show "fst (pick s) = Ok k" and eq: "short_list (snd (pick s)) = short_list s" by auto
  have "filter (\<lambda>x. x \<noteq> k \<and> ?Q x) (map contact_key (short_list s)) = ks"
    using ok assms(2)
    by (intro filter_notin_tl) (simp_all add: short_ok_def short_distinct_def open_of_def open_keys_def)
  then show "open_of (snd (pick s)) = ks" using p by (simp add: open_of_def open_keys_def)
qed

text \<open>Picking up to \<open>n\<close> times yields the first \<open>n\<close> contacts left, and leaves the rest.\<close>

lemma pick_many_takes:
  assumes "short_ok s"
  shows "fst (pick_many full pick n s) = Ok (take n (open_of s)) \<and>
    open_of (snd (pick_many full pick n s)) = drop n (open_of s) \<and>
    short_list (snd (pick_many full pick n s)) = short_list s"
  using assms
proof (induction n arbitrary: s)
  case 0
  show ?case by (simp add: cpp_simps)
next
  case (Suc n)
  show ?case
  proof (cases "open_of s")
    case Nil
    then show ?thesis by (simp add: cpp_simps full_iff_open [OF Suc.prems])
  next
    case (Cons k ks)
    obtain r s1 where pick: "pick s = (r, s1)" by fastforce
    with pick_step [OF Suc.prems Cons]
    have r: "r = Ok k" and s1: "open_of s1 = ks" "short_list s1 = short_list s" by auto
    obtain q s2 where many: "pick_many full pick n s1 = (q, s2)" by fastforce
    have "short_ok s1" using Suc.prems s1(2) short_ok_list by metis
    from Suc.IH [OF this] many s1 have "q = Ok (take n ks)" "open_of s2 = drop n ks"
      "short_list s2 = short_list s" by auto
    then show ?thesis
      by (simp add: cpp_simps full_iff_open [OF Suc.prems] Cons pick r many)
  qed
qed

end

lemma pick_next_of_loop:
  assumes "short_good s" and "short_nonzero s"
    and "find (\<lambda>c. \<not> omap_has (contact_key c) busy) (short_list s) = Some c"
  shows "pick_loop z busy (short_list s) = Ok (Some c)"
  using assms pick_loop_good [of "short_list s" z busy] by (simp add: short_good_def short_nonzero_def)

interpretation node_pick: contact_picker map_node_busy is_node_full get_node_key
proof
  fix s :: search and c :: contact_proto
  show "short_good s \<Longrightarrow>
      is_node_full s = Ok (\<forall>c \<in> set (short_list s). omap_has (contact_key c) (map_node_busy s))"
    by (simp add: is_node_full_def is_full_loop_good short_good_def)
  show "short_good s \<Longrightarrow> short_nonzero s \<Longrightarrow>
      find (\<lambda>c. \<not> omap_has (contact_key c) (map_node_busy s)) (short_list s) = Some c \<Longrightarrow>
      fst (get_node_key s) = Ok (contact_key c) \<and>
      short_list (snd (get_node_key s)) = short_list s \<and>
      (\<forall>k. omap_has k (map_node_busy (snd (get_node_key s))) \<longleftrightarrow>
        k = contact_key c \<or> omap_has k (map_node_busy s))"
    by (simp add: get_node_key_def pick_next_of_loop omap_has_def)
qed

interpretation value_pick: contact_picker map_value_busy is_value_full get_value_key
proof
  fix s :: search and c :: contact_proto
  show "short_good s \<Longrightarrow>
      is_value_full s = Ok (\<forall>c \<in> set (short_list s). omap_has (contact_key c) (map_value_busy s))"
    by (simp add: is_value_full_def is_full_loop_good short_good_def)
  show "short_good s \<Longrightarrow> short_nonzero s \<Longrightarrow>
      find (\<lambda>c. \<not> omap_has (contact_key c) (map_value_busy s)) (short_list s) = Some c \<Longrightarrow>
      fst (get_value_key s) = Ok (contact_key c) \<and>
      short_list (snd (get_value_key s)) = short_list s \<and>
      (\<forall>k. omap_has k (map_value_busy (snd (get_value_key s))) \<longleftrightarrow>
        k = contact_key c \<or> omap_has k (map_value_busy s))"
    by (simp add: get_value_key_def pick_next_of_loop omap_has_def)
qed

section \<open>The nearest contacts\<close>

text \<open>The distance of a contact to what a search looks for; the code sorts by its text.\<close>

definition distance_to :: "key \<Rightarrow> contact_proto \<Rightarrow> key" where
  "distance_to dest_bs c = string_to_key (contact_key c) XOR dest_bs"

lemma sort_loop_ok: "omap_ok ms \<Longrightarrow> omap_ok (sort_loop dest_bs cs ms)"
  by (induction cs arbitrary: ms) (simp_all add: Let_def)

lemma sort_loop_keys: "fst ` set (sort_loop dest_bs cs ms) =
    (\<lambda>c. bitset_to_string (distance_to dest_bs c)) ` set cs \<union> fst ` set ms"
  by (induction cs arbitrary: ms) (auto simp: Let_def distance_to_def)

lemma sort_loop_entries:
  assumes "omap_ok ms" and "e \<in> set (sort_loop dest_bs cs ms)"
  shows "snd e \<in> set cs \<and> fst e = bitset_to_string (distance_to dest_bs (snd e)) \<or>
     e \<in> set ms \<and> fst e \<notin> (\<lambda>c. bitset_to_string (distance_to dest_bs c)) ` set cs"
  using assms
proof (induction cs arbitrary: ms)
  case Nil
  then show ?case by simp
next
  case (Cons c cs)
  from Cons.prems Cons.IH [of "omap_put (bitset_to_string (distance_to dest_bs c)) c ms"]
  show ?case by (auto simp: Let_def distance_to_def set_omap_put)
qed

lemma new_short_list_facts:
  fixes s lc
  defines "d \<equiv> distance_to (string_to_key (destination s))"
  defines "pool \<equiv> set lc \<union> set (short_list s)" and "temp \<equiv> new_short_list s lc"
  shows "set temp \<subseteq> pool" and "sorted_wrt (<) (map d temp)"
    and "length temp = min BUCKET_SIZE (card (d ` pool))"
    and "\<And>c t. c \<in> pool \<Longrightarrow> d c \<notin> d ` set temp \<Longrightarrow> t \<in> set temp \<Longrightarrow> d t < d c"
    and "\<And>c t. c \<in> set (short_list s) \<Longrightarrow> t \<in> set temp \<Longrightarrow> d t = d c \<Longrightarrow> t \<in> set (short_list s)"
proof -
  let ?dest = "string_to_key (destination s)"
  define m0 where "m0 = sort_loop ?dest lc []"
  define ms where "ms = sort_loop ?dest (short_list s) m0"
  have ok0: "omap_ok m0" by (simp add: m0_def sort_loop_ok)
  have ok: "omap_ok ms" using ok0 by (simp add: ms_def sort_loop_ok)
  have e0: "snd e \<in> set lc \<and> fst e = bitset_to_string (d (snd e))" if "e \<in> set m0" for e
    using sort_loop_entries [of "[]" e ?dest lc] that by (simp add: m0_def d_def)
  have e1: "fst e = bitset_to_string (d (snd e)) \<and> snd e \<in> pool \<and>
      (fst e \<in> (\<lambda>c. bitset_to_string (d c)) ` set (short_list s) \<longrightarrow> snd e \<in> set (short_list s))"
    if "e \<in> set ms" for e
    using sort_loop_entries [OF ok0, of e ?dest "short_list s"] that e0 [of e]
    by (auto simp: ms_def d_def pool_def)
  have ms_alt: "map fst ms = map bitset_to_string (map d (map snd ms))"
    using e1 by (auto simp: map_eq_conv)
  have keys: "fst ` set ms = bitset_to_string ` d ` pool"
    by (auto simp: ms_def m0_def sort_loop_keys d_def pool_def image_image)
  have temp: "temp = take BUCKET_SIZE (map snd ms)"
    by (simp add: temp_def new_short_list_def Let_def fill_temp_take BUCKET_SIZE_def ms_def m0_def)
  show sub: "set temp \<subseteq> pool" using e1 by (auto simp: temp dest!: in_set_takeD)
  have sorted: "sorted_wrt (<) (map d (map snd ms))"
    using ok unfolding omap_ok_def ms_alt by (simp add: sorted_wrt_map bitset_to_string_less_iff)
  then show "sorted_wrt (<) (map d temp)" by (simp add: temp take_map [symmetric] sorted_wrt_take)
  have inj: "inj_on bitset_to_string A" for A :: "key set" by (simp add: inj_on_def)
  have "length ms = card (fst ` set ms)"
    using distinct_card [OF omap_ok_distinct [OF ok]] by simp
  also have "\<dots> = card (d ` pool)" unfolding keys by (rule card_image [OF inj])
  finally show "length temp = min BUCKET_SIZE (card (d ` pool))" by (simp add: temp min_def)
  show "d t < d c" if c: "c \<in> pool" and far: "d c \<notin> d ` set temp" and t: "t \<in> set temp" for c t
  proof -
    have "bitset_to_string (d c) \<in> fst ` set ms" using c keys by auto
    then obtain e where e: "e \<in> set ms" "fst e = bitset_to_string (d c)" by auto
    then have dc: "d (snd e) = d c" using e1 by auto
    define rest where "rest = drop BUCKET_SIZE (map snd ms)"
    have split: "temp @ rest = map snd ms" by (simp add: temp rest_def)
    have "sorted_wrt (<) (map d temp @ map d rest)" using sorted by (simp flip: split)
    then have two: "\<forall>x \<in> set temp. \<forall>y \<in> set rest. d x < d y" by (simp add: sorted_wrt_append)
    have "snd e \<notin> set temp" using dc far by (metis imageI)
    moreover have "snd e \<in> set temp \<union> set rest"
      using e(1) by (simp flip: set_append add: split)
    ultimately show ?thesis using two t dc by (metis UnE)
  qed
  show "t \<in> set (short_list s)"
    if c: "c \<in> set (short_list s)" and t: "t \<in> set temp" and eq: "d t = d c" for c t
  proof -
    from t obtain e where e: "e \<in> set ms" "snd e = t" by (auto simp: temp dest!: in_set_takeD)
    then show ?thesis using e1 [OF e(1)] c eq by auto
  qed
qed

lemma update_list_result:
  assumes "short_good s" and "\<forall>c \<in> set lc. good_ep (contact_ep c)" and "lc \<noteq> []"
  shows "snd (update_list lc s) = s\<lparr>short_list := new_short_list s lc\<rparr>"
    and "fst (update_list lc s) = (if short_list s \<noteq> [] \<and> new_short_list s lc = short_list s then Ok True
       else is_bucket_full (s\<lparr>short_list := new_short_list s lc\<rparr>))"
proof -
  have "\<forall>c \<in> set (new_short_list s lc). good_ep (contact_ep c)"
    using new_short_list_facts(1) [of s lc] assms by (auto simp: short_good_def)
  then have eq: "contact_list_eq (short_list s) (new_short_list s lc) =
      Ok (short_list s = new_short_list s lc)"
    using assms(1) contact_list_eq_good by (simp add: short_good_def)
  have upd: "s\<lparr>short_list := short_list s\<rparr> = s" by simp
  show "snd (update_list lc s) = s\<lparr>short_list := new_short_list s lc\<rparr>"
    using assms(3) upd by (auto simp: update_list_def Let_def eq)
  show "fst (update_list lc s) = (if short_list s \<noteq> [] \<and> new_short_list s lc = short_list s then Ok True
       else is_bucket_full (s\<lparr>short_list := new_short_list s lc\<rparr>))"
    using assms(3) eq by (cases "short_list s = new_short_list s lc") (auto simp: update_list_def Let_def)
qed

lemma update_list_good:
  assumes "short_good s" and "\<forall>c \<in> set lc. good_ep (contact_ep c)"
  shows "short_good (snd (update_list lc s))"
proof (cases "lc = []")
  case True
  with assms show ?thesis by (simp add: update_list_def)
next
  case False
  with assms update_list_result(1) [OF assms False] new_short_list_facts(1) [of s lc]
  show ?thesis by (auto simp: short_good_def)
qed

section \<open>Properties\<close>

text \<open>
  C1 (update_list keeps the nearest): after \<open>update_list\<close> with a non-empty list the short list holds
  contacts of the old list and the new ones only, in strictly increasing XOR distance to the
  destination, as many as there are distances up to \<open>BUCKET_SIZE\<close>; every contact it leaves out is
  farther than every one it keeps, a contact the search had wins over a new one at its distance,
  nothing but the short list changes, and the result says that the list was unchanged or that the
  search is complete.
\<close>

theorem update_list_keeps_nearest:
  fixes s :: search and lc :: "contact_proto list"
  defines "temp \<equiv> short_list (snd (update_list lc s))"
  defines "d \<equiv> \<lambda>c. string_to_key (contact_key c) XOR string_to_key (destination s)"
  assumes "short_good s" and "\<forall>c \<in> set lc. good_ep (contact_ep c)" and "lc \<noteq> []"
  shows "snd (update_list lc s) = s\<lparr>short_list := temp\<rparr> \<and>
    set temp \<subseteq> set lc \<union> set (short_list s) \<and>
    sorted_wrt (<) (map d temp) \<and>
    length temp = min BUCKET_SIZE (card (d ` (set lc \<union> set (short_list s)))) \<and>
    (\<forall>c \<in> set lc \<union> set (short_list s). d c \<notin> d ` set temp \<longrightarrow> (\<forall>t \<in> set temp. d t < d c)) \<and>
    (\<forall>c \<in> set (short_list s). \<forall>t \<in> set temp. d t = d c \<longrightarrow> t \<in> set (short_list s)) \<and>
    fst (update_list lc s) = (if short_list s \<noteq> [] \<and> temp = short_list s then Ok True
      else is_bucket_full (s\<lparr>short_list := temp\<rparr>))"
proof -
  have temp: "temp = new_short_list s lc"
    using update_list_result(1) [OF assms(3,4,5)] by (simp add: temp_def)
  have d: "d = distance_to (string_to_key (destination s))"
    by (simp add: d_def distance_to_def fun_eq_iff)
  show ?thesis
    using update_list_result [OF assms(3,4,5)] new_short_list_facts [where s = s and lc = lc]
    unfolding temp d by blast
qed

definition demo_contact :: "key_text \<Rightarrow> contact_proto" where
  "demo_contact k = \<lparr>contact_key = k, contact_ep = Endpoint ''h'' ''1'', contact_time = None\<rparr>"

theorem update_list_keeps_nearest_witness:
  "\<exists>s. short_list s = [demo_contact ''01''] \<and>
     set (short_list (snd (update_list [demo_contact ''02''] s))) \<subseteq> {demo_contact ''02'', demo_contact ''01''}"
proof -
  let ?s = "(new_search 0 ''g'' ''h'' NODE_SEARCH)\<lparr>short_list := [demo_contact ''01'']\<rparr>"
  have "short_good ?s" and "\<forall>c \<in> set [demo_contact ''02'']. good_ep (contact_ep c)"
    and "[demo_contact ''02''] \<noteq> []"
    by (simp_all add: short_good_def demo_contact_def good_ep_def)
  note nearest = update_list_keeps_nearest [OF this]
  have "set (short_list (snd (update_list [demo_contact ''02''] ?s))) \<subseteq>
      {demo_contact ''02'', demo_contact ''01''}"
    using conjunct1 [OF conjunct2 [OF nearest]] by auto
  then show ?thesis by (intro exI [of _ ?s]) simp
qed

text \<open>
  C17 (the pickers enumerate the short list): on a short list of complete contacts with distinct keys,
  calling \<open>get_node_key\<close> until \<open>is_node_full\<close>, at most \<open>n\<close> times, returns the first \<open>n\<close> keys that
  are not busy, in order and each once, and leaves exactly the others; it never throws.  The same
  holds of \<open>get_value_key\<close> with \<open>is_value_full\<close>.
\<close>

theorem pickers_enumerate_short_list:
  assumes "short_ok s"
  shows "fst (pick_many is_node_full get_node_key n s) = Ok (take n (open_keys (map_node_busy s) s)) \<and>
    (\<forall>s'. s' = snd (pick_many is_node_full get_node_key n s) \<longrightarrow>
      open_keys (map_node_busy s') s' = drop n (open_keys (map_node_busy s) s)) \<and>
    fst (pick_many is_value_full get_value_key n s) = Ok (take n (open_keys (map_value_busy s) s)) \<and>
    (\<forall>s'. s' = snd (pick_many is_value_full get_value_key n s) \<longrightarrow>
      open_keys (map_value_busy s') s' = drop n (open_keys (map_value_busy s) s))"
  using node_pick.pick_many_takes [OF assms, of n] value_pick.pick_many_takes [OF assms, of n]
  by (simp add: node_pick.open_of_def value_pick.open_of_def)

theorem pickers_enumerate_short_list_witness:
  "fst (pick_many is_node_full get_node_key 1 ((new_search 0 ''g'' ''h'' NODE_SEARCH)
     \<lparr>short_list := [demo_contact ''01'', demo_contact ''02'']\<rparr>)) = Ok [''01'']"
proof -
  have "short_ok ((new_search 0 ''g'' ''h'' NODE_SEARCH)
     \<lparr>short_list := [demo_contact ''01'', demo_contact ''02'']\<rparr>)"
    by (simp add: short_ok_def short_good_def short_nonzero_def short_distinct_def demo_contact_def
        good_ep_def zero_key_text_def Cons_replicate_eq)
  from pickers_enumerate_short_list [OF this, of 1] show ?thesis
    by (simp add: open_keys_def new_search_def omap_has_def demo_contact_def)
qed

end
