(* ===== verification/Packet.thy ===== *)
theory Packet
  imports Messages
begin

text \<open>
  The packets of a connection: class \<open>basic_message\<close> of \<open>Sources/miniDHT_session.h\<close>, at the only
  size the program uses.  The buffer is the list of its bytes; a byte nothing was written to is
  None, and reading it is undefined.
\<close>

section \<open>State\<close>

definition PACKET_SIZE :: nat where "PACKET_SIZE = 1024 * 1024"
definition header_length :: nat where "header_length = 16"
definition max_body_length :: nat where "max_body_length = PACKET_SIZE - header_length"

record packet =
  packet_data :: "char option list"
  body_size :: nat
  packet_port :: "16 word"

definition empty_packet :: packet where
  "empty_packet = \<lparr>packet_data = replicate PACKET_SIZE None, body_size = 0, packet_port = 0\<rparr>"

definition packet_length :: "packet \<Rightarrow> nat" where
  "packet_length m = header_length + body_size m"

definition set_body_length :: "nat \<Rightarrow> packet \<Rightarrow> packet" where
  "set_body_length new_length m =
     (let l = (if new_length > max_body_length then max_body_length else new_length)
      in m\<lparr>body_size := l, packet_data := replicate (header_length + l) None\<rparr>)"

definition sized_packet :: "nat \<Rightarrow> packet" where
  "sized_packet n = set_body_length n \<lparr>packet_data = [], body_size = 0, packet_port = 0\<rparr>"

text \<open>\<open>memcpy\<close> into a buffer at a position: undefined when it does not fit.\<close>

definition write_at :: "nat \<Rightarrow> 'a list \<Rightarrow> 'a list \<Rightarrow> 'a list outcome" where
  "write_at pos src buf =
     (if pos + length src \<le> length buf
      then Ok (take pos buf @ src @ drop (pos + length src) buf)
      else Abort Undefined_behaviour)"

text \<open>The copy constructor and the assignment.\<close>

definition copy_packet :: "packet \<Rightarrow> packet outcome" where
  "copy_packet m =
     (let c = (set_body_length (body_size m) m)\<lparr>packet_port := packet_port m\<rparr>
      in if length (packet_data m) < packet_length c then Abort Undefined_behaviour
         else map_outcome (\<lambda>b. c\<lparr>packet_data := b\<rparr>)
           (write_at 0 (take (packet_length c) (packet_data m)) (packet_data c)))"

definition write_body :: "string \<Rightarrow> (packet, unit) cpp" where
  "write_body s = (\<lambda>m. case write_at header_length (map Some s) (packet_data m) of
       Ok b \<Rightarrow> (Ok (), m\<lparr>packet_data := b\<rparr>)
     | Throw e \<Rightarrow> (Throw e, m)
     | Abort f \<Rightarrow> (Abort f, m))"

definition set_listen_port :: "16 word \<Rightarrow> packet \<Rightarrow> packet" where
  "set_listen_port p m = m\<lparr>packet_port := p\<rparr>"

text \<open>\<open>strncat\<close> from the buffer: up to \<open>n\<close> bytes, up to the first 0.\<close>

fun strncat_from :: "nat \<Rightarrow> char option list \<Rightarrow> string outcome" where
  "strncat_from 0 b = Ok []"
| "strncat_from (Suc n) (Some c # b) =
     (if c = CHR 0x00 then Ok [] else map_outcome ((#) c) (strncat_from n b))"
| "strncat_from (Suc n) b = Abort Undefined_behaviour"

definition decode_header :: "(packet, bool) cpp" where
  "decode_header = (\<lambda>m.
     case strncat_from (header_length div 2) (packet_data m) of
       Ok part1 \<Rightarrow>
         (case strncat_from (header_length div 2) (drop (header_length div 2) (packet_data m)) of
            Ok part2 \<Rightarrow>
              (case atoi part1 of
                 Ok v1 \<Rightarrow>
                   (case atoi part2 of
                      Ok v2 \<Rightarrow>
                        let m1 = m\<lparr>body_size := (if v1 < 0 then nat (2 ^ 64 + v1) else nat v1),
                                   packet_port := word_of_int v2\<rparr>
                        in if body_size m1 > max_body_length
                           then (Ok False, m1\<lparr>body_size := 0\<rparr>)
                           else (Ok True, m1)
                    | Throw e \<Rightarrow> (Throw e, m) | Abort f \<Rightarrow> (Abort f, m))
               | Throw e \<Rightarrow> (Throw e, m) | Abort f \<Rightarrow> (Abort f, m))
          | Throw e \<Rightarrow> (Throw e, m) | Abort f \<Rightarrow> (Abort f, m))
     | Throw e \<Rightarrow> (Throw e, m) | Abort f \<Rightarrow> (Abort f, m))"

text \<open>\<open>sprintf(part, "%8d", (int)v)\<close>: at least eight characters; \<open>part\<close> has room for eight.\<close>

definition pad8 :: "string \<Rightarrow> string" where
  "pad8 s = replicate (8 - length s) CHR '' '' @ s"

definition print8 :: "nat \<Rightarrow> string outcome" where
  "print8 v =
     (let t = pad8 (show_int (sint (word_of_nat v :: 32 word)))
      in if length t > 8 then Abort Undefined_behaviour else Ok t)"

definition encode_header :: "(packet, unit) cpp" where
  "encode_header = (\<lambda>m.
     case print8 (body_size m) of
       Ok part1 \<Rightarrow>
         (case write_at 0 (map Some part1) (packet_data m) of
            Ok b1 \<Rightarrow>
              (case print8 (unat (packet_port m)) of
                 Ok part2 \<Rightarrow>
                   (case write_at (header_length div 2) (map Some part2) b1 of
                      Ok b2 \<Rightarrow> (Ok (), m\<lparr>packet_data := b2\<rparr>)
                    | Throw e \<Rightarrow> (Throw e, m) | Abort f \<Rightarrow> (Abort f, m))
               | Throw e \<Rightarrow> (Throw e, m) | Abort f \<Rightarrow> (Abort f, m))
          | Throw e \<Rightarrow> (Throw e, m) | Abort f \<Rightarrow> (Abort f, m))
     | Throw e \<Rightarrow> (Throw e, m) | Abort f \<Rightarrow> (Abort f, m))"

text \<open>
  The packet \<open>miniDHT::send_MESSAGE\<close> builds: the constructor truncates the length, the copy of the
  body does not.
\<close>

definition message_packet :: "16 word \<Rightarrow> string \<Rightarrow> packet outcome" where
  "message_packet lp s =
     (let m = sized_packet (length s)
      in case write_body s m of
           (Ok _, m1) \<Rightarrow>
             (case encode_header (set_listen_port lp m1) of
                (Ok _, m2) \<Rightarrow> Ok m2
              | (Throw e, _) \<Rightarrow> Throw e
              | (Abort f, _) \<Rightarrow> Abort f)
         | (Throw e, _) \<Rightarrow> Throw e
         | (Abort f, _) \<Rightarrow> Abort f)"

text \<open>What arrives: the bytes a peer sent, stored from the start of a fresh packet.\<close>

definition received :: "string \<Rightarrow> packet" where
  "received bytes = empty_packet\<lparr>packet_data :=
     map Some bytes @ drop (length bytes) (packet_data empty_packet)\<rparr>"

definition packet_body :: "packet \<Rightarrow> char option list" where
  "packet_body m = take (body_size m) (drop header_length (packet_data m))"

section \<open>Lemmas\<close>

lemma print8_small:
  assumes "v < 10 ^ 8"
  shows "print8 v = Ok (replicate (8 - length (show_nat v)) CHR '' '' @ show_nat v)"
    and "length (replicate (8 - length (show_nat v)) CHR '' '' @ show_nat v) = 8"
proof -
  have l: "length (show_nat v) \<le> 8" using length_show_nat [of v 7] assms by simp
  have "sint (word_of_nat v :: 32 word) = int v"
    using assms by (simp add: sint_uint uint_nat unat_of_nat signed_take_bit_int_eq_self)
  with l show "print8 v = Ok (replicate (8 - length (show_nat v)) CHR '' '' @ show_nat v)"
    by (simp add: print8_def pad8_def show_int_def Let_def)
  from l show "length (replicate (8 - length (show_nat v)) CHR '' '' @ show_nat v) = 8" by simp
qed

lemma strncat_text:
  assumes "CHR 0x00 \<notin> set s"
  shows "strncat_from (length s) (map Some s @ b) = Ok s"
  using assms by (induction s) auto

lemma header_text_no_nul: "CHR 0x00 \<notin> set (replicate k CHR '' '' @ show_nat v)"
  using show_nat_digit_chars [of "CHR 0x00" v] by (auto simp: digit_char_def)

lemma strncat_bytes_outcome:
  "n \<le> length s \<Longrightarrow> \<exists>t. strncat_from n (map Some s @ b) = Ok t \<and> length t \<le> n"
proof (induction n arbitrary: s)
  case (Suc n)
  then obtain c s' where s: "s = c # s'" by (cases s) auto
  from Suc obtain t where "strncat_from n (map Some s' @ b) = Ok t \<and> length t \<le> n"
    by (auto simp: s)
  then show ?case by (auto simp: s)
qed simp

lemma decimal_digits_bound: "decimal_digits acc s < (acc + 1) * 10 ^ length s"
proof (induction s arbitrary: acc)
  case Nil
  show ?case by simp
next
  case (Cons c s)
  show ?case
  proof (cases "digit_value c")
    case None
    have "1 \<le> (10 :: nat) ^ length (c # s)" by simp
    then have "(acc + 1) * 1 \<le> (acc + 1) * 10 ^ length (c # s)" by (rule mult_le_mono2)
    then have "acc < (acc + 1) * 10 ^ length (c # s)" unfolding mult_1_right by (rule less_le_trans [rotated]) simp
    moreover have "decimal_digits acc (c # s) = acc" using None by simp
    ultimately show ?thesis by (simp only:)
  next
    case (Some v)
    then have v: "v < 10" by (auto simp: digit_value_def Let_def split: if_splits)
    have "decimal_digits (10 * acc + v) s < (10 * acc + v + 1) * 10 ^ length s" by (rule Cons.IH)
    also have "\<dots> \<le> (10 * (acc + 1)) * 10 ^ length s" using v by (intro mult_right_mono) auto
    finally show ?thesis using Some by (simp add: algebra_simps)
  qed
qed

lemma decimal_value_bound: "length s \<le> n \<Longrightarrow> \<bar>decimal_value s\<bar> < 10 ^ n"
proof -
  assume "length s \<le> n"
  then have l: "length (dropWhile is_space s) \<le> n" using length_dropWhile_le le_trans by blast
  have b: "int (decimal_digits 0 t) < 10 ^ n" if "length t \<le> n" for t
  proof -
    have "decimal_digits 0 t < 10 ^ length t" using decimal_digits_bound [of 0 t] by simp
    also have "\<dots> \<le> (10 :: nat) ^ n" using that by (intro power_increasing) auto
    finally have "int (decimal_digits 0 t) < int (10 ^ n)" by linarith
    then show ?thesis by simp
  qed
  show ?thesis
  proof (cases "dropWhile is_space s")
    case Nil
    show ?thesis unfolding decimal_value_def Nil by simp
  next
    case (Cons c cs)
    with l b [of cs] b [of "c # cs"] show ?thesis
      by (simp add: decimal_value_def del: decimal_digits.simps)
  qed
qed

lemma atoi_short: "length s \<le> 8 \<Longrightarrow> atoi s = Ok (decimal_value s)"
  using decimal_value_bound [of s 8] by (auto simp: atoi_def Let_def)

text \<open>Whatever the 16 bytes are, a header is decoded, and the length it sets is in range.\<close>

lemma decode_header_bytes:
  assumes "packet_data m = map Some bytes @ rest" and "header_length \<le> length bytes"
  shows "\<exists>ok r. decode_header m = (Ok ok, r) \<and> packet_data r = packet_data m \<and>
    body_size r \<le> max_body_length \<and> (\<not> ok \<longrightarrow> body_size r = 0)"
proof -
  have d8: "drop 8 (packet_data m) = map Some (drop 8 bytes) @ rest"
    using assms(2) by (simp add: assms(1) drop_map header_length_def)
  obtain p1 where p1: "strncat_from 8 (packet_data m) = Ok p1" "length p1 \<le> 8"
    using strncat_bytes_outcome [of 8 bytes rest] assms(2) by (auto simp: assms(1) header_length_def)
  have "8 \<le> length (drop 8 bytes)" using assms(2) by (simp add: header_length_def)
  then obtain p2 where p2: "strncat_from 8 (drop 8 (packet_data m)) = Ok p2" "length p2 \<le> 8"
    using strncat_bytes_outcome [of 8 "drop 8 bytes" rest] by (auto simp: d8)
  have eight: "header_length div 2 = 8" by (simp add: header_length_def)
  show ?thesis
    unfolding decode_header_def eight p1(1) p2(1) by (auto simp: atoi_short [OF p1(2)] atoi_short [OF p2(2)] Let_def)
qed

lemma encode_header_opaque:
  assumes "print8 (body_size m) = Ok h1" and "print8 (unat (packet_port m)) = Ok h2"
    and "length h1 = 8" and "length h2 = 8" and "packet_data m = replicate 16 None @ b"
  shows "encode_header m = (Ok (), m\<lparr>packet_data := map Some h1 @ map Some h2 @ b\<rparr>)"
  by (simp add: encode_header_def assms write_at_def header_length_def)

lemma body_after_header:
  assumes "length h1 = 8" and "length h2 = 8"
  shows "take (length s) (drop 16 (map Some h1 @ map Some h2 @ (map Some s @ r))) = map Some s"
  using assms by simp

lemma message_packet_data:
  assumes "length s \<le> max_body_length"
  shows "message_packet lp s = Ok \<lparr>packet_data =
      map Some (replicate (8 - length (show_nat (length s))) CHR '' '' @ show_nat (length s)) @
      map Some (replicate (8 - length (show_nat (unat lp))) CHR '' '' @ show_nat (unat lp)) @
      map Some s, body_size = length s, packet_port = lp\<rparr>"
proof -
  let ?h1 = "replicate (8 - length (show_nat (length s))) CHR '' '' @ show_nat (length s)"
  let ?h2 = "replicate (8 - length (show_nat (unat lp))) CHR '' '' @ show_nat (unat lp)"
  have n: "length s < 10 ^ 8" using assms by (simp add: max_body_length_def PACKET_SIZE_def)
  have "unat lp < 2 ^ 16" using unsigned_less [of lp] by simp
  then have p: "unat lp < 10 ^ 8" by simp
  have h1: "print8 (length s) = Ok ?h1" and l1: "length ?h1 = 8" using print8_small [OF n] by auto
  have h2: "print8 (unat lp) = Ok ?h2" and l2: "length ?h2 = 8" using print8_small [OF p] by auto
  let ?m1 = "\<lparr>packet_data = replicate 16 None @ map Some s, body_size = length s, packet_port = 0\<rparr>"
  have "write_body s (sized_packet (length s)) = (Ok (), ?m1)"
    using assms by (simp add: write_body_def sized_packet_def set_body_length_def write_at_def
        header_length_def Let_def)
  moreover have "encode_header (set_listen_port lp ?m1) =
      (Ok (), ?m1\<lparr>packet_data := map Some ?h1 @ map Some ?h2 @ map Some s, packet_port := lp\<rparr>)"
    using encode_header_opaque [of "set_listen_port lp ?m1", OF _ _ l1 l2] h1 h2
    by (simp add: set_listen_port_def)
  ultimately show ?thesis by (simp add: message_packet_def Let_def)
qed

lemma decode_header_text:
  assumes "map Some h1 @ map Some h2 @ b = packet_data m" and "length h1 = 8" and "length h2 = 8"
    and "h1 = replicate j CHR '' '' @ show_nat n" and "h2 = replicate k CHR '' '' @ show_nat (unat lp)"
    and "n \<le> max_body_length"
  shows "decode_header m = (Ok True, m\<lparr>body_size := n, packet_port := lp\<rparr>)"
proof -
  have n: "n < 2 ^ 31" using assms(6) by (simp add: max_body_length_def PACKET_SIZE_def)
  have "unat lp < 2 ^ 16" using unsigned_less [of lp] by simp
  then have p: "unat lp < 2 ^ 31" by simp
  have "strncat_from 8 (packet_data m) = Ok h1"
    using strncat_text [of h1 "map Some h2 @ b"] header_text_no_nul assms(1,2,4) by metis
  moreover have "drop 8 (packet_data m) = map Some h2 @ b"
    using assms(2) by (simp flip: assms(1))
  then have "strncat_from 8 (drop 8 (packet_data m)) = Ok h2"
    using strncat_text [of h2 b] header_text_no_nul assms(3,5) by metis
  moreover have "atoi h1 = Ok (int n)" using atoi_show_nat [OF n] assms(4) by simp
  moreover have "atoi h2 = Ok (int (unat lp))" using atoi_show_nat [OF p] assms(5) by simp
  moreover have "header_length div 2 = 8" by (simp add: header_length_def)
  ultimately show ?thesis
    using assms(6) by (simp add: decode_header_def Let_def)
qed

section \<open>Properties\<close>

text \<open>
  C19 (packets arrive as they were sent): a message of at most \<open>max_body_length\<close> bytes makes a packet
  of its length plus 16; whoever receives the bytes of that packet decodes the length and the
  listening port of the sender, and finds the message as the body.
\<close>

theorem packet_roundtrip:
  assumes "length s \<le> max_body_length"
  shows "\<exists>m wire. message_packet lp s = Ok m \<and> packet_data m = map Some wire \<and>
    length wire = packet_length m \<and> packet_length m = header_length + length s \<and>
    (\<exists>r. decode_header (received wire) = (Ok True, r) \<and> body_size r = length s \<and>
       packet_port r = lp \<and> packet_body r = map Some s)"
proof -
  let ?h1 = "replicate (8 - length (show_nat (length s))) CHR '' '' @ show_nat (length s)"
  let ?h2 = "replicate (8 - length (show_nat (unat lp))) CHR '' '' @ show_nat (unat lp)"
  have "length s < 10 ^ 8" using assms by (simp add: max_body_length_def PACKET_SIZE_def)
  then have l1: "length ?h1 = 8" by (rule print8_small(2))
  have "unat lp < 2 ^ 16" using unsigned_less [of lp] by simp
  then have "unat lp < 10 ^ 8" by simp
  then have l2: "length ?h2 = 8" by (rule print8_small(2))
  let ?wire = "?h1 @ ?h2 @ s"
  let ?r = "received ?wire"
  have data: "packet_data ?r = map Some ?h1 @ map Some ?h2 @
      (map Some s @ drop (length ?wire) (packet_data empty_packet))"
    by (simp add: received_def)
  have "decode_header ?r = (Ok True, ?r\<lparr>body_size := length s, packet_port := lp\<rparr>)"
    by (rule decode_header_text [OF data [symmetric] l1 l2 refl refl assms])
  moreover have "packet_body (?r\<lparr>body_size := length s, packet_port := lp\<rparr>) = map Some s"
  proof -
    have "packet_body (?r\<lparr>body_size := length s, packet_port := lp\<rparr>) =
        take (length s) (drop 16 (packet_data ?r))" by (simp add: packet_body_def header_length_def)
    also have "\<dots> = map Some s" unfolding data by (rule body_after_header [OF l1 l2])
    finally show ?thesis .
  qed
  moreover have "length ?wire = header_length + length s" using l1 l2 by (simp add: header_length_def)
  moreover have "message_packet lp s = Ok \<lparr>packet_data = map Some ?wire, body_size = length s, packet_port = lp\<rparr>"
    unfolding message_packet_data [OF assms] by simp
  moreover define m where "m = \<lparr>packet_data = map Some ?wire, body_size = length s, packet_port = lp\<rparr>"
  moreover define r where "r = ?r\<lparr>body_size := length s, packet_port := lp\<rparr>"
  ultimately have "message_packet lp s = Ok m" and "packet_data m = map Some ?wire"
    and "length ?wire = packet_length m" and "packet_length m = header_length + length s"
    and "decode_header ?r = (Ok True, r)" and "packet_body r = map Some s"
    by (simp_all only: packet_length_def packet.simps)
  moreover have "body_size r = length s" and "packet_port r = lp" by (simp_all add: r_def)
  ultimately show ?thesis by blast
qed

theorem packet_roundtrip_witness:
  "\<exists>m wire r. message_packet 4242 ''hello'' = Ok m \<and> packet_data m = map Some wire \<and>
     decode_header (received wire) = (Ok True, r) \<and> packet_port r = 4242 \<and> packet_body r = map Some ''hello''"
  using packet_roundtrip [of "''hello''" 4242] by (auto simp: max_body_length_def PACKET_SIZE_def header_length_def)

text \<open>
  A long message overruns the packet: the length of a packet is cut at \<open>max_body_length\<close>, but a
  longer message is copied whole, past the end of the buffer; one of at most that length never is.
\<close>

lemma packet_overflow:
  "message_packet lp s = Abort Undefined_behaviour \<longleftrightarrow> max_body_length < length s"
proof (cases "length s \<le> max_body_length")
  case True
  then show ?thesis by (simp add: message_packet_data)
next
  case False
  then have "write_body s (sized_packet (length s)) = (Abort Undefined_behaviour, sized_packet (length s))"
    by (simp add: write_body_def sized_packet_def set_body_length_def write_at_def Let_def)
  with False show ?thesis by (simp add: message_packet_def Let_def)
qed

end
