(* ===== verification/Sql_Engine.thy ===== *)
theory Sql_Engine
  imports Messages "HOL-Library.Multiset"
begin

text \<open>
  What the two database classes of \<open>Sources/miniDHT_db.cpp\<close> share: the handle of a database with its
  mutex, the call of the SQL engine, the handling of its errors, and the reading of result rows.  The
  engine is SQLite; its errors, its order of rows and what it does with a text that is not the
  statement the code means are parameters.
\<close>

section \<open>The engine\<close>

datatype sql_value = SNull | SInt int | SText string | SBlob string

text \<open>A row of a result: its columns by name.\<close>

type_synonym sql_row = "(string \<times> sql_value) list"
type_synonym sql_result = "string + sql_row list"

text \<open>
  \<open>sql_error n\<close> is the error the \<open>n\<close>-th call of the engine reports, if any; \<open>step_limit n\<close> the number
  of rows after which stepping through the result of call \<open>n\<close> fails, if it does; \<open>step_message n\<close> the
  text of \<open>sqlite3_errmsg\<close> after such a step; \<open>row_order n k\<close> the
  order in which call \<open>n\<close> visits \<open>k\<close> rows where the statement asks for none.  \<open>cast_int\<close> is the
  engine's conversion of a text to an integer.
\<close>

record sql_env =
  threadsafe :: bool
  open_error :: "string \<Rightarrow> string option"
  sql_error :: "nat \<Rightarrow> string option"
  step_limit :: "nat \<Rightarrow> nat option"
  step_message :: "nat \<Rightarrow> string"
  row_order :: "nat \<Rightarrow> nat \<Rightarrow> nat list"
  cast_int :: "string \<Rightarrow> int"

definition visit :: "sql_env \<Rightarrow> nat \<Rightarrow> 'a list \<Rightarrow> 'a list" where
  "visit E n rows = map (\<lambda>i. rows ! i) (row_order E n (length rows))"

text \<open>
  The handle: \<open>sqlite3* db_\<close> (\<open>db_open\<close> says it is not NULL, \<open>tables\<close> is the content of the database),
  \<open>need_mutex_\<close> (no value before \<open>open\<close>), the mutex, and the number of engine calls so far.
\<close>

record 't sql_db =
  db_open :: bool
  file_name :: string
  need_mutex :: "bool option"
  mutex_held :: bool
  tables :: 't
  calls :: nat

definition fresh_db :: "'t \<Rightarrow> 't sql_db" where
  "fresh_db t = \<lparr>db_open = False, file_name = [], need_mutex = None, mutex_held = False,
     tables = t, calls = 0\<rparr>"

section \<open>The mutex\<close>

text \<open>
  \<open>scoped_lock lock_it(local_lock_, defer_lock); if (need_mutex_) local_lock_.lock();\<close>: the mutex is
  locked directly, so the deferred \<open>lock_it\<close> does not own it and does not release it.
\<close>

definition lock_db :: "('t sql_db, unit) cpp" where
  "lock_db = (\<lambda>s. case need_mutex s of
       None \<Rightarrow> (Abort Undefined_behaviour, s)
     | Some False \<Rightarrow> (Ok (), s)
     | Some True \<Rightarrow>
         if mutex_held s then (Abort Deadlock, s) else (Ok (), s\<lparr>mutex_held := True\<rparr>))"

definition unlock_db :: "('t sql_db, unit) cpp" where
  "unlock_db = (\<lambda>s. if mutex_held s then (Ok (), s\<lparr>mutex_held := False\<rparr>)
                   else (Abort Undefined_behaviour, s))"

text \<open>\<open>local_lock_.unlock(); throw std::runtime_error(...)\<close>, as every error branch ends.\<close>

definition sql_throw :: "string \<Rightarrow> ('t sql_db, 'a) cpp" where
  "sql_throw msg = bnd unlock_db (\<lambda>_. throw_exn (Std_exception msg))"

section \<open>Running a statement\<close>

text \<open>
  The code writes values into the text of a statement between quotes, without escaping them, and
  passes the text as a C string.  A value that has a quote or a 0 in it changes the statement.
\<close>

definition sql_literal :: "string \<Rightarrow> bool" where
  "sql_literal v \<longleftrightarrow> CHR 0x27 \<notin> set v \<and> CHR 0x00 \<notin> set v"

definition quoted :: "string \<Rightarrow> string" where
  "quoted v = CHR 0x27 # v @ [CHR 0x27]"

text \<open>
  \<open>run_sql E other vals txt stmt\<close>: a call of the engine with the text \<open>txt\<close>, in which the values
  \<open>vals\<close> are embedded.  \<open>stmt\<close> is what the statement of the code means (\<open>n\<close> is the number of the
  call); \<open>other\<close> is what the engine does with any other text.
\<close>

definition run_sql ::
  "sql_env \<Rightarrow> (string \<Rightarrow> 't \<Rightarrow> sql_result \<times> 't) \<Rightarrow> string list \<Rightarrow> string \<Rightarrow>
     (nat \<Rightarrow> 't \<Rightarrow> sql_result \<times> 't) \<Rightarrow> ('t sql_db, sql_result) cpp" where
  "run_sql E other vals txt stmt = (\<lambda>s.
     if \<not> db_open s then (Abort Undefined_behaviour, s)
     else
       let n = calls s; s1 = s\<lparr>calls := Suc n\<rparr>
       in case sql_error E n of
            Some msg \<Rightarrow> (Ok (Inl msg), s1)
          | None \<Rightarrow>
              (case (if \<forall>v \<in> set vals. sql_literal v then stmt n (tables s) else other txt (tables s)) of
                 (r, t) \<Rightarrow> (Ok r, s1\<lparr>tables := t\<rparr>)))"

text \<open>A statement whose errors the code turns into an exception with this prefix.\<close>

definition exec_or_throw :: "string \<Rightarrow> ('t sql_db, sql_result) cpp \<Rightarrow> ('t sql_db, sql_row list) cpp" where
  "exec_or_throw prefix m = bnd m (\<lambda>r. case r of
       Inl msg \<Rightarrow> sql_throw (prefix @ msg)
     | Inr rows \<Rightarrow> ret rows)"

section \<open>Reading rows\<close>

text \<open>\<open>sqlite3_get_table\<close>: the number of columns is 0 where there is no row.\<close>

definition ncol :: "sql_row list \<Rightarrow> nat" where
  "ncol rows = (case rows of [] \<Rightarrow> 0 | r # _ \<Rightarrow> length r)"

definition until_nul :: "string \<Rightarrow> string" where
  "until_nul s = takeWhile (\<lambda>c. c \<noteq> CHR 0x00) s"

text \<open>The C string of a value; NULL has none, and using it as a string is undefined.\<close>

definition column_text :: "sql_value \<Rightarrow> string outcome" where
  "column_text v = (case v of
       SNull \<Rightarrow> Abort Undefined_behaviour
     | SInt i \<Rightarrow> Ok (show_int i)
     | SText s \<Rightarrow> Ok (until_nul s)
     | SBlob s \<Rightarrow> Ok (until_nul s))"

definition column_int64 :: "sql_env \<Rightarrow> sql_value \<Rightarrow> int" where
  "column_int64 E v = (case v of SNull \<Rightarrow> 0 | SInt i \<Rightarrow> i | SText s \<Rightarrow> cast_int E s | SBlob s \<Rightarrow> cast_int E s)"

definition column_blob :: "sql_value \<Rightarrow> string" where
  "column_blob v = (case v of SNull \<Rightarrow> [] | SInt i \<Rightarrow> show_int i | SText s \<Rightarrow> s | SBlob s \<Rightarrow> s)"

text \<open>\<open>result[1]\<close> of a table with one column and one row.\<close>

definition single_text :: "sql_row list \<Rightarrow> string outcome" where
  "single_text rows = column_text (snd (hd (hd rows)))"

text \<open>\<open>SELECT Count(*)\<close> as the code reads it.\<close>

definition count_result :: "sql_row list \<Rightarrow> nat outcome" where
  "count_result rows =
     (if ncol rows \<noteq> 1 then Ok 0
      else if length rows \<noteq> 1 then Ok 0
      else case single_text rows of
        Ok t \<Rightarrow> (case atoi t of
            Ok v \<Rightarrow> Ok (if v < 0 then nat (2 ^ 64 + v) else nat v)
          | Throw e \<Rightarrow> Throw e | Abort f \<Rightarrow> Abort f)
      | Throw e \<Rightarrow> Throw e | Abort f \<Rightarrow> Abort f)"

definition count_row :: "nat \<Rightarrow> sql_row list" where
  "count_row n = [[(''Count(*)'', SInt (int n))]]"

text \<open>
  The loop over the columns of a row: each of the four names it knows sets a field of the item.
\<close>

fun read_columns :: "sql_env \<Rightarrow> bool \<Rightarrow> sql_row \<Rightarrow> data_item_proto \<Rightarrow> data_item_proto outcome" where
  "read_columns E with_blob [] d = Ok d"
| "read_columns E with_blob ((n, v) # cs) d =
     (let d1 = (if n = ''time'' then d\<lparr>time := word_of_int (column_int64 E v)\<rparr> else d);
          d2 = (if n = ''ttl'' then d1\<lparr>ttl := word_of_int (column_int64 E v)\<rparr> else d1)
      in if n = ''title'' then
           (case column_text v of
              Ok t \<Rightarrow> read_columns E with_blob cs (d2\<lparr>title := t\<rparr>)
            | Throw e \<Rightarrow> Throw e | Abort f \<Rightarrow> Abort f)
         else if with_blob \<and> n = ''data'' then read_columns E with_blob cs (d2\<lparr>data := column_blob v\<rparr>)
         else read_columns E with_blob cs d2)"

text \<open>
  \<open>while (sqlite3_step(stmt) == SQLITE_ROW) ...; sqlite3_finalize\<close>: the rows the loop gets, and
  whether the last step failed, in which case \<open>finalize\<close> reports it.
\<close>

definition stepped :: "sql_env \<Rightarrow> nat \<Rightarrow> sql_row list \<Rightarrow> sql_row list \<times> bool" where
  "stepped E n rows = (case step_limit E n of
       None \<Rightarrow> (rows, True)
     | Some k \<Rightarrow> if k \<le> length rows then (take k rows, False) else (rows, True))"

fun read_items :: "sql_env \<Rightarrow> bool \<Rightarrow> sql_row list \<Rightarrow> data_item_proto list \<Rightarrow> data_item_proto list outcome" where
  "read_items E with_blob [] out = Ok out"
| "read_items E with_blob (r # rs) out =
     (case read_columns E with_blob r default_item of
        Ok d \<Rightarrow> read_items E with_blob rs (out @ [d])
      | Throw e \<Rightarrow> Throw e | Abort f \<Rightarrow> Abort f)"

section \<open>Opening\<close>

text \<open>
  \<open>open\<close> without its last line, the creation of the tables.  Where the engine is not thread safe
  the block holds a \<open>scoped_lock\<close>, and the error branch unlocks the mutex that the lock still owns.
\<close>

definition open_file :: "sql_env \<Rightarrow> (string \<Rightarrow> 't) \<Rightarrow> string \<Rightarrow> ('t sql_db, unit) cpp" where
  "open_file E stored name = (\<lambda>s.
     let s1 = s\<lparr>file_name := name, need_mutex := Some (\<not> threadsafe E)\<rparr>
     in if \<not> threadsafe E then
          (if mutex_held s1 then (Abort Deadlock, s1)
           else case open_error E name of
             Some msg \<Rightarrow> (Abort Undefined_behaviour, s1\<lparr>db_open := False\<rparr>)
           | None \<Rightarrow> (Ok (), s1\<lparr>db_open := True, tables := stored name\<rparr>))
        else
          (case open_error E name of
             Some msg \<Rightarrow> (Throw (Std_exception (''Can't open database (full mutex, err = '' @ msg)),
                          s1\<lparr>db_open := False\<rparr>)
           | None \<Rightarrow> (Ok (), s1\<lparr>db_open := True, tables := stored name\<rparr>)))"

text \<open>The destructor.\<close>

definition close_db :: "('t sql_db, unit) cpp" where
  "close_db = bnd lock_db (\<lambda>_. writes (\<lambda>s. s\<lparr>db_open := False\<rparr>))"

section \<open>A well-behaved engine\<close>

text \<open>
  The engine as its documentation has it where nothing goes wrong: no call fails, and a statement
  without an order visits every row once, in any order.
\<close>

definition engine_ok :: "sql_env \<Rightarrow> bool" where
  "engine_ok E \<longleftrightarrow> threadsafe E \<and> (\<forall>n. sql_error E n = None) \<and> (\<forall>n. step_limit E n = None) \<and>
     (\<forall>n k. mset (row_order E n k) = mset [0..<k])"

text \<open>A handle in use: open, and free of the mutex.\<close>

definition db_ready :: "'t sql_db \<Rightarrow> bool" where
  "db_ready s \<longleftrightarrow> db_open s \<and> need_mutex s = Some False \<and> \<not> mutex_held s"

lemma mset_visit: "engine_ok E \<Longrightarrow> mset (visit E n rows) = mset rows"
proof -
  assume "engine_ok E"
  then have "mset (row_order E n (length rows)) = mset [0..<length rows]" by (simp add: engine_ok_def)
  then have "mset (visit E n rows) = image_mset ((!) rows) (mset [0..<length rows])"
    unfolding visit_def mset_map by (rule arg_cong)
  also have "\<dots> = mset (map ((!) rows) [0..<length rows])" by (simp only: mset_map)
  finally show ?thesis by (simp only: map_nth)
qed

lemma set_visit: "engine_ok E \<Longrightarrow> set (visit E n rows) = set rows"
  using mset_visit by (metis set_mset_mset)

lemma length_visit: "engine_ok E \<Longrightarrow> length (visit E n rows) = length rows"
  using mset_visit by (metis size_mset)

lemma visit_Nil [simp]: "engine_ok E \<Longrightarrow> visit E n [] = []"
  using length_visit [of E n "[]"] by simp

lemma visit_single [simp]: "engine_ok E \<Longrightarrow> visit E n [x] = [x]"
  using mset_visit [of E n "[x]"] by simp

lemma lock_ready [cpp_simps]: "db_ready s \<Longrightarrow> lock_db s = (Ok (), s)"
  by (simp add: lock_db_def db_ready_def)

lemma run_sql_ready [cpp_simps]:
  "db_ready s \<Longrightarrow> engine_ok E \<Longrightarrow> \<forall>v \<in> set vals. sql_literal v \<Longrightarrow>
     run_sql E other vals txt stmt s =
       (case stmt (calls s) (tables s) of (r, t) \<Rightarrow> (Ok r, s\<lparr>calls := Suc (calls s), tables := t\<rparr>))"
  by (simp add: run_sql_def db_ready_def engine_ok_def Let_def split: prod.split)

lemma db_ready_frame [simp]:
  "db_ready (s\<lparr>tables := t\<rparr>) = db_ready s" "db_ready (s\<lparr>calls := n\<rparr>) = db_ready s"
  by (simp_all add: db_ready_def)

lemma tables_same [simp]:
  "s\<lparr>tables := tables s\<rparr> = s" "s\<lparr>calls := n, tables := tables s\<rparr> = s\<lparr>calls := n\<rparr>"
  by (cases s; simp)+

lemma exec_run [cpp_simps]:
  "exec_or_throw p m s = (case m s of
       (Ok (Inl msg), s') \<Rightarrow> sql_throw (p @ msg) s'
     | (Ok (Inr rows), s') \<Rightarrow> (Ok rows, s')
     | (Throw e, s') \<Rightarrow> (Throw e, s')
     | (Abort f, s') \<Rightarrow> (Abort f, s'))"
  by (simp add: exec_or_throw_def cpp_simps split: prod.split outcome.split sum.split)

lemma sql_throw_run [cpp_simps]:
  "sql_throw msg s = (if mutex_held s then (Throw (Std_exception msg), s\<lparr>mutex_held := False\<rparr>)
     else (Abort Undefined_behaviour, s))"
  by (simp add: sql_throw_def unlock_db_def cpp_simps)

text \<open>The shape of every operation: lock, run a statement, turn an error into an exception, go on.\<close>

lemma locked_statement:
  assumes "db_ready s" and "engine_ok E" and "\<forall>v \<in> set vals. sql_literal v"
  shows "thn lock_db (bnd (exec_or_throw p (run_sql E other vals txt stmt)) k) s =
    (case stmt (calls s) (tables s) of
       (Inr rows, t) \<Rightarrow> k rows (s\<lparr>calls := Suc (calls s), tables := t\<rparr>)
     | (Inl msg, t) \<Rightarrow> (Abort Undefined_behaviour, s\<lparr>calls := Suc (calls s), tables := t\<rparr>))"
  using assms by (simp add: cpp_simps db_ready_def split: prod.split sum.split)

lemma locked_statement_ok:
  assumes "db_ready s" and "engine_ok E" and "\<forall>v \<in> set vals. sql_literal v"
    and "stmt (calls s) (tables s) = (Inr rows, t)"
  shows "thn lock_db (bnd (exec_or_throw p (run_sql E other vals txt stmt)) k) s =
    k rows (s\<lparr>calls := Suc (calls s), tables := t\<rparr>)"
  by (simp only: locked_statement [OF assms(1-3)] assms(4) prod.case sum.case)

lemma count_result_row: "n < 2 ^ 31 \<Longrightarrow> count_result (count_row n) = Ok n"
  using atoi_show_nat [of n 0]
  by (simp add: count_result_def count_row_def ncol_def single_text_def column_text_def show_int_def)

lemma stepped_ready: "engine_ok E \<Longrightarrow> stepped E n rows = (rows, True)"
  by (simp add: stepped_def engine_ok_def)

lemma until_nul_literal: "sql_literal s \<Longrightarrow> until_nul s = s"
  by (auto simp: until_nul_def sql_literal_def takeWhile_eq_all_conv)

end
