(* ===== verification/Kv_Store.thy ===== *)
theory Kv_Store
  imports Sql_Engine
begin

text \<open>
  Class \<open>db_key_value\<close> of \<open>Sources/miniDHT_db.cpp\<close>: the table of known endpoints by key,
  \<open>contacts(key TEXT PRIMARY KEY, value TEXT)\<close>.
\<close>

section \<open>State\<close>

record kv_tables =
  has_contacts :: bool
  kv_rows :: "(string \<times> string) list"

type_synonym kv_other = "string \<Rightarrow> kv_tables \<Rightarrow> sql_result \<times> kv_tables"
type_synonym kv_db = "kv_tables sql_db"

text \<open>A statement on a table that is not there is an error.\<close>

definition on_contacts :: "(kv_tables \<Rightarrow> sql_result \<times> kv_tables) \<Rightarrow> kv_tables \<Rightarrow> sql_result \<times> kv_tables" where
  "on_contacts stmt t =
     (if has_contacts t then stmt t else (Inl ''no such table: contacts'', t))"

section \<open>Operations\<close>

definition kv_create_table :: "sql_env \<Rightarrow> kv_other \<Rightarrow> (kv_db, unit) cpp" where
  "kv_create_table E other =
     thn lock_db
       (thn (exec_or_throw ''SQL error in CREATE table : ''
          (run_sql E other [] ''CREATE TABLE IF NOT EXISTS contacts(key TEXT PRIMARY KEY, value TEXT)''
             (\<lambda>n t. (Inr [], t\<lparr>has_contacts := True\<rparr>))))
         (ret ()))"

definition kv_open :: "sql_env \<Rightarrow> kv_other \<Rightarrow> (string \<Rightarrow> kv_tables) \<Rightarrow> string \<Rightarrow> (kv_db, unit) cpp" where
  "kv_open E other stored name = thn (open_file E stored name) (kv_create_table E other)"

text \<open>The constructor that opens a file: where opening throws there is no object, and no destructor runs.\<close>

definition kv_make :: "sql_env \<Rightarrow> kv_other \<Rightarrow> (string \<Rightarrow> kv_tables) \<Rightarrow> string \<Rightarrow> unit outcome \<times> kv_db" where
  "kv_make E other stored name = kv_open E other stored name (fresh_db \<lparr>has_contacts = False, kv_rows = []\<rparr>)"

definition kv_clear :: "sql_env \<Rightarrow> kv_other \<Rightarrow> (kv_db, unit) cpp" where
  "kv_clear E other =
     thn lock_db
       (thn (exec_or_throw ''SQL error in DROP table : ''
          (run_sql E other [] ''DROP TABLE IF EXISTS contacts''
             (\<lambda>n t. (Inr [], t\<lparr>has_contacts := False, kv_rows := []\<rparr>))))
         (kv_create_table E other))"

definition kv_find :: "sql_env \<Rightarrow> kv_other \<Rightarrow> string \<Rightarrow> (kv_db, string) cpp" where
  "kv_find E other key =
     thn lock_db
       (bnd (exec_or_throw ''SQL error in SELECT value : ''
          (run_sql E other [key] (''SELECT value FROM contacts WHERE key = '' @ quoted key)
             (\<lambda>n. on_contacts (\<lambda>t.
                (Inr (map (\<lambda>r. [(''value'', SText (snd r))])
                   (visit E n (filter (\<lambda>r. fst r = key) (kv_rows t)))), t)))))
         (\<lambda>rows.
            if ncol rows \<noteq> 1 then ret []
            else if length rows = 1 then lift_outcome (single_text rows)
            else ret []))"

definition kv_remove :: "sql_env \<Rightarrow> kv_other \<Rightarrow> string \<Rightarrow> (kv_db, unit) cpp" where
  "kv_remove E other key =
     thn lock_db
       (thn (exec_or_throw ''SQL error in DELETE : ''
          (run_sql E other [key] (''DELETE FROM contacts WHERE key = '' @ quoted key)
             (\<lambda>n. on_contacts (\<lambda>t.
                (Inr [], t\<lparr>kv_rows := filter (\<lambda>r. fst r \<noteq> key) (kv_rows t)\<rparr>)))))
         (ret ()))"

definition kv_insert :: "sql_env \<Rightarrow> kv_other \<Rightarrow> string \<Rightarrow> string \<Rightarrow> (kv_db, unit) cpp" where
  "kv_insert E other key v =
     thn lock_db
       (thn (exec_or_throw ''SQL error in INSERT table : ''
          (run_sql E other [key, v]
             (''INSERT INTO contacts VALUES('' @ quoted key @ '', '' @ quoted v @ '')'')
             (\<lambda>n. on_contacts (\<lambda>t.
                if key \<in> fst ` set (kv_rows t)
                then (Inl ''UNIQUE constraint failed: contacts.key'', t)
                else (Inr [], t\<lparr>kv_rows := kv_rows t @ [(key, v)]\<rparr>)))))
         (ret ()))"

definition kv_size :: "sql_env \<Rightarrow> kv_other \<Rightarrow> (kv_db, nat) cpp" where
  "kv_size E other =
     thn lock_db
       (bnd (exec_or_throw ''SQL error in SELECT Count(*) : ''
          (run_sql E other [] ''SELECT Count(*) FROM contacts''
             (\<lambda>n. on_contacts (\<lambda>t. (Inr (count_row (length (kv_rows t))), t)))))
         (\<lambda>rows. lift_outcome (count_result rows)))"

text \<open>\<open>mm.insert(...)\<close> keeps the entry a key already has.\<close>

fun insert_rows :: "sql_row list \<Rightarrow> (string \<times> string) list \<Rightarrow> (string \<times> string) list outcome" where
  "insert_rows [] mm = Ok mm"
| "insert_rows (r # rs) mm =
     (case column_text (snd (r ! 0)) of
        Ok k \<Rightarrow>
          (case column_text (snd (r ! 1)) of
             Ok v \<Rightarrow> insert_rows rs (if omap_has k mm then mm else omap_put k v mm)
           | Throw e \<Rightarrow> Throw e | Abort f \<Rightarrow> Abort f)
      | Throw e \<Rightarrow> Throw e | Abort f \<Rightarrow> Abort f)"

definition kv_list :: "sql_env \<Rightarrow> kv_other \<Rightarrow> (string \<times> string) list \<Rightarrow> (kv_db, (string \<times> string) list) cpp" where
  "kv_list E other mm =
     thn lock_db
       (bnd (exec_or_throw ''SQL error in SELECT * : ''
          (run_sql E other [] ''SELECT * FROM contacts''
             (\<lambda>n. on_contacts (\<lambda>t.
                (Inr (map (\<lambda>r. [(''key'', SText (fst r)), (''value'', SText (snd r))])
                   (visit E n (kv_rows t))), t)))))
         (\<lambda>rows. if ncol rows \<noteq> 2 then ret mm else lift_outcome (insert_rows rows mm)))"

fun push_values :: "sql_row list \<Rightarrow> string list \<Rightarrow> string list outcome" where
  "push_values [] l = Ok l"
| "push_values (r # rs) l =
     (case column_text (snd (r ! 0)) of
        Ok v \<Rightarrow> push_values rs (l @ [v])
      | Throw e \<Rightarrow> Throw e | Abort f \<Rightarrow> Abort f)"

definition kv_list_value :: "sql_env \<Rightarrow> kv_other \<Rightarrow> string list \<Rightarrow> (kv_db, string list) cpp" where
  "kv_list_value E other l =
     thn lock_db
       (bnd (exec_or_throw ''SQL error in SELECT value : ''
          (run_sql E other [] ''SELECT value FROM contacts''
             (\<lambda>n. on_contacts (\<lambda>t.
                (Inr (map (\<lambda>r. [(''value'', SText (snd r))]) (visit E n (kv_rows t))), t)))))
         (\<lambda>rows. if ncol rows \<noteq> 1 then ret l else lift_outcome (push_values rows l)))"

section \<open>The table as a map\<close>

definition kv_ok :: "sql_env \<Rightarrow> kv_db \<Rightarrow> bool" where
  "kv_ok E s \<longleftrightarrow> engine_ok E \<and> db_ready s \<and> has_contacts (tables s) \<and>
     distinct (map fst (kv_rows (tables s))) \<and>
     (\<forall>r \<in> set (kv_rows (tables s)). sql_literal (fst r) \<and> sql_literal (snd r))"

definition kv_map :: "kv_db \<Rightarrow> string \<Rightarrow> string option" where
  "kv_map s = map_of (kv_rows (tables s))"

lemma filter_key_map_of:
  "distinct (map fst m) \<Longrightarrow>
     filter (\<lambda>r. fst r = k) m = (case map_of m k of None \<Rightarrow> [] | Some v \<Rightarrow> [(k, v)])"
proof (induction m)
  case Nil
  show ?case by simp
next
  case (Cons e m)
  have "filter (\<lambda>r. fst r = k) m = []" if "fst e = k"
    using Cons.prems that by (metis (mono_tags, lifting) distinct.simps(2) filter_False image_eqI
        list.set_map list.simps(9))
  with Cons show ?case by (cases e) auto
qed

lemma map_of_filter_neq: "map_of (filter (\<lambda>r. fst r \<noteq> k) m) = (map_of m)(k := None)"
  by (induction m) auto

lemma kv_find_run:
  assumes "kv_ok E s" and "sql_literal k"
  shows "kv_find E other k s =
    (Ok (case kv_map s k of None \<Rightarrow> [] | Some v \<Rightarrow> v), s\<lparr>calls := Suc (calls s)\<rparr>)"
proof -
  have ok: "engine_ok E" "db_ready s" "has_contacts (tables s)" "distinct (map fst (kv_rows (tables s)))"
    using assms(1) by (auto simp: kv_ok_def)
  have lit: "\<forall>v \<in> set [k]. sql_literal v" using assms(2) by simp
  let ?rows = "map (\<lambda>r. [(''value'', SText (snd r))])
    (visit E (calls s) (filter (\<lambda>r. fst r = k) (kv_rows (tables s))))"
  have run: "kv_find E other k s =
      (if ncol ?rows \<noteq> 1 then ret [] else if length ?rows = 1 then lift_outcome (single_text ?rows) else ret [])
        (s\<lparr>calls := Suc (calls s), tables := tables s\<rparr>)"
    unfolding kv_find_def
    by (rule locked_statement_ok [OF ok(2,1) lit]) (simp add: on_contacts_def ok(3))
  show ?thesis
  proof (cases "kv_map s k")
    case None
    then have "filter (\<lambda>r. fst r = k) (kv_rows (tables s)) = []"
      using filter_key_map_of [OF ok(4), of k] by (simp add: kv_map_def)
    with None show ?thesis unfolding run by (simp add: ok ncol_def cpp_simps)
  next
    case (Some v)
    then have "filter (\<lambda>r. fst r = k) (kv_rows (tables s)) = [(k, v)]"
      using filter_key_map_of [OF ok(4), of k] by (simp add: kv_map_def)
    moreover have "(k, v) \<in> set (kv_rows (tables s))"
      using Some unfolding kv_map_def by (rule map_of_SomeD)
    then have "sql_literal v" using assms(1) by (auto simp: kv_ok_def)
    ultimately show ?thesis using Some unfolding run
      by (simp add: ok ncol_def cpp_simps single_text_def column_text_def until_nul_literal)
  qed
qed

lemma kv_remove_run:
  assumes "kv_ok E s" and "sql_literal k"
  shows "kv_remove E other k s = (Ok (), s\<lparr>calls := Suc (calls s),
    tables := (tables s)\<lparr>kv_rows := filter (\<lambda>r. fst r \<noteq> k) (kv_rows (tables s))\<rparr>\<rparr>)"
  using assms unfolding kv_remove_def
  by (subst locked_statement) (simp_all add: kv_ok_def on_contacts_def ret_run)

lemma kv_insert_run:
  assumes "kv_ok E s" and "sql_literal k" and "sql_literal v" and "kv_map s k = None"
  shows "kv_insert E other k v s = (Ok (), s\<lparr>calls := Suc (calls s),
    tables := (tables s)\<lparr>kv_rows := kv_rows (tables s) @ [(k, v)]\<rparr>\<rparr>)"
proof -
  have "k \<notin> fst ` set (kv_rows (tables s))" using assms(4) by (simp add: kv_map_def map_of_eq_None_iff)
  then show ?thesis using assms unfolding kv_insert_def
    by (subst locked_statement) (simp_all add: kv_ok_def on_contacts_def ret_run)
qed

lemma kv_insert_dup:
  assumes "kv_ok E s" and "sql_literal k" and "sql_literal v" and "kv_map s k \<noteq> None"
  shows "kv_insert E other k v s = (Abort Undefined_behaviour, s\<lparr>calls := Suc (calls s)\<rparr>)"
proof -
  have "k \<in> fst ` set (kv_rows (tables s))"
    using assms(4) by (simp add: kv_map_def map_of_eq_None_iff)
  then show ?thesis using assms unfolding kv_insert_def
    by (subst locked_statement) (simp_all add: kv_ok_def on_contacts_def)
qed

lemma kv_size_run:
  assumes "kv_ok E s" and "length (kv_rows (tables s)) < 2 ^ 31"
  shows "kv_size E other s = (Ok (length (kv_rows (tables s))), s\<lparr>calls := Suc (calls s)\<rparr>)"
  using assms unfolding kv_size_def
  by (subst locked_statement)
    (simp_all add: kv_ok_def on_contacts_def lift_outcome_run count_result_row)

lemma push_values_texts:
  assumes "\<forall>v \<in> set vs. sql_literal v"
  shows "push_values (map (\<lambda>v. [(c, SText v)]) vs) l = Ok (l @ vs)"
  using assms by (induction vs arbitrary: l) (auto simp: column_text_def until_nul_literal)

lemma kv_list_value_run:
  assumes "kv_ok E s"
  shows "\<exists>vs. kv_list_value E other l s = (Ok (l @ vs), s\<lparr>calls := Suc (calls s)\<rparr>) \<and>
    mset vs = mset (map snd (kv_rows (tables s)))"
proof -
  have ok: "engine_ok E" "db_ready s" "has_contacts (tables s)" using assms by (auto simp: kv_ok_def)
  define vs where "vs = map snd (visit E (calls s) (kv_rows (tables s)))"
  have vs: "mset vs = mset (map snd (kv_rows (tables s)))"
    by (simp add: vs_def mset_visit [OF ok(1)])
  have "set vs = snd ` set (kv_rows (tables s))" using vs by (metis list.set_map set_mset_mset)
  then have lit: "\<forall>v \<in> set vs. sql_literal v" using assms by (auto simp: kv_ok_def)
  let ?rows = "map (\<lambda>v. [(''value'', SText v)]) vs"
  have "kv_list_value E other l s =
      (if ncol ?rows \<noteq> 1 then ret l else lift_outcome (push_values ?rows l))
        (s\<lparr>calls := Suc (calls s), tables := tables s\<rparr>)"
    unfolding kv_list_value_def
    by (rule locked_statement_ok [OF ok(2,1)])
      (simp_all add: on_contacts_def ok(3) vs_def comp_def)
  then have "kv_list_value E other l s = (Ok (l @ vs), s\<lparr>calls := Suc (calls s)\<rparr>)"
    using push_values_texts [OF lit, of "''value''" l]
    by (cases vs) (simp_all add: ncol_def cpp_simps)
  with vs show ?thesis by blast
qed

section \<open>The contract of a key-value store\<close>

text \<open>
  How the node's periodic task keeps the stored endpoint of a contact up to date: nothing where it is
  already there, else the old value is removed and the new one inserted.
\<close>

definition backup_refresh ::
  "(string \<Rightarrow> ('s, string) cpp) \<Rightarrow> (string \<Rightarrow> ('s, unit) cpp) \<Rightarrow> (string \<Rightarrow> string \<Rightarrow> ('s, unit) cpp) \<Rightarrow>
     string \<Rightarrow> string \<Rightarrow> ('s, unit) cpp" where
  "backup_refresh find_op remove_op insert_op key ep =
     bnd (find_op key) (\<lambda>v.
       if v = ep then ret ()
       else thn (when_cpp (v \<noteq> []) (remove_op key)) (insert_op key ep))"

locale kv_store =
  fixes ok :: "'s \<Rightarrow> bool"
    and abs :: "'s \<Rightarrow> string \<Rightarrow> string option"
    and find_op :: "string \<Rightarrow> ('s, string) cpp"
    and remove_op :: "string \<Rightarrow> ('s, unit) cpp"
    and insert_op :: "string \<Rightarrow> string \<Rightarrow> ('s, unit) cpp"
  assumes find_law: "ok s \<Longrightarrow> sql_literal k \<Longrightarrow>
      \<exists>s'. find_op k s = (Ok (case abs s k of None \<Rightarrow> [] | Some v \<Rightarrow> v), s') \<and> ok s' \<and> abs s' = abs s"
    and remove_law: "ok s \<Longrightarrow> sql_literal k \<Longrightarrow>
      \<exists>s'. remove_op k s = (Ok (), s') \<and> ok s' \<and> abs s' = (abs s)(k := None)"
    and insert_law: "ok s \<Longrightarrow> sql_literal k \<Longrightarrow> sql_literal v \<Longrightarrow> abs s k = None \<Longrightarrow>
      \<exists>s'. insert_op k v s = (Ok (), s') \<and> ok s' \<and> abs s' = (abs s)(k \<mapsto> v)"
begin

lemma refresh_law:
  assumes "ok s" and "sql_literal k" and "sql_literal e" and "e \<noteq> []" and "abs s k \<noteq> Some []"
  shows "\<exists>s'. backup_refresh find_op remove_op insert_op k e s = (Ok (), s') \<and> ok s' \<and>
    abs s' = (abs s)(k \<mapsto> e)"
proof -
  obtain s1 where s1: "find_op k s = (Ok (case abs s k of None \<Rightarrow> [] | Some v \<Rightarrow> v), s1)" "ok s1"
    "abs s1 = abs s" using find_law [OF assms(1,2)] by blast
  show ?thesis
  proof (cases "abs s k")
    case None
    obtain s2 where "insert_op k e s1 = (Ok (), s2)" "ok s2" "abs s2 = (abs s)(k \<mapsto> e)"
      using insert_law [OF s1(2) assms(2,3)] None s1(3) by auto
    with None s1 assms(4) show ?thesis by (simp add: backup_refresh_def cpp_simps)
  next
    case (Some v)
    with assms(5) have v: "v \<noteq> []" by simp
    show ?thesis
    proof (cases "v = e")
      case True
      with Some s1 show ?thesis by (auto simp: backup_refresh_def cpp_simps)
    next
      case False
      obtain s2 where s2: "remove_op k s1 = (Ok (), s2)" "ok s2" "abs s2 = (abs s)(k := None)"
        using remove_law [OF s1(2) assms(2)] s1(3) by auto
      then obtain s3 where "insert_op k e s2 = (Ok (), s3)" "ok s3" "abs s3 = (abs s)(k \<mapsto> e)"
        using insert_law [OF s2(2) assms(2,3)] by auto
      with Some False v s1 s2 show ?thesis by (simp add: backup_refresh_def cpp_simps)
    qed
  qed
qed

end

interpretation kv: kv_store "kv_ok E" kv_map "kv_find E other" "kv_remove E other" "kv_insert E other"
  for E :: sql_env and other :: kv_other
proof
  fix s :: kv_db and k v :: string
  show "\<exists>s'. kv_find E other k s = (Ok (case kv_map s k of None \<Rightarrow> [] | Some v \<Rightarrow> v), s') \<and>
      kv_ok E s' \<and> kv_map s' = kv_map s" if "kv_ok E s" "sql_literal k"
    using kv_find_run [OF that] that(1) by (simp add: kv_ok_def kv_map_def)
  show "\<exists>s'. kv_remove E other k s = (Ok (), s') \<and> kv_ok E s' \<and> kv_map s' = (kv_map s)(k := None)"
    if "kv_ok E s" "sql_literal k"
    using kv_remove_run [OF that] that(1)
    by (simp add: kv_ok_def kv_map_def map_of_filter_neq distinct_map_filter)
  show "\<exists>s'. kv_insert E other k v s = (Ok (), s') \<and> kv_ok E s' \<and> kv_map s' = (kv_map s)(k \<mapsto> v)"
    if "kv_ok E s" "sql_literal k" "sql_literal v" "kv_map s k = None"
  proof -
    have "k \<notin> fst ` set (kv_rows (tables s))"
      using that(4) by (simp add: kv_map_def map_of_eq_None_iff)
    moreover have "map_of (kv_rows (tables s) @ [(k, v)]) = (map_of (kv_rows (tables s)))(k \<mapsto> v)"
      using that(4) by (auto simp: kv_map_def map_add_def fun_eq_iff split: option.split)
    ultimately show ?thesis
      using kv_insert_run [OF that] that by (auto simp: kv_ok_def kv_map_def)
  qed
qed

section \<open>Properties\<close>

text \<open>
  C13 (the backup table is a map): over a well-behaved engine and for values without quotes, \<open>find\<close> is
  lookup (the empty text where there is nothing), \<open>remove\<close> deletes, \<open>insert\<close> of a new key adds,
  \<open>size\<close> is the number of keys, \<open>list_value\<close> lists every value once; the refresh of the periodic task
  is an update.  Each keeps the table well-formed.
\<close>

theorem kv_operations_refine_map:
  assumes "kv_ok E s" and "sql_literal k" and "sql_literal v"
  shows "(\<exists>s'. kv_find E other k s = (Ok (case kv_map s k of None \<Rightarrow> [] | Some v \<Rightarrow> v), s') \<and>
      kv_ok E s' \<and> kv_map s' = kv_map s) \<and>
    (\<exists>s'. kv_remove E other k s = (Ok (), s') \<and> kv_ok E s' \<and> kv_map s' = (kv_map s)(k := None)) \<and>
    (kv_map s k = None \<longrightarrow>
      (\<exists>s'. kv_insert E other k v s = (Ok (), s') \<and> kv_ok E s' \<and> kv_map s' = (kv_map s)(k \<mapsto> v))) \<and>
    (card (dom (kv_map s)) < 2 ^ 31 \<longrightarrow> fst (kv_size E other s) = Ok (card (dom (kv_map s)))) \<and>
    (\<exists>vs s'. kv_list_value E other [] s = (Ok vs, s') \<and> set vs = ran (kv_map s) \<and>
      length vs = card (dom (kv_map s)) \<and> kv_ok E s' \<and> kv_map s' = kv_map s) \<and>
    (v \<noteq> [] \<and> kv_map s k \<noteq> Some [] \<longrightarrow>
      (\<exists>s'. backup_refresh (kv_find E other) (kv_remove E other) (kv_insert E other) k v s = (Ok (), s') \<and>
        kv_ok E s' \<and> kv_map s' = (kv_map s)(k \<mapsto> v)))"
proof -
  have d: "distinct (map fst (kv_rows (tables s)))" using assms(1) by (simp add: kv_ok_def)
  have "card (dom (kv_map s)) = card (set (map fst (kv_rows (tables s))))"
    by (simp add: kv_map_def dom_map_of_conv_image_fst)
  also have "\<dots> = length (kv_rows (tables s))" using distinct_card [OF d] by simp
  finally have size: "card (dom (kv_map s)) = length (kv_rows (tables s))" .
  have ran: "ran (kv_map s) = snd ` set (kv_rows (tables s))" using d by (simp add: kv_map_def ran_distinct)
  have vals: "\<exists>vs s'. kv_list_value E other [] s = (Ok vs, s') \<and> set vs = ran (kv_map s) \<and>
      length vs = card (dom (kv_map s)) \<and> kv_ok E s' \<and> kv_map s' = kv_map s"
  proof -
    obtain vs where vs: "kv_list_value E other [] s = (Ok ([] @ vs), s\<lparr>calls := Suc (calls s)\<rparr>)"
      "mset vs = mset (map snd (kv_rows (tables s)))" using kv_list_value_run [OF assms(1)] by blast
    then have "set vs = snd ` set (kv_rows (tables s))" and "length vs = length (kv_rows (tables s))"
      by (metis list.set_map set_mset_mset) (metis length_map size_mset vs(2))
    moreover have "kv_ok E (s\<lparr>calls := Suc (calls s)\<rparr>)" using assms(1) by (simp add: kv_ok_def)
    moreover have "kv_map (s\<lparr>calls := Suc (calls s)\<rparr>) = kv_map s" by (simp add: kv_map_def)
    ultimately show ?thesis using vs(1) unfolding size ran by auto
  qed
  show ?thesis
    using kv.find_law [OF assms(1,2)] kv.remove_law [OF assms(1,2)] kv.insert_law [OF assms(1-3)]
      kv.refresh_law [OF assms(1-3)] kv_size_run [OF assms(1)] vals unfolding size by auto
qed

definition demo_engine :: sql_env where
  "demo_engine = \<lparr>threadsafe = True, open_error = \<lambda>f. None, sql_error = \<lambda>n. None,
     step_limit = \<lambda>n. None, step_message = \<lambda>n. [], row_order = \<lambda>n k. [0..<k], cast_int = decimal_value\<rparr>"

definition no_text :: "string \<Rightarrow> 't \<Rightarrow> sql_result \<times> 't" where
  "no_text txt t = (Inl ''syntax error'', t)"

lemma demo_engine_ok: "engine_ok demo_engine"
  by (simp add: engine_ok_def demo_engine_def)

definition demo_kv :: kv_db where
  "demo_kv = \<lparr>db_open = True, file_name = [], need_mutex = Some False, mutex_held = False,
     tables = \<lparr>has_contacts = True, kv_rows = [(''a'', ''h:1'')]\<rparr>, calls = 0\<rparr>"

lemma demo_kv_ok: "kv_ok demo_engine demo_kv"
  by (simp add: kv_ok_def demo_engine_ok demo_kv_def db_ready_def sql_literal_def)

theorem kv_operations_refine_map_witness:
  "fst (kv_find demo_engine no_text ''a'' demo_kv) = Ok ''h:1''"
proof -
  have "sql_literal ''a''" and "sql_literal ''x''" by (simp_all add: sql_literal_def)
  from kv_operations_refine_map [OF demo_kv_ok this]
  obtain s' where "kv_find demo_engine no_text ''a'' demo_kv =
      (Ok (case kv_map demo_kv ''a'' of None \<Rightarrow> [] | Some v \<Rightarrow> v), s')" by blast
  then show ?thesis by (simp add: kv_map_def demo_kv_def)
qed

text \<open>
  Errors of a thread-safe engine are undefined: with an engine that needs no mutex, the error
  branch of an insertion whose key is already there (or of any call the engine refuses) unlocks a
  mutex that nobody holds, instead of throwing the error.
\<close>

lemma kv_insert_twice_is_undefined:
  assumes "kv_ok E s" and "sql_literal k" and "sql_literal v" and "kv_map s k \<noteq> None"
  shows "kv_insert E other k v s = (Abort Undefined_behaviour, s\<lparr>calls := Suc (calls s)\<rparr>)"
  by (rule kv_insert_dup [OF assms])

lemma kv_insert_twice_is_undefined_witness:
  "fst (kv_insert demo_engine no_text ''a'' ''h:2'' demo_kv) = Abort Undefined_behaviour"
  by (subst kv_insert_twice_is_undefined [OF demo_kv_ok])
    (simp_all add: demo_kv_def sql_literal_def kv_map_def)

text \<open>
  An engine that needs the mutex deadlocks: the mutex is locked behind the back of the deferred
  lock and never released, so with an engine that is not thread safe \<open>open\<close> succeeds, by creating
  the table, and leaves the mutex held: every later operation, and the destructor, locks it again.
\<close>

lemma kv_deadlocks_without_threadsafe_engine:
  assumes "\<not> threadsafe E" and "open_error E f = None" and "sql_error E (calls s) = None"
    and "\<not> mutex_held s"
  shows "\<exists>s'. kv_open E other stored f s = (Ok (), s') \<and> has_contacts (tables s') \<and>
    fst (kv_find E other k s') = Abort Deadlock \<and> fst (kv_insert E other k v s') = Abort Deadlock \<and>
    fst (kv_remove E other k s') = Abort Deadlock \<and> fst (kv_size E other s') = Abort Deadlock \<and>
    fst (kv_list_value E other l s') = Abort Deadlock \<and> fst (close_db s') = Abort Deadlock"
proof -
  let ?s = "s\<lparr>file_name := f, need_mutex := Some True, db_open := True, tables := stored f,
    mutex_held := True, calls := Suc (calls s), tables := (stored f)\<lparr>has_contacts := True\<rparr>\<rparr>"
  have "kv_open E other stored f s = (Ok (), ?s)"
    using assms by (simp add: kv_open_def open_file_def kv_create_table_def run_sql_def lock_db_def
        cpp_simps Let_def)
  moreover have "lock_db ?s = (Abort Deadlock, ?s)" by (simp add: lock_db_def)
  ultimately show ?thesis
    by (intro exI [of _ ?s]) (simp add: kv_find_def kv_insert_def kv_remove_def kv_size_def
        kv_list_value_def close_db_def bnd_run)
qed

lemma kv_deadlocks_without_threadsafe_engine_example:
  "\<exists>s'. kv_open (demo_engine\<lparr>threadsafe := False\<rparr>) no_text (\<lambda>f. \<lparr>has_contacts = False, kv_rows = []\<rparr>) ''f''
      (fresh_db \<lparr>has_contacts = False, kv_rows = []\<rparr>) = (Ok (), s') \<and>
     fst (kv_find (demo_engine\<lparr>threadsafe := False\<rparr>) no_text ''k'' s') = Abort Deadlock"
proof -
  let ?E = "demo_engine\<lparr>threadsafe := False\<rparr>" and ?s = "fresh_db \<lparr>has_contacts = False, kv_rows = []\<rparr>"
  have "\<not> threadsafe ?E" "open_error ?E ''f'' = None" "sql_error ?E (calls ?s) = None" "\<not> mutex_held ?s"
    by (simp_all add: demo_engine_def fresh_db_def)
  from kv_deadlocks_without_threadsafe_engine [OF this] show ?thesis by blast
qed

text \<open>
  Values reach the engine unescaped: a key is written into the statement between quotes as it is.
  A key with a quote in it ends the literal, and the engine runs the text that results: what
  \<open>remove\<close> then does is whatever that text means.
\<close>

lemma kv_remove_runs_the_raw_text:
  assumes "db_ready s" and "sql_error E (calls s) = None" and "CHR 0x27 \<in> set k"
  shows "tables (snd (kv_remove E other k s)) =
    snd (other (''DELETE FROM contacts WHERE key = '' @ [CHR 0x27] @ k @ [CHR 0x27]) (tables s))"
proof -
  have "\<not> sql_literal k" using assms(3) by (simp add: sql_literal_def)
  then show ?thesis
    using assms(1,2) by (simp add: kv_remove_def cpp_simps run_sql_def db_ready_def quoted_def unlock_db_def
        split: prod.split sum.split)
qed

lemma kv_remove_runs_the_raw_text_witness:
  "\<exists>other. kv_rows (tables (snd (kv_remove demo_engine other
     (''x'' @ [CHR 0x27] @ '' OR 1 OR '' @ [CHR 0x27]) demo_kv))) = []"
proof -
  let ?k = "''x'' @ [CHR 0x27] @ '' OR 1 OR '' @ [CHR 0x27]"
  let ?other = "\<lambda>txt t. (Inr [], t\<lparr>kv_rows := []\<rparr>)"
  have "db_ready demo_kv" "sql_error demo_engine (calls demo_kv) = None" "CHR 0x27 \<in> set ?k"
    by (simp_all add: demo_kv_def db_ready_def demo_engine_def)
  from kv_remove_runs_the_raw_text [OF this, of ?other] show ?thesis
    by (intro exI [of _ ?other]) simp
qed

end
