(* ===== verification/Record_Store.thy ===== *)
theory Record_Store
  imports Kv_Store
begin

text \<open>
  Class \<open>db_multi_key_data\<close> of \<open>Sources/miniDHT_db.cpp\<close>: the records a node stores for the network,
  spread over three tables: \<open>data_header(id, key, title)\<close>, \<open>data_time(time_id, time, ttl)\<close> and
  \<open>data_item(item_id, data)\<close>; the last two reference the first and are deleted with it.
\<close>

section \<open>State\<close>

record data_tables =
  has_header :: bool
  has_time_table :: bool
  has_item :: bool
  header_rows :: "(nat \<times> string \<times> string) list"
  time_rows :: "(nat \<times> int \<times> int) list"
  item_rows :: "(nat \<times> string) list"
  next_id :: nat

type_synonym data_other = "string \<Rightarrow> data_tables \<Rightarrow> sql_result \<times> data_tables"
type_synonym data_db = "data_tables sql_db"

definition no_tables :: data_tables where
  "no_tables = \<lparr>has_header = False, has_time_table = False, has_item = False,
     header_rows = [], time_rows = [], item_rows = [], next_id = 1\<rparr>"

text \<open>A statement needs the tables it names.\<close>

definition needing ::
  "(data_tables \<Rightarrow> bool) \<Rightarrow> (data_tables \<Rightarrow> sql_result \<times> data_tables) \<Rightarrow> data_tables \<Rightarrow> sql_result \<times> data_tables"
where
  "needing there stmt t = (if there t then stmt t else (Inl ''no such table'', t))"

text \<open>\<open>DELETE FROM data_header WHERE ...\<close> with the cascade to the referencing rows.\<close>

definition delete_headers :: "(nat \<times> string \<times> string \<Rightarrow> bool) \<Rightarrow> data_tables \<Rightarrow> data_tables" where
  "delete_headers gone t =
     (let ids = fst ` set (filter gone (header_rows t))
      in t\<lparr>header_rows := filter (\<lambda>h. \<not> gone h) (header_rows t),
           time_rows := filter (\<lambda>r. fst r \<notin> ids) (time_rows t),
           item_rows := filter (\<lambda>r. fst r \<notin> ids) (item_rows t)\<rparr>)"

definition has_key :: "string \<Rightarrow> nat \<times> string \<times> string \<Rightarrow> bool" where
  "has_key key h = (fst (snd h) = key)"

definition has_key_title :: "string \<Rightarrow> string \<Rightarrow> nat \<times> string \<times> string \<Rightarrow> bool" where
  "has_key_title key ttle h = (fst (snd h) = key \<and> snd (snd h) = ttle)"

section \<open>Operations that change the tables\<close>

text \<open>The statements of \<open>create_table\<close> are one text; the engine runs them in order up to an error.\<close>

definition data_create_table :: "sql_env \<Rightarrow> data_other \<Rightarrow> (data_db, unit) cpp" where
  "data_create_table E other =
     (let p = ''SQL error in CREATE TABLE : ''
      in thn lock_db
        (thn (exec_or_throw p (run_sql E other [] ''PRAGMA foreign_keys = ON;'' (\<lambda>n t. (Inr [], t))))
        (thn (exec_or_throw p (run_sql E other []
           ''CREATE TABLE IF NOT EXISTS data_header(id INTEGER PRIMARY KEY AUTOINCREMENT, key TEXT, title TEXT);''
           (\<lambda>n t. (Inr [], t\<lparr>has_header := True\<rparr>))))
        (thn (exec_or_throw p (run_sql E other []
           ''CREATE TABLE IF NOT EXISTS data_time(time_id INTEGER, time BIGINT, ttl BIGINT, FOREIGN KEY (time_id) REFERENCES data_header(id) ON DELETE CASCADE);''
           (\<lambda>n t. (Inr [], t\<lparr>has_time_table := True\<rparr>))))
        (thn (exec_or_throw p (run_sql E other []
           ''CREATE TABLE IF NOT EXISTS data_item(item_id INTEGER, data BLOB, FOREIGN KEY (item_id) REFERENCES data_header(id) ON DELETE CASCADE);''
           (\<lambda>n t. (Inr [], t\<lparr>has_item := True\<rparr>))))
        (thn (exec_or_throw p (run_sql E other []
           ''CREATE INDEX IF NOT EXISTS data_header_key_title ON data_header(key, title);''
           (\<lambda>n t. (Inr [], t))))
         (ret ())))))))"

definition data_open :: "sql_env \<Rightarrow> data_other \<Rightarrow> (string \<Rightarrow> data_tables) \<Rightarrow> string \<Rightarrow> (data_db, unit) cpp" where
  "data_open E other stored name = thn (open_file E stored name) (data_create_table E other)"

definition data_make :: "sql_env \<Rightarrow> data_other \<Rightarrow> (string \<Rightarrow> data_tables) \<Rightarrow> string \<Rightarrow> unit outcome \<times> data_db" where
  "data_make E other stored name = data_open E other stored name (fresh_db no_tables)"

text \<open>The destructor, which is that of \<open>db_key_value\<close> again.\<close>

definition close_data :: "(data_db, unit) cpp" where
  "close_data = bnd lock_db (\<lambda>_. writes (\<lambda>s. s\<lparr>db_open := False\<rparr>))"

text \<open>Dropping \<open>data_header\<close> deletes its rows first, with the cascade.\<close>

definition data_clear :: "sql_env \<Rightarrow> data_other \<Rightarrow> (data_db, unit) cpp" where
  "data_clear E other =
     (let p = ''SQL error in DROP table : ''
      in thn (thn lock_db (exec_or_throw p (run_sql E other [] ''DROP TABLE IF EXISTS data_header''
           (\<lambda>n t. (Inr [], (delete_headers (\<lambda>h. True) t)\<lparr>has_header := False, next_id := 1\<rparr>)))))
        (thn (thn lock_db (exec_or_throw p (run_sql E other [] ''DROP TABLE IF EXISTS data_time''
           (\<lambda>n t. (Inr [], t\<lparr>has_time_table := False, time_rows := []\<rparr>)))))
        (thn (thn lock_db (exec_or_throw p (run_sql E other [] ''DROP TABLE IF EXISTS data_item''
           (\<lambda>n t. (Inr [], t\<lparr>has_item := False, item_rows := []\<rparr>)))))
         (data_create_table E other))))"

definition data_remove :: "sql_env \<Rightarrow> data_other \<Rightarrow> string \<Rightarrow> string \<Rightarrow> (data_db, unit) cpp" where
  "data_remove E other key ttle =
     thn lock_db
       (thn (exec_or_throw ''SQL error in DELETE : ''
          (run_sql E other [key, ttle]
             (''DELETE FROM data_header WHERE key = '' @ quoted key @ '' AND title = '' @ quoted ttle)
             (\<lambda>n. needing has_header (\<lambda>t. (Inr [], delete_headers (has_key_title key ttle) t)))))
         (ret ()))"

text \<open>
  The subquery of \<open>remove_oldest\<close> joins the two tables without a condition: its rows are all pairs of
  a header and a time.  The first row by time, in the order the engine visits them, names the header.
\<close>

fun first_oldest :: "((nat \<times> string \<times> string) \<times> (nat \<times> int \<times> int)) list \<Rightarrow> nat option" where
  "first_oldest [] = None"
| "first_oldest (p # ps) =
     (if \<forall>q \<in> set ps. fst (snd (snd p)) \<le> fst (snd (snd q)) then Some (fst (fst p))
      else first_oldest ps)"

definition oldest_id :: "sql_env \<Rightarrow> nat \<Rightarrow> data_tables \<Rightarrow> nat option" where
  "oldest_id E n t = first_oldest (visit E n (List.product (header_rows t) (time_rows t)))"

definition data_remove_oldest :: "sql_env \<Rightarrow> data_other \<Rightarrow> (data_db, unit) cpp" where
  "data_remove_oldest E other =
     thn lock_db
       (thn (exec_or_throw ''SQL error in DELETE oldest : ''
          (run_sql E other []
             ''DELETE FROM data_header WHERE id IN (SELECT data_header.id FROM data_header, data_time ORDER BY data_time.time ASC LIMIT 1)''
             (\<lambda>n. needing (\<lambda>t. has_header t \<and> has_time_table t)
                (\<lambda>t. (Inr [], delete_headers (\<lambda>h. Some (fst h) = oldest_id E n t) t)))))
         (ret ()))"

text \<open>The second table is updated for every id that both tables have with this key and title.\<close>

definition matching_ids :: "string \<Rightarrow> string \<Rightarrow> data_tables \<Rightarrow> nat list" where
  "matching_ids key ttle t = map fst (filter (has_key_title key ttle) (header_rows t))"

definition data_update :: "sql_env \<Rightarrow> data_other \<Rightarrow> string \<Rightarrow> string \<Rightarrow> int \<Rightarrow> int \<Rightarrow> (data_db, unit) cpp" where
  "data_update E other key ttle tm lv =
     thn lock_db
       (thn (exec_or_throw ''SQL error in UPDATE table : ''
          (run_sql E other [key, ttle]
             (''UPDATE data_time SET time = '' @ quoted (show_int tm) @ '', ttl = '' @ quoted (show_int lv) @
              '' WHERE data_time.time_id IN ( SELECT data_time.time_id FROM data_time, data_header WHERE data_header.key = '' @
              quoted key @ '' AND data_header.title = '' @ quoted ttle @
              '' AND data_time.time_id = data_header.id)'')
             (\<lambda>n. needing (\<lambda>t. has_header t \<and> has_time_table t) (\<lambda>t.
                (Inr [], t\<lparr>time_rows := map (\<lambda>r.
                   if fst r \<in> set (matching_ids key ttle t) then (fst r, tm, lv) else r) (time_rows t)\<rparr>)))))
         (ret ()))"

text \<open>
  \<open>insert\<close>: three statements, without a transaction around them.  The second and the third insert a
  row for every header with this key and title.  A text that does not compile fails when it is
  prepared, and is not run.
\<close>

definition compiling :: "data_other \<Rightarrow> data_other" where
  "compiling other txt t = (case other txt t of (Inl msg, _) \<Rightarrow> (Inl msg, t) | (Inr _, _) \<Rightarrow> (Inr [], t))"

definition data_insert ::
  "sql_env \<Rightarrow> data_other \<Rightarrow> string \<Rightarrow> string \<Rightarrow> int \<Rightarrow> int \<Rightarrow> string \<Rightarrow> (data_db, unit) cpp" where
  "data_insert E other key ttle tm lv d =
     (let where_ids = '' FROM data_header WHERE data_header.key = '' @ quoted key @
            '' AND data_header.title = '' @ quoted ttle @ '' '';
          item_text = ''INSERT INTO data_item SELECT data_header.id, ?'' @ where_ids
      in thn lock_db
        (thn (exec_or_throw ''SQL error in INSERT data_header : ''
          (run_sql E other [key, ttle]
             (''INSERT INTO data_header VALUES(NULL, '' @ quoted key @ '', '' @ quoted ttle @ '')'')
             (\<lambda>n. needing has_header (\<lambda>t.
                (Inr [], t\<lparr>header_rows := header_rows t @ [(next_id t, key, ttle)],
                           next_id := Suc (next_id t)\<rparr>)))))
        (thn (exec_or_throw ''SQL error in INSERT data_time : ''
          (run_sql E other [key, ttle]
             (''INSERT INTO data_time SELECT data_header.id, '' @ quoted (show_int tm) @ '', '' @
              quoted (show_int lv) @ where_ids)
             (\<lambda>n. needing (\<lambda>t. has_header t \<and> has_time_table t) (\<lambda>t.
                (Inr [], t\<lparr>time_rows := time_rows t @
                   map (\<lambda>i. (i, tm, lv)) (visit E n (matching_ids key ttle t))\<rparr>)))))
        (thn (exec_or_throw ''SQL error in prepare INSERT data_item : ''
          (run_sql E (compiling other) [key, ttle] item_text
             (\<lambda>n. needing (\<lambda>t. has_header t \<and> has_item t) (\<lambda>t. (Inr [], t)))))
        (thn (bnd (run_sql E other [] [] (\<lambda>n t. (Inr [], t)))
               (\<lambda>r. case r of Inl msg \<Rightarrow> sql_throw ''SQL error binding data in INSERT!'' | Inr _ \<Rightarrow> ret ()))
        (thn (exec_or_throw ''SQL error step in INSERT : ''
          (run_sql E other [key, ttle] item_text
             (\<lambda>n. needing (\<lambda>t. has_header t \<and> has_item t) (\<lambda>t.
                (Inr [], t\<lparr>item_rows := item_rows t @
                   map (\<lambda>i. (i, d)) (visit E n (matching_ids key ttle t))\<rparr>)))))
         (ret ())))))))"

section \<open>Operations that read the tables\<close>

definition data_count :: "sql_env \<Rightarrow> data_other \<Rightarrow> string \<Rightarrow> (data_db, nat) cpp" where
  "data_count E other key =
     thn lock_db
       (bnd (exec_or_throw (''SQL error in SELECT Count(*) WHERE key = '' @ quoted key @ '' : '')
          (run_sql E other [key] (''SELECT Count(*) FROM data_header WHERE key = '' @ quoted key)
             (\<lambda>n. needing has_header (\<lambda>t.
                (Inr (count_row (length (filter (has_key key) (header_rows t)))), t)))))
         (\<lambda>rows. lift_outcome (count_result rows)))"

definition data_size :: "sql_env \<Rightarrow> data_other \<Rightarrow> (data_db, nat) cpp" where
  "data_size E other =
     thn lock_db
       (bnd (exec_or_throw ''SQL error in SELECT Count(*) : ''
          (run_sql E other [] ''SELECT Count(*) FROM data_header''
             (\<lambda>n. needing has_header (\<lambda>t. (Inr (count_row (length (header_rows t))), t)))))
         (\<lambda>rows. lift_outcome (count_result rows)))"

definition all_tables :: "data_tables \<Rightarrow> bool" where
  "all_tables t \<longleftrightarrow> has_header t \<and> has_time_table t \<and> has_item t"

text \<open>The columns of a row joined from the three tables.\<close>

definition joined_row ::
  "(nat \<times> string \<times> string) \<times> (nat \<times> int \<times> int) \<times> (nat \<times> string) \<Rightarrow> sql_row" where
  "joined_row = (\<lambda>((i, k, tt), (j, tm, lv), (l, d)).
     [(''time'', SInt tm), (''ttl'', SInt lv), (''title'', SText tt), (''data'', SBlob d)])"

definition cross ::
  "data_tables \<Rightarrow> ((nat \<times> string \<times> string) \<times> (nat \<times> int \<times> int) \<times> (nat \<times> string)) list" where
  "cross t = List.product (header_rows t) (List.product (time_rows t) (item_rows t))"

text \<open>
  The \<open>WHERE\<close> clause of \<open>find(key, title)\<close> restricts each table by itself: there is no condition
  between the row of one table and the row of another.  The ids of the times and items are looked up
  through a join with the headers.
\<close>

definition find_row_cond ::
  "(nat \<times> string \<times> string \<Rightarrow> bool) \<Rightarrow> data_tables \<Rightarrow>
     (nat \<times> string \<times> string) \<times> (nat \<times> int \<times> int) \<times> (nat \<times> string) \<Rightarrow> bool" where
  "find_row_cond sel t = (\<lambda>(h, r, it).
     (let ids = fst ` set (filter sel (header_rows t))
      in fst h \<in> ids \<and> fst r \<in> ids \<and> fst it \<in> ids))"

definition data_find_one ::
  "sql_env \<Rightarrow> data_other \<Rightarrow> string \<Rightarrow> string \<Rightarrow> data_item_proto \<Rightarrow> (data_db, data_item_proto) cpp" where
  "data_find_one E other key ttle out =
     thn lock_db
       (bnd (exec_or_throw ''SQL error in SELECT [key title] : ''
          (run_sql E other [key, ttle]
             (''SELECT data_time.time, data_time.ttl, data_header.title, data_item.data FROM data_header, data_time, data_item WHERE data_header.id IN (SELECT data_header.id FROM data_header WHERE key = '' @
              quoted key @ '' AND title = '' @ quoted ttle @
              '') AND data_time.time_id IN ( SELECT data_time.time_id FROM data_header, data_time WHERE data_header.key = '' @
              quoted key @ '' AND data_header.title = '' @ quoted ttle @
              ''  AND data_header.id = data_time.time_id) AND data_item.item_id IN ( SELECT data_item.item_id FROM data_header, data_item WHERE data_header.key = '' @
              quoted key @ '' AND data_header.title = '' @ quoted ttle @
              '' AND data_header.id = data_item.item_id);'')
             (\<lambda>n. needing all_tables (\<lambda>t.
                (Inr (map joined_row (visit E n (filter (find_row_cond (has_key_title key ttle) t) (cross t)))), t)))))
         (\<lambda>rows s.
            case fst (stepped E (calls s) rows) of
              [] \<Rightarrow> sql_throw (''SQL error in step : '' @ step_message E (calls s)) s
            | r # _ \<Rightarrow> (read_columns E True r out, s)))"

text \<open>The loop of the other queries: read every row, then look at what \<open>finalize\<close> says.\<close>

definition collect_items ::
  "sql_env \<Rightarrow> bool \<Rightarrow> string \<Rightarrow> data_item_proto list \<Rightarrow> sql_row list \<Rightarrow> (data_db, data_item_proto list) cpp" where
  "collect_items E with_blob msg out rows = (\<lambda>s.
     case stepped E (calls s) rows of (rs, fine) \<Rightarrow>
       (case read_items E with_blob rs out of
          Ok ds \<Rightarrow> if fine then (Ok ds, s) else sql_throw msg s
        | Throw e \<Rightarrow> (Throw e, s)
        | Abort f \<Rightarrow> (Abort f, s)))"

definition data_find ::
  "sql_env \<Rightarrow> data_other \<Rightarrow> string \<Rightarrow> data_item_proto list \<Rightarrow> (data_db, data_item_proto list) cpp" where
  "data_find E other key out =
     thn lock_db
       (bnd (exec_or_throw ''SQL error in SELECT [...] : ''
          (run_sql E other [key]
             (''SELECT data_time.time, data_time.ttl, data_header.title, data_item.data FROM data_header, data_time, data_item WHERE data_header.id IN ( SELECT data_header.id FROM data_header WHERE key = '' @
              quoted key @ '') AND data_time.time_id IN ( SELECT data_time.time_id FROM data_header, data_time WHERE data_header.key = '' @
              quoted key @ '' AND data_header.id = data_time.time_id) AND data_item.item_id IN ( SELECT data_item.item_id FROM data_header, data_item WHERE data_header.key = '' @
              quoted key @ '' AND data_header.id = data_item.item_id);'')
             (\<lambda>n. needing all_tables (\<lambda>t.
                (Inr (map joined_row (visit E n (filter (find_row_cond (has_key key) t) (cross t)))), t)))))
         (collect_items E True ''SQL error finalize in SELECT * !'' out))"

text \<open>\<open>find_no_blob\<close> still names \<open>data_item\<close>, and does not restrict it at all.\<close>

definition no_blob_cond ::
  "string \<Rightarrow> data_tables \<Rightarrow> (nat \<times> string \<times> string) \<times> (nat \<times> int \<times> int) \<times> (nat \<times> string) \<Rightarrow> bool" where
  "no_blob_cond key t = (\<lambda>(h, r, it).
     (let ids = fst ` set (filter (has_key key) (header_rows t)) in fst h \<in> ids \<and> fst r \<in> ids))"

definition data_find_no_blob ::
  "sql_env \<Rightarrow> data_other \<Rightarrow> string \<Rightarrow> data_item_proto list \<Rightarrow> (data_db, data_item_proto list) cpp" where
  "data_find_no_blob E other key out =
     thn lock_db
       (bnd (exec_or_throw ''SQL error in SELECT [...] : ''
          (run_sql E other [key]
             (''SELECT data_time.time, data_time.ttl, data_header.title FROM data_header, data_time, data_item WHERE data_header.id IN ( SELECT data_header.id FROM data_header WHERE key = '' @
              quoted key @ '') AND data_time.time_id IN ( SELECT data_time.time_id FROM data_header, data_time WHERE data_header.key = '' @
              quoted key @ '' AND data_header.id = data_time.time_id)'')
             (\<lambda>n. needing all_tables (\<lambda>t.
                (Inr (map (take 3 \<circ> joined_row) (visit E n (filter (no_blob_cond key t) (cross t)))), t)))))
         (collect_items E False ''SQL error finalize in SELECT * !'' out))"

text \<open>The two listings join the tables on the id.\<close>

definition joined :: "(nat \<times> string \<times> string) \<times> (nat \<times> int \<times> int) \<times> (nat \<times> string) \<Rightarrow> bool" where
  "joined = (\<lambda>(h, r, it). fst h = fst r \<and> fst h = fst it)"

text \<open>\<open>list\<close> looks for a column \<open>key\<close> that its query does not select.\<close>

fun list_loop ::
  "sql_env \<Rightarrow> sql_row list \<Rightarrow> (string \<times> data_item_proto) list \<Rightarrow> (string \<times> data_item_proto) list outcome"
where
  "list_loop E [] out = Ok out"
| "list_loop E (r # rs) out =
     (case read_columns E True r default_item of
        Ok d \<Rightarrow>
          (case (case map_of r ''key'' of None \<Rightarrow> Ok [] | Some v \<Rightarrow> column_text v) of
             Ok k \<Rightarrow> list_loop E rs (mm_insert k d out)
           | Throw e \<Rightarrow> Throw e | Abort f \<Rightarrow> Abort f)
      | Throw e \<Rightarrow> Throw e | Abort f \<Rightarrow> Abort f)"

definition data_list ::
  "sql_env \<Rightarrow> data_other \<Rightarrow> (string \<times> data_item_proto) list \<Rightarrow> (data_db, (string \<times> data_item_proto) list) cpp"
where
  "data_list E other out =
     thn lock_db
       (bnd (exec_or_throw ''SQL error in SELECT * : ''
          (run_sql E other []
             ''SELECT data_time.time, data_time.ttl, data_header.title, data_item.data FROM data_header, data_time, data_item WHERE data_header.id = data_time.time_id AND data_header.id = data_item.item_id''
             (\<lambda>n. needing all_tables (\<lambda>t.
                (Inr (map joined_row (visit E n (filter joined (cross t)))), t)))))
         (\<lambda>rows s. case stepped E (calls s) rows of (rs, fine) \<Rightarrow>
            (case list_loop E rs out of
               Ok l \<Rightarrow> if fine then (Ok l, s) else sql_throw ''SQL error finalize in SELECT * !'' s
             | Throw e \<Rightarrow> (Throw e, s) | Abort f \<Rightarrow> (Abort f, s))))"

record data_item_header =
  h_key :: string
  h_title :: string
  h_time :: int
  h_ttl :: int

definition header_row ::
  "(nat \<times> string \<times> string) \<times> (nat \<times> int \<times> int) \<times> (nat \<times> string) \<Rightarrow> sql_row" where
  "header_row = (\<lambda>((i, k, tt), (j, tm, lv), (l, d)).
     [(''key'', SText k), (''time'', SInt tm), (''ttl'', SInt lv), (''title'', SText tt)])"

fun read_header :: "sql_env \<Rightarrow> sql_row \<Rightarrow> data_item_header \<Rightarrow> data_item_header outcome" where
  "read_header E [] h = Ok h"
| "read_header E ((n, v) # cs) h =
     (if n = ''key'' then
        (case column_text v of Ok t \<Rightarrow> read_header E cs (h\<lparr>h_key := t\<rparr>)
         | Throw e \<Rightarrow> Throw e | Abort f \<Rightarrow> Abort f)
      else if n = ''time'' then read_header E cs (h\<lparr>h_time := column_int64 E v\<rparr>)
      else if n = ''ttl'' then read_header E cs (h\<lparr>h_ttl := column_int64 E v\<rparr>)
      else if n = ''title'' then
        (case column_text v of Ok t \<Rightarrow> read_header E cs (h\<lparr>h_title := t\<rparr>)
         | Throw e \<Rightarrow> Throw e | Abort f \<Rightarrow> Abort f)
      else read_header E cs h)"

text \<open>The two numbers of a header start without a value; every row of the query sets them.\<close>

fun read_headers :: "sql_env \<Rightarrow> sql_row list \<Rightarrow> data_item_header list \<Rightarrow> data_item_header list outcome" where
  "read_headers E [] out = Ok out"
| "read_headers E (r # rs) out =
     (case read_header E r \<lparr>h_key = [], h_title = [], h_time = 0, h_ttl = 0\<rparr> of
        Ok h \<Rightarrow> read_headers E rs (out @ [h])
      | Throw e \<Rightarrow> Throw e | Abort f \<Rightarrow> Abort f)"

definition data_list_headers ::
  "sql_env \<Rightarrow> data_other \<Rightarrow> data_item_header list \<Rightarrow> (data_db, data_item_header list) cpp" where
  "data_list_headers E other out =
     thn lock_db
       (bnd (exec_or_throw ''SQL error in SELECT key, time, ttl, title : ''
          (run_sql E other []
             ''SELECT data_header.key, data_time.time, data_time.ttl, data_header.title FROM data_header, data_time, data_item WHERE data_header.id = data_time.time_id AND data_header.id = data_item.item_id''
             (\<lambda>n. needing all_tables (\<lambda>t.
                (Inr (map header_row (visit E n (filter joined (cross t)))), t)))))
         (\<lambda>rows s. case stepped E (calls s) rows of (rs, fine) \<Rightarrow>
            (case read_headers E rs out of
               Ok l \<Rightarrow> if fine then (Ok l, s)
                       else sql_throw ''SQL error finalize in SELECT key, time, ttl, title !'' s
             | Throw e \<Rightarrow> (Throw e, s) | Abort f \<Rightarrow> (Abort f, s))))"

section \<open>The tables as a list of records\<close>

text \<open>
  Where every header has one time and one item, the tables are the three projections of one list of
  records: an id, a key and a title, a time with a time to live and the data.
\<close>

type_synonym store_row = "nat \<times> (string \<times> string) \<times> (int \<times> int \<times> string)"

definition header_of :: "store_row \<Rightarrow> nat \<times> string \<times> string" where
  "header_of r = (fst r, fst (snd r))"

definition time_of :: "store_row \<Rightarrow> nat \<times> int \<times> int" where
  "time_of r = (fst r, fst (snd (snd r)), fst (snd (snd (snd r))))"

definition item_of :: "store_row \<Rightarrow> nat \<times> string" where
  "item_of r = (fst r, snd (snd (snd (snd r))))"

definition rows_of :: "data_tables \<Rightarrow> store_row list" where
  "rows_of t = map (\<lambda>(h, r, it). (fst h, snd h, (fst (snd r), snd (snd r), snd it)))
     (zip (header_rows t) (zip (time_rows t) (item_rows t)))"

definition rep :: "data_tables \<Rightarrow> store_row list \<Rightarrow> bool" where
  "rep t rs \<longleftrightarrow> header_rows t = map header_of rs \<and> time_rows t = map time_of rs \<and>
     item_rows t = map item_of rs"

lemmas row_simps = header_of_def time_of_def item_of_def

lemma fst_row: "fst (header_of r) = fst r" "fst (time_of r) = fst r" "fst (item_of r) = fst r"
  by (simp_all add: row_simps)

lemma rows_of_rep: "rep t rs \<Longrightarrow> rows_of t = rs"
proof -
  have "map (\<lambda>(h, r, it). (fst h, snd h, (fst (snd r), snd (snd r), snd it)))
      (zip (map header_of rs) (zip (map time_of rs) (map item_of rs))) = rs"
    by (induction rs) (simp_all add: row_simps)
  then show "rep t rs \<Longrightarrow> rows_of t = rs" by (simp add: rep_def rows_of_def)
qed

definition rows_ok :: "nat \<Rightarrow> store_row list \<Rightarrow> bool" where
  "rows_ok n rs \<longleftrightarrow> distinct (map fst rs) \<and> (\<forall>r \<in> set rs. fst r < n) \<and>
     distinct (map (\<lambda>r. fst (snd r)) rs) \<and>
     (\<forall>r \<in> set rs. sql_literal (fst (fst (snd r))) \<and> sql_literal (snd (fst (snd r))))"

definition data_ok :: "sql_env \<Rightarrow> data_db \<Rightarrow> bool" where
  "data_ok E s \<longleftrightarrow> engine_ok E \<and> db_ready s \<and> all_tables (tables s) \<and>
     rep (tables s) (rows_of (tables s)) \<and> rows_ok (next_id (tables s)) (rows_of (tables s)) \<and>
     length (rows_of (tables s)) < 2 ^ 31"

definition data_rows :: "data_db \<Rightarrow> store_row list" where
  "data_rows s = rows_of (tables s)"

definition data_map :: "data_db \<Rightarrow> string \<times> string \<Rightarrow> (int \<times> int \<times> string) option" where
  "data_map s = map_of (map snd (data_rows s))"

lemma rep_delete:
  assumes "rep t rs" and "distinct (map fst rs)"
  shows "rep (delete_headers gone t) (filter (\<lambda>r. \<not> gone (header_of r)) rs)"
proof -
  define ids where "ids = fst ` set (filter gone (map header_of rs))"
  have mem: "fst r \<in> ids \<longleftrightarrow> gone (header_of r)" if "r \<in> set rs" for r
  proof
    assume "fst r \<in> ids"
    then obtain r' where r': "r' \<in> set rs" "gone (header_of r')" "fst r' = fst r"
      by (auto simp: header_of_def ids_def)
    then have "r' = r" using assms(2) that by (auto simp: distinct_map dest: inj_onD)
    with r' show "gone (header_of r)" by simp
  next
    assume "gone (header_of r)"
    then have "header_of r \<in> set (filter gone (map header_of rs))" using that by auto
    then have "fst (header_of r) \<in> ids" unfolding ids_def by (rule imageI)
    then show "fst r \<in> ids" by (simp add: header_of_def)
  qed
  have t: "filter (\<lambda>x. fst x \<notin> ids) (map f rs) = map f (filter (\<lambda>r. \<not> gone (header_of r)) rs)"
    if "\<And>r. fst (f r) = fst r" for f :: "store_row \<Rightarrow> nat \<times> 'a"
    using that by (simp add: filter_map comp_def mem cong: filter_cong)
  have ids: "fst ` set (filter gone (header_rows t)) = ids" using assms(1) by (simp add: rep_def ids_def)
  have "filter (\<lambda>h. \<not> gone h) (map header_of rs) = map header_of (filter (\<lambda>r. \<not> gone (header_of r)) rs)"
    by (simp add: filter_map comp_def)
  then show ?thesis
    using assms(1) t [of time_of] t [of item_of]
    unfolding rep_def delete_headers_def Let_def ids by (simp add: row_simps)
qed

lemma delete_headers_frame [simp]:
  "next_id (delete_headers gone t) = next_id t" "all_tables (delete_headers gone t) = all_tables t"
  by (simp_all add: delete_headers_def Let_def all_tables_def)

lemma rows_ok_filter: "rows_ok n rs \<Longrightarrow> rows_ok n (filter P rs)"
  by (auto simp: rows_ok_def distinct_map_filter)

lemma data_ok_parts:
  assumes "data_ok E s"
  shows "engine_ok E" and "db_ready s" and "all_tables (tables s)" and "rep (tables s) (data_rows s)"
    and "rows_ok (next_id (tables s)) (data_rows s)" and "length (data_rows s) < 2 ^ 31"
    and "has_header (tables s)" and "has_time_table (tables s)" and "has_item (tables s)"
  using assms by (auto simp: data_ok_def data_rows_def all_tables_def)

text \<open>The states an operation reaches: another call of the engine, other rows.\<close>

lemma data_okI:
  assumes "data_ok E s" and "rep t rs" and "all_tables t" and "rows_ok (next_id t) rs"
    and "length rs < 2 ^ 31"
  shows "data_ok E (s\<lparr>calls := n, tables := t\<rparr>)" and "data_rows (s\<lparr>calls := n, tables := t\<rparr>) = rs"
  using assms by (simp_all add: data_ok_def data_rows_def rows_of_rep)

lemma data_ok_calls: "data_ok E s \<Longrightarrow> data_ok E (s\<lparr>calls := n\<rparr>)"
  by (simp add: data_ok_def)

lemma data_rows_calls [simp]: "data_rows (s\<lparr>calls := n\<rparr>) = data_rows s"
  by (simp add: data_rows_def)

section \<open>What each operation does to the records\<close>

lemma data_count_run:
  assumes "data_ok E s" and "sql_literal k"
  shows "data_count E other k s =
    (Ok (length (filter (\<lambda>r. fst (fst (snd r)) = k) (data_rows s))), s\<lparr>calls := Suc (calls s)\<rparr>)"
proof -
  note ok = data_ok_parts [OF assms(1)]
  have "filter (has_key k) (header_rows (tables s)) =
      map header_of (filter (\<lambda>r. fst (fst (snd r)) = k) (data_rows s))"
    using ok(4) by (simp add: rep_def filter_map comp_def has_key_def header_of_def)
  moreover have "length (filter (\<lambda>r. fst (fst (snd r)) = k) (data_rows s)) < 2 ^ 31"
    using ok(6) length_filter_le order.strict_trans1 by blast
  ultimately show ?thesis
    using assms(2) ok unfolding data_count_def
    by (subst locked_statement) (simp_all add: needing_def lift_outcome_run count_result_row)
qed

lemma data_size_run:
  assumes "data_ok E s"
  shows "data_size E other s = (Ok (length (data_rows s)), s\<lparr>calls := Suc (calls s)\<rparr>)"
proof -
  note ok = data_ok_parts [OF assms(1)]
  have "length (header_rows (tables s)) = length (data_rows s)" using ok(4) by (simp add: rep_def)
  then show ?thesis
    using ok unfolding data_size_def
    by (subst locked_statement) (simp_all add: needing_def lift_outcome_run count_result_row)
qed

lemma data_remove_run:
  assumes "data_ok E s" and "sql_literal k" and "sql_literal ti"
  shows "\<exists>s'. data_remove E other k ti s = (Ok (), s') \<and> data_ok E s' \<and>
    data_rows s' = filter (\<lambda>r. fst (snd r) \<noteq> (k, ti)) (data_rows s)"
proof -
  note ok = data_ok_parts [OF assms(1)]
  let ?t = "delete_headers (has_key_title k ti) (tables s)"
  have run: "data_remove E other k ti s = (Ok (), s\<lparr>calls := Suc (calls s), tables := ?t\<rparr>)"
    using assms(2,3) ok unfolding data_remove_def
    by (subst locked_statement) (simp_all add: needing_def ret_run)
  have sel: "has_key_title k ti (header_of r) \<longleftrightarrow> fst (snd r) = (k, ti)" for r
    by (auto simp: has_key_title_def header_of_def)
  have rep: "rep ?t (filter (\<lambda>r. fst (snd r) \<noteq> (k, ti)) (data_rows s))"
    using rep_delete [OF ok(4), of "has_key_title k ti"] ok(5) by (simp add: rows_ok_def sel)
  have "length (filter (\<lambda>r. fst (snd r) \<noteq> (k, ti)) (data_rows s)) < 2 ^ 31"
    using ok(6) length_filter_le order.strict_trans1 by blast
  then show ?thesis
    using data_okI [OF assms(1) rep] ok(3,5) run rows_ok_filter by auto
qed

lemma first_oldest_Some:
  "ps \<noteq> [] \<Longrightarrow> \<exists>p \<in> set ps. first_oldest ps = Some (fst (fst p)) \<and>
     (\<forall>q \<in> set ps. fst (snd (snd p)) \<le> fst (snd (snd q)))"
proof (induction ps)
  case Nil
  then show ?case by simp
next
  case (Cons p ps)
  show ?case
  proof (cases "\<forall>q \<in> set ps. fst (snd (snd p)) \<le> fst (snd (snd q))")
    case True
    then show ?thesis by auto
  next
    case False
    then have "ps \<noteq> []" by auto
    with Cons.IH obtain p' where p': "p' \<in> set ps" "first_oldest ps = Some (fst (fst p'))"
      "\<forall>q \<in> set ps. fst (snd (snd p')) \<le> fst (snd (snd q))" by blast
    moreover have "fst (snd (snd p')) \<le> fst (snd (snd p))" using False p'(3) by force
    ultimately show ?thesis using False by auto
  qed
qed

lemma data_remove_oldest_run:
  assumes "data_ok E s"
  shows "\<exists>s'. data_remove_oldest E other s = (Ok (), s') \<and> data_ok E s' \<and>
    (if data_rows s = [] then data_rows s' = []
     else \<exists>r \<in> set (data_rows s). data_rows s' = filter (\<lambda>q. fst q \<noteq> fst r) (data_rows s))"
proof -
  note ok = data_ok_parts [OF assms(1)]
  let ?o = "oldest_id E (calls s) (tables s)"
  let ?t = "delete_headers (\<lambda>h. Some (fst h) = ?o) (tables s)"
  let ?rs = "filter (\<lambda>r. Some (fst r) \<noteq> ?o) (data_rows s)"
  have run: "data_remove_oldest E other s = (Ok (), s\<lparr>calls := Suc (calls s), tables := ?t\<rparr>)"
    using ok unfolding data_remove_oldest_def
    by (subst locked_statement) (simp_all add: needing_def ret_run)
  have rep: "rep ?t ?rs"
    using rep_delete [OF ok(4), of "\<lambda>h. Some (fst h) = ?o"] ok(5) by (simp add: rows_ok_def header_of_def)
  have "length ?rs < 2 ^ 31" using ok(6) length_filter_le order.strict_trans1 by blast
  then have s': "data_ok E (s\<lparr>calls := Suc (calls s), tables := ?t\<rparr>)"
    "data_rows (s\<lparr>calls := Suc (calls s), tables := ?t\<rparr>) = ?rs"
    using data_okI [OF assms(1) rep] ok(3,5) rows_ok_filter by auto
  have one: "\<exists>r \<in> set (data_rows s). ?rs = filter (\<lambda>q. fst q \<noteq> fst r) (data_rows s)"
    if "data_rows s \<noteq> []"
  proof -
    have hs: "header_rows (tables s) = map header_of (data_rows s)"
      and ts: "time_rows (tables s) = map time_of (data_rows s)" using ok(4) by (auto simp: rep_def)
    let ?ps = "visit E (calls s) (List.product (header_rows (tables s)) (time_rows (tables s)))"
    have set: "set ?ps = set (header_rows (tables s)) \<times> set (time_rows (tables s))"
      by (simp add: set_visit [OF ok(1)])
    moreover obtain r0 where "r0 \<in> set (data_rows s)" 
      using last_in_set [OF \<open>data_rows s \<noteq> []\<close>] by blast
    ultimately have "(header_of r0, time_of r0) \<in> set ?ps" using hs ts by simp
    then have "?ps \<noteq> []" by (metis empty_iff list.set(1))
    then obtain p where "p \<in> set ?ps" "?o = Some (fst (fst p))"
      using first_oldest_Some unfolding oldest_id_def by blast
    then obtain r where "r \<in> set (data_rows s)" "?o = Some (fst r)"
      using set hs by (auto simp: header_of_def)
    then show ?thesis by (intro bexI [of _ r]) auto
  qed
  show ?thesis
  proof (cases "data_rows s = []")
    case True
    with run s' show ?thesis by auto
  next
    case False
    with run s' one show ?thesis by auto
  qed
qed

lemma rep_ids:
  assumes "rep t rs"
  shows "matching_ids k ti t = map fst (filter (\<lambda>r. fst (snd r) = (k, ti)) rs)"
proof -
  have "has_key_title k ti (header_of r) \<longleftrightarrow> fst (snd r) = (k, ti)" for r
    by (auto simp: has_key_title_def header_of_def)
  then show ?thesis
    using assms by (simp add: rep_def matching_ids_def filter_map comp_def header_of_def)
qed

text \<open>The row of a key and title with another time.\<close>

definition retimed :: "string \<Rightarrow> string \<Rightarrow> int \<Rightarrow> int \<Rightarrow> store_row \<Rightarrow> store_row" where
  "retimed k ti tm lv r =
     (if fst (snd r) = (k, ti) then (fst r, fst (snd r), (tm, lv, snd (snd (snd (snd r))))) else r)"

lemma retimed_same [simp]: "fst (retimed k ti tm lv r) = fst r" "fst (snd (retimed k ti tm lv r)) = fst (snd r)"
  by (simp_all add: retimed_def)

lemma data_update_run:
  assumes "data_ok E s" and "sql_literal k" and "sql_literal ti"
  shows "\<exists>s'. data_update E other k ti tm lv s = (Ok (), s') \<and> data_ok E s' \<and>
    data_rows s' = map (retimed k ti tm lv) (data_rows s)"
proof -
  note ok = data_ok_parts [OF assms(1)]
  let ?ids = "set (matching_ids k ti (tables s))"
  let ?t = "(tables s)\<lparr>time_rows := map (\<lambda>r. if fst r \<in> ?ids then (fst r, tm, lv) else r) (time_rows (tables s))\<rparr>"
  let ?rs = "map (retimed k ti tm lv) (data_rows s)"
  have run: "data_update E other k ti tm lv s = (Ok (), s\<lparr>calls := Suc (calls s), tables := ?t\<rparr>)"
    using assms(2,3) ok unfolding data_update_def
    by (subst locked_statement) (simp_all add: needing_def ret_run)
  have mem: "fst r \<in> ?ids \<longleftrightarrow> fst (snd r) = (k, ti)" if "r \<in> set (data_rows s)" for r
    using that ok(5) inj_onD [of fst "set (data_rows s)" r]
    by (force simp: rep_ids [OF ok(4)] rows_ok_def distinct_map)
  have "(if fst (time_of r) \<in> ?ids then (fst (time_of r), tm, lv) else time_of r) =
      time_of (retimed k ti tm lv r)" if "r \<in> set (data_rows s)" for r
    using mem [OF that] by (simp add: time_of_def retimed_def)
  moreover have "header_of (retimed k ti tm lv r) = header_of r" and "item_of (retimed k ti tm lv r) = item_of r" for r
    by (simp_all add: header_of_def item_of_def retimed_def)
  ultimately have rep: "rep ?t ?rs" using ok(4) by (simp add: rep_def comp_def)
  have "rows_ok (next_id (tables s)) ?rs" using ok(5) by (simp add: rows_ok_def comp_def)
  then have "data_ok E (s\<lparr>calls := Suc (calls s), tables := ?t\<rparr>)"
    "data_rows (s\<lparr>calls := Suc (calls s), tables := ?t\<rparr>) = ?rs"
    using data_okI [OF assms(1) rep] ok(3,6) by (auto simp: all_tables_def)
  with run show ?thesis by blast
qed

text \<open>One more statement in a sequence of them.\<close>

lemma next_statement:
  assumes "db_ready s" and "engine_ok E" and "\<forall>v \<in> set vals. sql_literal v"
    and "stmt (calls s) (tables s) = (Inr rows, t)"
  shows "thn (exec_or_throw p (run_sql E other vals txt stmt)) k s =
    k (s\<lparr>calls := Suc (calls s), tables := t\<rparr>)"
  by (simp only: bnd_run exec_run run_sql_ready [OF assms(1-3)] assms(4) prod.case outcome.case sum.case)

lemma next_bind:
  assumes "db_ready s" and "engine_ok E"
  shows "thn (bnd (run_sql E other [] txt (\<lambda>n t. (Inr [], t)))
      (\<lambda>r. case r of Inl msg \<Rightarrow> sql_throw m | Inr _ \<Rightarrow> ret ())) k s = k (s\<lparr>calls := Suc (calls s)\<rparr>)"
  using assms by (simp add: cpp_simps)

lemma data_insert_run:
  assumes "data_ok E s" and "sql_literal k" and "sql_literal ti"
    and "(k, ti) \<notin> (\<lambda>r. fst (snd r)) ` set (data_rows s)"
  shows "data_insert E other k ti tm lv d s = (Ok (), s\<lparr>calls := calls s + 5,
    tables := (tables s)\<lparr>header_rows := header_rows (tables s) @ [(next_id (tables s), k, ti)],
      time_rows := time_rows (tables s) @ [(next_id (tables s), tm, lv)],
      item_rows := item_rows (tables s) @ [(next_id (tables s), d)],
      next_id := Suc (next_id (tables s))\<rparr>\<rparr>)"
proof -
  note ok = data_ok_parts [OF assms(1)]
  let ?n = "next_id (tables s)"
  let ?t1 = "(tables s)\<lparr>header_rows := header_rows (tables s) @ [(?n, k, ti)], next_id := Suc ?n\<rparr>"
  let ?t2 = "?t1\<lparr>time_rows := time_rows (tables s) @ [(?n, tm, lv)]\<rparr>"
  let ?t3 = "?t2\<lparr>item_rows := item_rows (tables s) @ [(?n, d)]\<rparr>"
  have "filter (has_key_title k ti) (header_rows (tables s)) = []"
    using assms(4) ok(4) by (force simp: rep_def header_of_def has_key_title_def filter_empty_conv)
  then have ids: "matching_ids k ti t = [?n]" if "header_rows t = header_rows ?t1" for t
    using that by (simp add: matching_ids_def has_key_title_def)
  have lits: "\<forall>v \<in> set [k, ti]. sql_literal v" using assms(2,3) by simp
  define s1 where "s1 = s\<lparr>calls := Suc (calls s), tables := ?t1\<rparr>"
  define s2 where "s2 = s1\<lparr>calls := Suc (calls s1), tables := ?t2\<rparr>"
  define s3 where "s3 = s2\<lparr>calls := Suc (calls s2), tables := ?t2\<rparr>"
  define s4 where "s4 = s3\<lparr>calls := Suc (calls s3)\<rparr>"
  define s5 where "s5 = s4\<lparr>calls := Suc (calls s4), tables := ?t3\<rparr>"
  note defs = s5_def s4_def s3_def s2_def s1_def
  have ready: "db_ready s1" "db_ready s2" "db_ready s3" "db_ready s4"
    using ok(2) by (simp_all add: defs)
  have tabs: "has_header ?t1" "has_time_table ?t1" "has_item ?t1" using ok(7-9) by simp_all
  have "data_insert E other k ti tm lv d s = (Ok (), s5)"
    unfolding data_insert_def Let_def
    apply (subst locked_statement_ok [OF ok(2,1) lits, where rows = "[]" and t = ?t1])
     apply (simp add: needing_def ok(7))
    apply (subst s1_def [symmetric])
    apply (subst next_statement [OF ready(1) ok(1) lits, where rows = "[]" and t = ?t2])
     apply (simp add: needing_def s1_def ok(7,8) ids ok(1))
    apply (subst s2_def [symmetric])
    apply (subst next_statement [OF ready(2) ok(1) lits, where rows = "[]" and t = ?t2])
     apply (simp add: needing_def s2_def ok(7,9))
    apply (subst s3_def [symmetric])
    apply (subst next_bind [OF ready(3) ok(1)])
    apply (subst s4_def [symmetric])
    apply (subst next_statement [OF ready(4) ok(1) lits, where rows = "[]" and t = ?t3])
     apply (simp add: needing_def s2_def s3_def s4_def ok(7,9) ids ok(1))
    apply (simp only: ret_run s5_def)
    done
  moreover have "s5 = s\<lparr>calls := calls s + 5, tables := ?t3\<rparr>" by (simp add: defs)
  ultimately show ?thesis by simp
qed

lemma data_insert_rows:
  assumes "data_ok E s" and "sql_literal k" and "sql_literal ti"
    and "(k, ti) \<notin> (\<lambda>r. fst (snd r)) ` set (data_rows s)" and "length (data_rows s) < 2 ^ 31 - 1"
  shows "\<exists>s' i. data_insert E other k ti tm lv d s = (Ok (), s') \<and> data_ok E s' \<and>
    data_rows s' = data_rows s @ [(i, (k, ti), (tm, lv, d))]"
proof -
  note ok = data_ok_parts [OF assms(1)]
  let ?n = "next_id (tables s)"
  let ?t = "(tables s)\<lparr>header_rows := header_rows (tables s) @ [(?n, k, ti)],
      time_rows := time_rows (tables s) @ [(?n, tm, lv)],
      item_rows := item_rows (tables s) @ [(?n, d)], next_id := Suc ?n\<rparr>"
  let ?rs = "data_rows s @ [(?n, (k, ti), (tm, lv, d))]"
  have rep: "rep ?t ?rs" using ok(4) by (simp add: rep_def row_simps)
  have "rows_ok (next_id ?t) ?rs"
    using ok(5) assms(2-4) by (fastforce simp: rows_ok_def)
  then have "data_ok E (s\<lparr>calls := calls s + 5, tables := ?t\<rparr>)"
    "data_rows (s\<lparr>calls := calls s + 5, tables := ?t\<rparr>) = ?rs"
    using data_okI [OF assms(1) rep] ok(3) assms(5) by (auto simp: all_tables_def)
  then show ?thesis using data_insert_run [OF assms(1-4), of other tm lv d] by blast
qed

subsection \<open>Queries\<close>

definition triple :: "store_row \<Rightarrow> (nat \<times> string \<times> string) \<times> (nat \<times> int \<times> int) \<times> (nat \<times> string)" where
  "triple r = (header_of r, time_of r, item_of r)"

definition triple_item ::
  "bool \<Rightarrow> (nat \<times> string \<times> string) \<times> (nat \<times> int \<times> int) \<times> (nat \<times> string) \<Rightarrow> data_item_proto" where
  "triple_item b = (\<lambda>(h, r, it). \<lparr>ttl = word_of_int (snd (snd r)), time = word_of_int (fst (snd r)),
     title = snd (snd h), data = if b then snd it else []\<rparr>)"

definition triple_header ::
  "(nat \<times> string \<times> string) \<times> (nat \<times> int \<times> int) \<times> (nat \<times> string) \<Rightarrow> data_item_header" where
  "triple_header = (\<lambda>(h, r, it). \<lparr>h_key = fst (snd h), h_title = snd (snd h),
     h_time = fst (snd r), h_ttl = snd (snd r)\<rparr>)"

lemma read_columns_joined:
  assumes "sql_literal (snd (snd (fst x)))"
  shows "read_columns E True (joined_row x) out = Ok (triple_item True x)"
    and "read_columns E False (take 3 (joined_row x)) default_item = Ok (triple_item False x)"
proof -
  obtain i k tt j tm lv l d where x: "x = ((i, k, tt), (j, tm, lv), (l, d))"
    by (metis prod.exhaust)
  have tt: "column_text (SText tt) = Ok tt" using assms by (simp add: x column_text_def until_nul_literal)
  show "read_columns E True (joined_row x) out = Ok (triple_item True x)"
    by (simp add: x joined_row_def triple_item_def Let_def tt column_int64_def column_blob_def)
  have "take 3 (joined_row x) = [(''time'', SInt tm), (''ttl'', SInt lv), (''title'', SText tt)]"
    by (simp add: x joined_row_def numeral_3_eq_3)
  then show "read_columns E False (take 3 (joined_row x)) default_item = Ok (triple_item False x)"
    by (simp add: x triple_item_def Let_def tt column_int64_def default_item_def)
qed

lemma read_items_joined:
  assumes "\<forall>x \<in> set xs. sql_literal (snd (snd (fst x)))"
  shows "read_items E True (map joined_row xs) out = Ok (out @ map (triple_item True) xs)"
    and "read_items E False (map (take 3 \<circ> joined_row) xs) out = Ok (out @ map (triple_item False) xs)"
  using assms by (induction xs arbitrary: out) (auto simp: read_columns_joined)

lemma read_headers_joined:
  assumes "\<forall>x \<in> set xs. sql_literal (fst (snd (fst x))) \<and> sql_literal (snd (snd (fst x)))"
  shows "read_headers E (map header_row xs) out = Ok (out @ map triple_header xs)"
  using assms
  by (induction xs arbitrary: out)
    (auto simp: header_row_def column_text_def column_int64_def until_nul_literal triple_header_def)

lemma distinct_cross:
  assumes "rep t rs" and "distinct (map fst rs)"
  shows "distinct (cross t)"
proof -
  have d: "distinct (map f rs)" if "\<And>r. fst (f r) = fst r" for f :: "store_row \<Rightarrow> nat \<times> 'a"
  proof -
    have "map fst (map f rs) = map fst rs" using that by simp
    then show ?thesis using assms(2) distinct_map by metis
  qed
  show ?thesis
    using assms(1) d [of header_of] d [of time_of] d [of item_of]
    by (simp add: cross_def rep_def row_simps distinct_product)
qed

lemma set_cross: "rep t rs \<Longrightarrow> set (cross t) = header_of ` set rs \<times> time_of ` set rs \<times> item_of ` set rs"
  by (simp add: cross_def rep_def)

lemma same_id: "rows_ok n rs \<Longrightarrow> r \<in> set rs \<Longrightarrow> r' \<in> set rs \<Longrightarrow> fst r = fst r' \<Longrightarrow> r = r'"
  by (auto simp: rows_ok_def distinct_map dest: inj_onD)

lemma mset_joined:
  assumes "rep t rs" and "rows_ok n rs"
  shows "mset (filter joined (cross t)) = mset (map triple rs)"
proof -
  have "distinct (map fst rs)" using assms(2) by (simp add: rows_ok_def)
  then have d: "distinct (filter joined (cross t))" using distinct_cross [OF assms(1)] by simp
  have "map fst (map fst (map triple rs)) = map fst rs" by (simp add: triple_def header_of_def)
  then have d': "distinct (map triple rs)"
    using \<open>distinct (map fst rs)\<close> distinct_map by metis
  have "set (filter joined (cross t)) = set (map triple rs)"
  proof (intro set_eqI iffI)
    fix x assume x: "x \<in> set (filter joined (cross t))"
    then obtain r1 r2 r3 where r: "r1 \<in> set rs" "r2 \<in> set rs" "r3 \<in> set rs"
      "x = (header_of r1, time_of r2, item_of r3)" using set_cross [OF assms(1)] by auto
    with x have "fst r1 = fst r2" and "fst r1 = fst r3" by (auto simp: joined_def row_simps)
    with r same_id [OF assms(2)] have "r2 = r1" "r3 = r1" by metis+
    with r show "x \<in> set (map triple rs)" by (simp add: triple_def)
  next
    fix x assume "x \<in> set (map triple rs)"
    then show "x \<in> set (filter joined (cross t))"
      using set_cross [OF assms(1)] by (auto simp: triple_def joined_def row_simps)
  qed
  then show ?thesis using d d' set_eq_iff_mset_eq_distinct by blast
qed

lemma data_list_headers_run:
  assumes "data_ok E s"
  shows "\<exists>hs. data_list_headers E other out s = (Ok (out @ hs), s\<lparr>calls := Suc (calls s)\<rparr>) \<and>
    mset hs = mset (map (\<lambda>r. triple_header (triple r)) (data_rows s))"
proof -
  note ok = data_ok_parts [OF assms]
  define xs where "xs = visit E (calls s) (filter joined (cross (tables s)))"
  have mset: "mset xs = mset (map triple (data_rows s))"
    unfolding xs_def mset_visit [OF ok(1)] by (rule mset_joined [OF ok(4,5)])
  then have "set xs = triple ` set (data_rows s)" by (metis list.set_map set_mset_mset)
  then have "\<forall>x \<in> set xs. sql_literal (fst (snd (fst x))) \<and> sql_literal (snd (snd (fst x)))"
    using ok(5) by (auto simp: triple_def header_of_def rows_ok_def)
  then have "data_list_headers E other out s = (Ok (out @ map triple_header xs), s\<lparr>calls := Suc (calls s)\<rparr>)"
    using ok unfolding data_list_headers_def
    by (subst locked_statement) (simp_all add: needing_def stepped_ready read_headers_joined flip: xs_def)
  moreover have "mset (map triple_header xs) = mset (map (\<lambda>r. triple_header (triple r)) (data_rows s))"
    using mset by (simp add: image_mset.compositionality comp_def)
  ultimately show ?thesis by blast
qed

lemma distinct_singleton: "distinct xs \<Longrightarrow> set xs = {x} \<Longrightarrow> xs = [x]"
  by (metis One_nat_def card.empty card.insert distinct_card empty_iff finite.emptyI length_0_conv
      length_Suc_conv list.set(1) set_ConsD list.set_intros(1) singletonD)

lemma filter_product:
  "filter (\<lambda>p. P (fst p) \<and> Q (snd p)) (List.product xs ys) = List.product (filter P xs) (filter Q ys)"
  by (induction xs) (simp_all add: filter_map comp_def)

lemma filter_ids:
  assumes "distinct (map fst rs)" and "\<And>r. fst (f r) = fst r"
  shows "filter (\<lambda>x. fst x \<in> fst ` set (filter sel (map header_of rs))) (map f rs) =
    map f (filter (\<lambda>r. sel (header_of r)) rs)"
proof -
  have "fst r \<in> fst ` set (filter sel (map header_of rs)) \<longleftrightarrow> sel (header_of r)" if "r \<in> set rs" for r
  proof
    assume "fst r \<in> fst ` set (filter sel (map header_of rs))"
    then obtain r' where r': "r' \<in> set rs" "sel (header_of r')" "fst r' = fst r"
      by (auto simp: header_of_def)
    then have "r' = r" using assms(1) that by (auto simp: distinct_map dest: inj_onD)
    with r' show "sel (header_of r)" by simp
  next
    assume "sel (header_of r)"
    then have "header_of r \<in> set (filter sel (map header_of rs))" using that by auto
    then have "fst (header_of r) \<in> fst ` set (filter sel (map header_of rs))" by (rule imageI)
    then show "fst r \<in> fst ` set (filter sel (map header_of rs))" by (simp add: header_of_def)
  qed
  note mem = this
  have "filter (\<lambda>x. fst x \<in> fst ` set (filter sel (map header_of rs))) (map f rs) =
      map f (filter (\<lambda>r. fst r \<in> fst ` set (filter sel (map header_of rs))) rs)"
    using assms(2) by (simp only: filter_map comp_def)
  also have "\<dots> = map f (filter (\<lambda>r. sel (header_of r)) rs)"
    using mem by (intro arg_cong [of _ _ "map f"] filter_cong refl)
  finally show ?thesis .
qed

text \<open>What the cross joins select, for any selection of headers.\<close>

lemma cross_select:
  assumes "rep t rs" and "rows_ok n rs"
  defines "F \<equiv> \<lambda>sel. filter (\<lambda>r. sel (header_of r)) rs"
  shows "filter (find_row_cond sel t) (cross t) =
      List.product (map header_of (F sel)) (List.product (map time_of (F sel)) (map item_of (F sel)))"
    and "filter (no_blob_cond k t) (cross t) =
      List.product (map header_of (F (has_key k))) (List.product (map time_of (F (has_key k))) (map item_of rs))"
proof -
  define ids where "ids = (\<lambda>sel. fst ` set (filter sel (map header_of rs)))"
  have d: "distinct (map fst rs)" using assms(2) by (simp add: rows_ok_def)
  have hs: "header_rows t = map header_of rs" "time_rows t = map time_of rs" "item_rows t = map item_of rs"
    using assms(1) by (simp_all add: rep_def)
  have f: "filter (\<lambda>x. fst x \<in> ids sel) (map header_of rs) = map header_of (F sel)"
    "filter (\<lambda>x. fst x \<in> ids sel) (map time_of rs) = map time_of (F sel)"
    "filter (\<lambda>x. fst x \<in> ids sel) (map item_of rs) = map item_of (F sel)" for sel
    unfolding F_def ids_def by (rule filter_ids [OF d fst_row(1)] filter_ids [OF d fst_row(2)]
        filter_ids [OF d fst_row(3)])+
  have two: "filter (\<lambda>q. fst (fst q) \<in> ids sel \<and> P (snd q)) (List.product (map time_of rs) (map item_of rs)) =
      List.product (map time_of (F sel)) (filter P (map item_of rs))" for sel P
    unfolding f(2) [symmetric] by (rule filter_product [of "\<lambda>x. fst x \<in> ids sel"])
  have three: "filter (\<lambda>p. fst (fst p) \<in> ids sel \<and> (fst (fst (snd p)) \<in> ids sel \<and> P (snd (snd p)))) (cross t) =
      List.product (map header_of (F sel)) (List.product (map time_of (F sel)) (filter P (map item_of rs)))" for sel P
    unfolding cross_def hs two [symmetric] f(1) [symmetric]
    by (rule filter_product [of "\<lambda>x. fst x \<in> ids sel" "\<lambda>q. fst (fst q) \<in> ids sel \<and> P (snd q)"])
  have "find_row_cond sel t = (\<lambda>p. fst (fst p) \<in> ids sel \<and> (fst (fst (snd p)) \<in> ids sel \<and> fst (snd (snd p)) \<in> ids sel))"
    unfolding find_row_cond_def hs(1) ids_def Let_def by (simp add: fun_eq_iff)
  then show "filter (find_row_cond sel t) (cross t) =
      List.product (map header_of (F sel)) (List.product (map time_of (F sel)) (map item_of (F sel)))"
    using three [of sel "\<lambda>x. fst x \<in> ids sel"] by (simp only: f(3))
  have "no_blob_cond k t = (\<lambda>p. fst (fst p) \<in> ids (has_key k) \<and> (fst (fst (snd p)) \<in> ids (has_key k) \<and> True))"
    unfolding no_blob_cond_def hs(1) ids_def Let_def by (simp add: fun_eq_iff)
  then show "filter (no_blob_cond k t) (cross t) =
      List.product (map header_of (F (has_key k))) (List.product (map time_of (F (has_key k))) (map item_of rs))"
    using three [of "has_key k" "\<lambda>x. True"] by simp
qed

lemma find_one_rows:
  assumes "rep t rs" and "rows_ok n rs" and "r \<in> set rs" and "fst (snd r) = (k, ti)"
  shows "filter (find_row_cond (has_key_title k ti) t) (cross t) = [triple r]"
proof -
  have inj: "inj_on (\<lambda>r. fst (snd r)) (set rs)" and d: "distinct rs"
    using assms(2) by (simp_all add: rows_ok_def distinct_map)
  have "has_key_title k ti (header_of q) \<longleftrightarrow> q = r" if "q \<in> set rs" for q
    using inj_onD [OF inj, of q r] that assms(3,4) by (auto simp: has_key_title_def header_of_def prod_eq_iff)
  then have "filter (\<lambda>q. has_key_title k ti (header_of q)) rs = filter (\<lambda>q. q = r) rs"
    by (intro filter_cong) auto
  also have "\<dots> = [r]" using d assms(3) by (intro distinct_singleton) auto
  finally show ?thesis using cross_select(1) [OF assms(1,2)] by (simp add: triple_def)
qed

lemma data_find_one_run:
  assumes "data_ok E s" and "sql_literal k" and "sql_literal ti"
    and "r \<in> set (data_rows s)" and "fst (snd r) = (k, ti)"
  shows "data_find_one E other k ti out s = (Ok (triple_item True (triple r)), s\<lparr>calls := Suc (calls s)\<rparr>)"
proof -
  note ok = data_ok_parts [OF assms(1)]
  have "visit E (calls s) (filter (find_row_cond (has_key_title k ti) (tables s)) (cross (tables s))) = [triple r]"
    by (simp add: find_one_rows [OF ok(4,5) assms(4,5)] ok(1))
  moreover have "sql_literal (snd (snd (fst (triple r))))" using assms(3,5) by (simp add: triple_def header_of_def)
  ultimately show ?thesis
    using ok assms(2,3) unfolding data_find_one_def
    by (subst locked_statement) (simp_all add: needing_def stepped_ready read_columns_joined(1))
qed

text \<open>The records of a key; the rows of the two queries are products of them.\<close>

definition of_key :: "string \<Rightarrow> store_row list \<Rightarrow> store_row list" where
  "of_key k rs = filter (\<lambda>r. fst (fst (snd r)) = k) rs"

lemma has_key_header: "has_key k (header_of r) \<longleftrightarrow> fst (fst (snd r)) = k"
  by (simp add: has_key_def header_of_def)

lemma find_rows:
  assumes "rep t rs" and "rows_ok n rs"
  shows "filter (find_row_cond (has_key k) t) (cross t) =
      List.product (map header_of (of_key k rs))
        (List.product (map time_of (of_key k rs)) (map item_of (of_key k rs)))"
    and "filter (no_blob_cond k t) (cross t) =
      List.product (map header_of (of_key k rs)) (List.product (map time_of (of_key k rs)) (map item_of rs))"
  unfolding cross_select [OF assms] of_key_def has_key_header by (rule refl)+

lemma literal_product:
  assumes "rows_ok n rs" and "set hs \<subseteq> header_of ` set rs"
  shows "\<forall>x \<in> set (List.product hs ys). sql_literal (snd (snd (fst x)))"
proof
  fix x assume "x \<in> set (List.product hs ys)"
  then have "fst x \<in> set hs" by auto
  with assms(2) obtain r where r: "r \<in> set rs" "fst x = header_of r" by auto
  then have "sql_literal (snd (fst (snd r)))" using assms(1) by (simp add: rows_ok_def)
  with r(2) show "sql_literal (snd (snd (fst x)))" by (simp add: header_of_def)
qed

lemma set_of_key: "set (of_key k rs) \<subseteq> set rs"
  by (auto simp: of_key_def)

lemma collect_items_run:
  assumes "engine_ok E" and "mset xs = mset zs" and "\<forall>x \<in> set zs. sql_literal (snd (snd (fst x)))"
  shows "collect_items E True msg out (map joined_row xs) s = (Ok (out @ map (triple_item True) xs), s)"
    and "collect_items E False msg out (map (take 3 \<circ> joined_row) xs) s =
      (Ok (out @ map (triple_item False) xs), s)"
proof -
  have "\<forall>x \<in> set xs. sql_literal (snd (snd (fst x)))" using assms(2,3) by (metis set_mset_mset)
  then show "collect_items E True msg out (map joined_row xs) s = (Ok (out @ map (triple_item True) xs), s)"
    and "collect_items E False msg out (map (take 3 \<circ> joined_row) xs) s =
      (Ok (out @ map (triple_item False) xs), s)"
    using assms(1) by (simp_all add: collect_items_def stepped_ready read_items_joined)
qed

lemma data_find_run:
  assumes "data_ok E s" and "sql_literal k"
  shows "\<exists>ds. data_find E other k out s = (Ok (out @ ds), s\<lparr>calls := Suc (calls s)\<rparr>) \<and>
    mset ds = mset (map (triple_item True) (List.product (map header_of (of_key k (data_rows s)))
      (List.product (map time_of (of_key k (data_rows s))) (map item_of (of_key k (data_rows s))))))"
proof -
  note ok = data_ok_parts [OF assms(1)]
  let ?zs = "filter (find_row_cond (has_key k) (tables s)) (cross (tables s))"
  define xs where "xs = visit E (calls s) ?zs"
  have mset: "mset xs = mset ?zs" unfolding xs_def by (rule mset_visit [OF ok(1)])
  have lit: "\<forall>x \<in> set ?zs. sql_literal (snd (snd (fst x)))"
    unfolding find_rows(1) [OF ok(4,5)]
    by (rule literal_product [OF ok(5)]) (use set_of_key in auto)
  have "data_find E other k out s = (Ok (out @ map (triple_item True) xs), s\<lparr>calls := Suc (calls s)\<rparr>)"
    using ok assms(2) unfolding data_find_def
    by (subst locked_statement)
      (simp_all add: needing_def collect_items_run(1) [OF ok(1) mset lit] flip: xs_def)
  moreover have "mset (map (triple_item True) xs) = mset (map (triple_item True) ?zs)"
    by (simp only: mset_map mset)
  ultimately show ?thesis unfolding find_rows(1) [OF ok(4,5)] by blast
qed

lemma data_find_no_blob_run:
  assumes "data_ok E s" and "sql_literal k"
  shows "\<exists>ds. data_find_no_blob E other k out s = (Ok (out @ ds), s\<lparr>calls := Suc (calls s)\<rparr>) \<and>
    mset ds = mset (map (triple_item False) (List.product (map header_of (of_key k (data_rows s)))
      (List.product (map time_of (of_key k (data_rows s))) (map item_of (data_rows s)))))"
proof -
  note ok = data_ok_parts [OF assms(1)]
  let ?zs = "filter (no_blob_cond k (tables s)) (cross (tables s))"
  define xs where "xs = visit E (calls s) ?zs"
  have mset: "mset xs = mset ?zs" unfolding xs_def by (rule mset_visit [OF ok(1)])
  have lit: "\<forall>x \<in> set ?zs. sql_literal (snd (snd (fst x)))"
    unfolding find_rows(2) [OF ok(4,5)]
    by (rule literal_product [OF ok(5)]) (use set_of_key in auto)
  have "data_find_no_blob E other k out s = (Ok (out @ map (triple_item False) xs), s\<lparr>calls := Suc (calls s)\<rparr>)"
    using ok assms(2) unfolding data_find_no_blob_def
    by (subst locked_statement)
      (simp_all add: needing_def collect_items_run(2) [OF ok(1) mset lit, unfolded comp_def] comp_def flip: xs_def)
  moreover have "mset (map (triple_item False) xs) = mset (map (triple_item False) ?zs)"
    by (simp only: mset_map mset)
  ultimately show ?thesis unfolding find_rows(2) [OF ok(4,5)] by blast
qed

end
