(* ===== verification/Store_Contract.thy ===== *)
theory Store_Contract
  imports Record_Store
begin

text \<open>
  What the node relies on in its record store: the eviction loop of \<open>miniDHT::insert_db\<close>, the laws it
  needs as a locale, their proof for the model of \<open>db_multi_key_data\<close>, and the properties of the store.
\<close>

section \<open>Opening and closing\<close>

lemma data_open_run:
  assumes "engine_ok E" and "open_error E f = None" and "\<not> mutex_held s"
  shows "\<exists>st. data_open E other stored f s = (Ok (), st) \<and> db_ready st \<and> all_tables (tables st) \<and>
    header_rows (tables st) = header_rows (stored f) \<and> time_rows (tables st) = time_rows (stored f) \<and>
    item_rows (tables st) = item_rows (stored f)"
  using assms
  by (simp add: data_open_def open_file_def data_create_table_def engine_ok_def Let_def cpp_simps lock_db_def
      run_sql_def exec_or_throw_def db_ready_def all_tables_def)

lemma kv_open_run:
  assumes "engine_ok E" and "open_error E f = None" and "\<not> mutex_held s"
    and "distinct (map fst (kv_rows (stored f)))"
    and "\<forall>r \<in> set (kv_rows (stored f)). sql_literal (fst r) \<and> sql_literal (snd r)"
  shows "\<exists>st. kv_open E other stored f s = (Ok (), st) \<and> kv_ok E st \<and> kv_rows (tables st) = kv_rows (stored f)"
  using assms
  by (simp add: kv_open_def open_file_def kv_create_table_def engine_ok_def Let_def cpp_simps lock_db_def
      run_sql_def exec_or_throw_def kv_ok_def db_ready_def)

text \<open>An object made on a file has what the file has, and is closed when it is destroyed.\<close>

lemma close_ready: "db_ready s \<Longrightarrow> close_db s = (Ok (), s\<lparr>db_open := False\<rparr>)"
  "db_ready t \<Longrightarrow> close_data t = (Ok (), t\<lparr>db_open := False\<rparr>)"
  by (simp_all add: close_db_def close_data_def lock_db_def db_ready_def bnd_run writes_run)

lemma data_life:
  assumes "engine_ok E" and "open_error E f = None"
  shows "\<exists>st. data_make E other stored f = (Ok (), st) \<and> header_rows (tables st) = header_rows (stored f) \<and>
    close_data st = (Ok (), st\<lparr>db_open := False\<rparr>)"
  using data_open_run [OF assms, of "fresh_db no_tables" other stored] close_ready(2)
  by (auto simp: data_make_def fresh_db_def)

lemma kv_life:
  assumes "engine_ok E" and "open_error E f = None" and "distinct (map fst (kv_rows (stored f)))"
    and "\<forall>r \<in> set (kv_rows (stored f)). sql_literal (fst r) \<and> sql_literal (snd r)"
  shows "\<exists>st. kv_make E other stored f = (Ok (), st) \<and> kv_rows (tables st) = kv_rows (stored f) \<and>
    close_db st = (Ok (), st\<lparr>db_open := False\<rparr>)"
  using kv_open_run [where s = "fresh_db \<lparr>has_contacts = False, kv_rows = []\<rparr>" and E = E and f = f and other = other and stored = stored]
    assms close_ready(1)
  by (auto simp: kv_make_def fresh_db_def kv_ok_def)

section \<open>The contract of a record store\<close>

text \<open>
  \<open>while (size() >= max) remove_oldest();\<close> as the node runs it before an insertion.  None is a loop
  that never ends.
\<close>

partial_function (option) evict_loop ::
  "('s, nat) cpp \<Rightarrow> ('s, unit) cpp \<Rightarrow> nat \<Rightarrow> 's \<Rightarrow> (unit outcome \<times> 's) option" where
  "evict_loop size_op oldest_op mx s =
     (case size_op s of
        (Ok n, s1) \<Rightarrow>
          if n \<ge> mx then
            (case oldest_op s1 of
               (Ok _, s2) \<Rightarrow> evict_loop size_op oldest_op mx s2
             | (Throw e, s2) \<Rightarrow> Some (Throw e, s2)
             | (Abort f, s2) \<Rightarrow> Some (Abort f, s2))
          else Some (Ok (), s1)
      | (Throw e, s1) \<Rightarrow> Some (Throw e, s1)
      | (Abort f, s1) \<Rightarrow> Some (Abort f, s1))"

definition evict :: "('s, nat) cpp \<Rightarrow> ('s, unit) cpp \<Rightarrow> nat \<Rightarrow> ('s, unit) cpp" where
  "evict size_op oldest_op mx s =
     (case evict_loop size_op oldest_op mx s of None \<Rightarrow> (Abort Infinite_loop, s) | Some r \<Rightarrow> r)"

lemma evict_loop_no_end:
  assumes closed: "\<And>s. P s \<Longrightarrow> \<exists>n s1 u s2. size_op s = (Ok n, s1) \<and> mx \<le> n \<and> oldest_op s1 = (Ok u, s2) \<and> P s2"
    and "P s"
  shows "evict_loop size_op oldest_op mx s = None"
proof -
  define Q where "Q = (\<lambda>sz ol m (s :: 'a). sz = size_op \<and> ol = oldest_op \<and> m = mx \<longrightarrow> \<not> P s)"
  have "Q size_op oldest_op mx s" if "evict_loop size_op oldest_op mx s = Some r" for r
  proof (rule evict_loop.raw_induct [where P = "\<lambda>sz ol m s y. Q sz ol m s", OF _ that])
    fix f :: "('a, nat) cpp \<Rightarrow> ('a, unit) cpp \<Rightarrow> nat \<Rightarrow> 'a \<Rightarrow> (unit outcome \<times> 'a) option"
      and sz ol m s y
    assume IH: "\<And>sz ol m s y. f sz ol m s = Some y \<Longrightarrow> Q sz ol m s"
      and run: "(case sz s of
         (Ok n, s1) \<Rightarrow>
           if m \<le> n then (case ol s1 of (Ok x, s2) \<Rightarrow> f sz ol m s2
              | (Throw e, s2) \<Rightarrow> Some (Throw e, s2) | (Abort fa, s2) \<Rightarrow> Some (Abort fa, s2))
           else Some (Ok (), s1)
       | (Throw e, s1) \<Rightarrow> Some (Throw e, s1) | (Abort fa, s1) \<Rightarrow> Some (Abort fa, s1)) = Some y"
    show "Q sz ol m s"
      unfolding Q_def
    proof (intro impI notI)
      assume eq: "sz = size_op \<and> ol = oldest_op \<and> m = mx" and "P s"
      from closed [OF \<open>P s\<close>] obtain n s1 u s2 where
        "size_op s = (Ok n, s1)" "mx \<le> n" "oldest_op s1 = (Ok u, s2)" "P s2" by blast
      with run eq have "f size_op oldest_op mx s2 = Some y" by simp
      with IH \<open>P s2\<close> show False by (auto simp: Q_def)
    qed
  qed
  moreover have "\<not> Q size_op oldest_op mx s" using assms(2) by (simp add: Q_def)
  ultimately have "evict_loop size_op oldest_op mx s \<noteq> Some r" for r by blast
  then show ?thesis by blast
qed

locale record_store =
  fixes ok :: "'s \<Rightarrow> bool"
    and rows :: "'s \<Rightarrow> store_row list"
    and size_op :: "('s, nat) cpp"
    and oldest_op :: "('s, unit) cpp"
    and insert_op :: "string \<Rightarrow> string \<Rightarrow> int \<Rightarrow> int \<Rightarrow> string \<Rightarrow> ('s, unit) cpp"
  assumes ids_law: "ok s \<Longrightarrow> distinct (map fst (rows s))"
    and size_law: "ok s \<Longrightarrow> \<exists>s'. size_op s = (Ok (length (rows s)), s') \<and> ok s' \<and> rows s' = rows s"
    and oldest_law: "ok s \<Longrightarrow> \<exists>s'. oldest_op s = (Ok (), s') \<and> ok s' \<and>
      (if rows s = [] then rows s' = []
       else \<exists>r \<in> set (rows s). rows s' = filter (\<lambda>q. fst q \<noteq> fst r) (rows s))"
    and insert_law: "ok s \<Longrightarrow> sql_literal k \<Longrightarrow> sql_literal ti \<Longrightarrow>
      (k, ti) \<notin> (\<lambda>r. fst (snd r)) ` set (rows s) \<Longrightarrow> length (rows s) < 2 ^ 31 - 1 \<Longrightarrow>
      \<exists>s' i. insert_op k ti tm lv d s = (Ok (), s') \<and> ok s' \<and> rows s' = rows s @ [(i, (k, ti), (tm, lv, d))]"
begin

lemma oldest_shortens:
  assumes "ok s" and "rows s \<noteq> []"
  shows "\<exists>s'. oldest_op s = (Ok (), s') \<and> ok s' \<and> length (rows s') = length (rows s) - 1 \<and>
    set (rows s') \<subseteq> set (rows s)"
proof -
  obtain s' r where s': "oldest_op s = (Ok (), s')" "ok s'" "r \<in> set (rows s)"
    "rows s' = filter (\<lambda>q. fst q \<noteq> fst r) (rows s)" using oldest_law [OF assms(1)] assms(2) by auto
  have "map fst (rows s') = remove1 (fst r) (map fst (rows s))"
    using s'(4) ids_law [OF assms(1)] by (simp add: distinct_remove1_removeAll removeAll_filter_not_eq
        filter_map comp_def eq_commute)
  then have "length (rows s') = length (rows s) - 1"
    using s'(3) by (metis image_eqI length_map length_remove1 list.set_map)
  with s' show ?thesis by auto
qed

text \<open>The loop ends, with room for one record, where one record at least is allowed.\<close>

lemma evict_makes_room:
  assumes "ok s" and "1 \<le> mx"
  shows "\<exists>s'. evict size_op oldest_op mx s = (Ok (), s') \<and> ok s' \<and>
    length (rows s') = min (length (rows s)) (mx - 1) \<and> set (rows s') \<subseteq> set (rows s) \<and>
    (length (rows s) < mx \<longrightarrow> rows s' = rows s)"
  using assms(1)
proof (induction "length (rows s)" arbitrary: s rule: less_induct)
  case less
  obtain s1 where s1: "size_op s = (Ok (length (rows s)), s1)" "ok s1" "rows s1 = rows s"
    using size_law [OF less.prems] by blast
  show ?case
  proof (cases "mx \<le> length (rows s)")
    case False
    with s1 show ?thesis by (auto simp: evict_def evict_loop.simps [of _ _ _ s])
  next
    case True
    with assms(2) s1 have "rows s1 \<noteq> []" by auto
    from oldest_shortens [OF s1(2) this] obtain s2 where s2: "oldest_op s1 = (Ok (), s2)" "ok s2"
      "length (rows s2) = length (rows s) - 1" "set (rows s2) \<subseteq> set (rows s)" using s1(3) by auto
    have "length (rows s2) < length (rows s)" using s2(3) True assms(2) by simp
    from less.hyps [OF this s2(2)] obtain s' where s': "evict size_op oldest_op mx s2 = (Ok (), s')" "ok s'"
      "length (rows s') = min (length (rows s2)) (mx - 1)" "set (rows s') \<subseteq> set (rows s2)" by blast
    have "evict size_op oldest_op mx s = evict size_op oldest_op mx s2 \<or>
        evict_loop size_op oldest_op mx s2 = None"
      using s1(1) s2(1) True by (auto simp: evict_def evict_loop.simps [of _ _ _ s] split: option.split)
    moreover have "evict_loop size_op oldest_op mx s2 \<noteq> None"
      using s'(1) by (auto simp: evict_def split: option.splits)
    ultimately have "evict size_op oldest_op mx s = (Ok (), s')" using s'(1) by simp
    moreover have "length (rows s') = min (length (rows s)) (mx - 1)" using s'(3) s2(3) True by simp
    ultimately show ?thesis using s'(2,4) s2(4) True by auto
  qed
qed

text \<open>With no record allowed it never ends.\<close>

lemma evict_never_ends:
  assumes "ok s"
  shows "evict size_op oldest_op 0 s = (Abort Infinite_loop, s)"
proof -
  have "evict_loop size_op oldest_op 0 s = None"
  proof (rule evict_loop_no_end [where P = ok])
    show "\<exists>n s1 u s2. size_op s = (Ok n, s1) \<and> 0 \<le> n \<and> oldest_op s1 = (Ok u, s2) \<and> ok s2" if "ok s" for s
    proof -
      obtain s1 where "size_op s = (Ok (length (rows s)), s1)" "ok s1" using size_law [OF \<open>ok s\<close>] by blast
      moreover from oldest_law [OF this(2)] obtain s2 where "oldest_op s1 = (Ok (), s2)" "ok s2" by blast
      ultimately show ?thesis by blast
    qed
    show "ok s" by (rule assms)
  qed
  then show ?thesis by (simp add: evict_def)
qed

lemma insert_with_room:
  assumes "ok s" and "1 \<le> mx" and "mx < 2 ^ 31" and "sql_literal k" and "sql_literal ti"
    and "(k, ti) \<notin> (\<lambda>r. fst (snd r)) ` set (rows s)"
  shows "\<exists>s' i old. thn (evict size_op oldest_op mx) (insert_op k ti tm lv d) s = (Ok (), s') \<and> ok s' \<and>
    rows s' = old @ [(i, (k, ti), (tm, lv, d))] \<and> set old \<subseteq> set (rows s) \<and>
    length (rows s') = min (Suc (length (rows s))) mx \<and> (length (rows s) < mx \<longrightarrow> old = rows s)"
proof -
  from evict_makes_room [OF assms(1,2)] obtain s1 where s1: "evict size_op oldest_op mx s = (Ok (), s1)"
    "ok s1" "length (rows s1) = min (length (rows s)) (mx - 1)" "set (rows s1) \<subseteq> set (rows s)"
    "length (rows s) < mx \<longrightarrow> rows s1 = rows s" by blast
  have new: "(k, ti) \<notin> (\<lambda>r. fst (snd r)) ` set (rows s1)" using assms(6) s1(4) by blast
  have "length (rows s1) < 2 ^ 31 - 1" using s1(3) assms(2,3) by linarith
  from insert_law [OF s1(2) assms(4,5) new this] obtain s' i where s':
    "insert_op k ti tm lv d s1 = (Ok (), s')" "ok s'" "rows s' = rows s1 @ [(i, (k, ti), (tm, lv, d))]" by blast
  moreover have "length (rows s') = min (Suc (length (rows s))) mx" using s'(3) s1(3) assms(2) by simp
  moreover have "thn (evict size_op oldest_op mx) (insert_op k ti tm lv d) s = (Ok (), s')"
    using s1(1) s'(1) by (simp add: bnd_run)
  ultimately show ?thesis using s1(4,5) by blast
qed

end

interpretation store: record_store "data_ok E" data_rows "data_size E other" "data_remove_oldest E other"
  "data_insert E other" for E :: sql_env and other :: data_other
proof
  fix s :: data_db and k ti d :: string and tm lv :: int
  show "distinct (map fst (data_rows s))" if "data_ok E s"
    using data_ok_parts(5) [OF that] by (simp add: rows_ok_def)
  show "\<exists>s'. data_size E other s = (Ok (length (data_rows s)), s') \<and> data_ok E s' \<and> data_rows s' = data_rows s"
    if "data_ok E s"
    using data_size_run [OF that] data_ok_calls [OF that] by simp
  show "\<exists>s'. data_remove_oldest E other s = (Ok (), s') \<and> data_ok E s' \<and>
      (if data_rows s = [] then data_rows s' = []
       else \<exists>r \<in> set (data_rows s). data_rows s' = filter (\<lambda>q. fst q \<noteq> fst r) (data_rows s))"
    if "data_ok E s"
    by (rule data_remove_oldest_run [OF that])
  show "\<exists>s' i. data_insert E other k ti tm lv d s = (Ok (), s') \<and> data_ok E s' \<and>
      data_rows s' = data_rows s @ [(i, (k, ti), (tm, lv, d))]"
    if "data_ok E s" "sql_literal k" "sql_literal ti" "(k, ti) \<notin> (\<lambda>r. fst (snd r)) ` set (data_rows s)"
      "length (data_rows s) < 2 ^ 31 - 1"
    by (rule data_insert_rows [OF that])
qed

section \<open>Which record is the oldest\<close>

lemma first_oldest_least:
  assumes "\<And>q. q \<in> set ps \<Longrightarrow> fst (snd (snd p)) \<le> fst (snd (snd q))"
  shows "first_oldest (p # ps) = Some (fst (fst p))"
  using assms by simp

text \<open>An engine that visits row \<open>j\<close> first, and the others in order.\<close>

definition prefer_row :: "nat \<Rightarrow> sql_env \<Rightarrow> sql_env" where
  "prefer_row j E = E\<lparr>row_order := \<lambda>n k. if j < k then j # remove1 j [0..<k] else [0..<k]\<rparr>"

lemma prefer_row_ok: "engine_ok E \<Longrightarrow> engine_ok (prefer_row j E)"
  by (auto simp: engine_ok_def prefer_row_def simp del: mset_upt)

lemma visit_prefer_row: "j < length xs \<Longrightarrow> \<exists>ys. visit (prefer_row j E) n xs = xs ! j # ys"
  by (simp add: visit_def prefer_row_def)

lemma any_record_may_be_oldest:
  assumes "data_ok E s" and "r \<in> set (data_rows s)"
  shows "\<exists>E'. engine_ok E' \<and> oldest_id E' (calls s) (tables s) = Some (fst r)"
proof -
  note ok = data_ok_parts [OF assms(1)]
  let ?xs = "List.product (header_rows (tables s)) (time_rows (tables s))"
  have hs: "header_rows (tables s) = map header_of (data_rows s)"
    "time_rows (tables s) = map time_of (data_rows s)" using ok(4) by (auto simp: rep_def)
  let ?T = "(\<lambda>r. fst (snd (snd r))) ` set (data_rows s)"
  have fin: "finite ?T" "?T \<noteq> {}" using assms(2) by auto
  then have "Min ?T \<in> ?T" by (rule Min_in)
  then obtain m where m: "m \<in> set (data_rows s)" "fst (snd (snd m)) = Min ?T" by auto
  let ?p = "(header_of r, time_of m)"
  have "?p \<in> set ?xs" using assms(2) m(1) hs by simp
  then obtain j where j: "j < length ?xs" "?xs ! j = ?p" by (metis in_set_conv_nth)
  let ?E = "prefer_row j E"
  obtain ys where "visit ?E (calls s) ?xs = ?xs ! j # ys"
    using visit_prefer_row [OF j(1), of E "calls s"] by blast
  then have ys: "visit ?E (calls s) ?xs = ?p # ys" unfolding j(2) .
  have "fst (snd (snd ?p)) \<le> fst (snd (snd q))" if "q \<in> set ys" for q
  proof -
    have "q \<in> set (visit ?E (calls s) ?xs)" unfolding ys using that by simp
    then have "q \<in> set ?xs" by (simp only: set_visit [OF prefer_row_ok [OF ok(1)]])
    then obtain r' where "r' \<in> set (data_rows s)" "snd q = time_of r'" using hs by auto
    then show ?thesis using m(2) fin by (simp add: time_of_def)
  qed
  then have "oldest_id ?E (calls s) (tables s) = Some (fst r)"
    using ys first_oldest_least [of ys ?p] by (simp only: oldest_id_def) (simp add: header_of_def)
  then show ?thesis using prefer_row_ok [OF ok(1)] by blast
qed

section \<open>Properties\<close>

text \<open>
  C27 (the store is a list of records): over a well-behaved engine and for keys and titles without
  quotes, \<open>count\<close> and \<open>size\<close> count records, \<open>insert\<close> of a new key and title appends one, \<open>update\<close>
  changes the times of that record only, \<open>remove\<close> deletes it from all three tables, the search by key
  and title returns it, and \<open>list_headers\<close> lists every record once.  Each keeps the tables well-formed.
\<close>

theorem store_operations_on_records:
  assumes "data_ok E s" and "sql_literal k" and "sql_literal ti"
  shows "fst (data_count E other k s) = Ok (length (of_key k (data_rows s))) \<and>
    fst (data_size E other s) = Ok (length (data_rows s)) \<and>
    ((k, ti) \<notin> (\<lambda>r. fst (snd r)) ` set (data_rows s) \<and> length (data_rows s) < 2 ^ 31 - 1 \<longrightarrow>
      (\<exists>s' i. data_insert E other k ti tm lv d s = (Ok (), s') \<and> data_ok E s' \<and>
        data_rows s' = data_rows s @ [(i, (k, ti), (tm, lv, d))])) \<and>
    (\<exists>s'. data_update E other k ti tm lv s = (Ok (), s') \<and> data_ok E s' \<and>
      data_rows s' = map (retimed k ti tm lv) (data_rows s)) \<and>
    (\<exists>s'. data_remove E other k ti s = (Ok (), s') \<and> data_ok E s' \<and>
      data_rows s' = filter (\<lambda>r. fst (snd r) \<noteq> (k, ti)) (data_rows s)) \<and>
    (\<forall>r \<in> set (data_rows s). fst (snd r) = (k, ti) \<longrightarrow>
      fst (data_find_one E other k ti out s) = Ok \<lparr>ttl = word_of_int (fst (snd (snd (snd r)))),
        time = word_of_int (fst (snd (snd r))), title = ti, data = snd (snd (snd (snd r)))\<rparr>) \<and>
    (\<exists>hs s'. data_list_headers E other [] s = (Ok hs, s') \<and> data_ok E s' \<and> data_rows s' = data_rows s \<and>
      mset hs = mset (map (\<lambda>r. \<lparr>h_key = fst (fst (snd r)), h_title = snd (fst (snd r)),
        h_time = fst (snd (snd r)), h_ttl = fst (snd (snd (snd r)))\<rparr>) (data_rows s)))"
proof -
  have find: "\<forall>r \<in> set (data_rows s). fst (snd r) = (k, ti) \<longrightarrow>
      fst (data_find_one E other k ti out s) = Ok \<lparr>ttl = word_of_int (fst (snd (snd (snd r)))),
        time = word_of_int (fst (snd (snd r))), title = ti, data = snd (snd (snd (snd r)))\<rparr>"
    using data_find_one_run [OF assms, of _ other out]
    by (auto simp: triple_item_def triple_def row_simps)
  have th: "triple_header (triple r) = \<lparr>h_key = fst (fst (snd r)), h_title = snd (fst (snd r)),
        h_time = fst (snd (snd r)), h_ttl = fst (snd (snd (snd r)))\<rparr>" for r
    by (simp add: triple_header_def triple_def row_simps)
  obtain hs where hs: "data_list_headers E other [] s = (Ok ([] @ hs), s\<lparr>calls := Suc (calls s)\<rparr>)"
    "mset hs = mset (map (\<lambda>r. triple_header (triple r)) (data_rows s))"
    using data_list_headers_run [OF assms(1), of other "[]"] by blast
  have lh: "\<exists>hs s'. data_list_headers E other [] s = (Ok hs, s') \<and> data_ok E s' \<and> data_rows s' = data_rows s \<and>
      mset hs = mset (map (\<lambda>r. \<lparr>h_key = fst (fst (snd r)), h_title = snd (fst (snd r)),
        h_time = fst (snd (snd r)), h_ttl = fst (snd (snd (snd r)))\<rparr>) (data_rows s))"
    using hs unfolding th append_Nil by (intro exI conjI) (assumption | rule data_ok_calls [OF assms(1)] data_rows_calls)+
  have count: "fst (data_count E other k s) = Ok (length (of_key k (data_rows s)))"
    by (simp add: data_count_run [OF assms(1,2)] of_key_def)
  have size: "fst (data_size E other s) = Ok (length (data_rows s))"
    by (simp add: data_size_run [OF assms(1)])
  show ?thesis
    by (intro conjI impI count size find lh data_update_run [OF assms] data_remove_run [OF assms])
      (rule data_insert_rows [OF assms], simp_all)
qed

definition demo_rows :: "store_row list" where
  "demo_rows = [(1, (''k'', ''t''), (10, 60, ''old'')), (2, (''k'', ''u''), (20, 60, ''new''))]"

definition demo_store :: data_db where
  "demo_store = \<lparr>db_open = True, file_name = [], need_mutex = Some False, mutex_held = False,
     tables = \<lparr>has_header = True, has_time_table = True, has_item = True,
       header_rows = map header_of demo_rows, time_rows = map time_of demo_rows,
       item_rows = map item_of demo_rows, next_id = 3\<rparr>, calls = 0\<rparr>"

lemma demo_store_rows: "data_rows demo_store = demo_rows"
  unfolding data_rows_def by (rule rows_of_rep) (simp add: rep_def demo_store_def)

lemma demo_store_ok: "data_ok demo_engine demo_store"
proof -
  have "rep (tables demo_store) (rows_of (tables demo_store))"
    using demo_store_rows by (simp add: data_rows_def rep_def demo_store_def)
  then show ?thesis
    using demo_store_rows unfolding data_rows_def
    by (simp add: data_ok_def demo_engine_ok)
      (simp add: demo_store_def db_ready_def all_tables_def rows_ok_def demo_rows_def sql_literal_def)
qed

theorem store_operations_on_records_witness:
  "fst (data_count demo_engine no_text ''k'' demo_store) = Ok 2 \<and> fst (data_size demo_engine no_text demo_store) = Ok 2"
proof -
  have "sql_literal ''k''" and "sql_literal ''t''" by (simp_all add: sql_literal_def)
  from store_operations_on_records [OF demo_store_ok this]
  have "fst (data_count demo_engine no_text ''k'' demo_store) = Ok (length (of_key ''k'' demo_rows))"
    and "fst (data_size demo_engine no_text demo_store) = Ok (length demo_rows)"
    unfolding demo_store_rows by blast+
  then show ?thesis by (simp add: demo_rows_def of_key_def)
qed

text \<open>
  C14 (storing keeps the bound): for a limit of at least one record, the eviction loop ends and the
  insertion of a new key and title that follows leaves at most that many records, the new one among
  them and otherwise only records that were there; nothing is evicted where there was room.
\<close>

theorem insertion_keeps_the_bound:
  assumes "data_ok E s" and "1 \<le> mx" and "mx < 2 ^ 31" and "sql_literal k" and "sql_literal ti"
    and "(k, ti) \<notin> (\<lambda>r. fst (snd r)) ` set (data_rows s)"
  shows "\<exists>s' i old. thn (evict (data_size E other) (data_remove_oldest E other) mx)
      (data_insert E other k ti tm lv d) s = (Ok (), s') \<and> data_ok E s' \<and>
    data_rows s' = old @ [(i, (k, ti), (tm, lv, d))] \<and> set old \<subseteq> set (data_rows s) \<and>
    length (data_rows s') = min (Suc (length (data_rows s))) mx \<and>
    (length (data_rows s) < mx \<longrightarrow> old = data_rows s)"
  by (rule store.insert_with_room [OF assms])

theorem insertion_keeps_the_bound_witness:
  "\<exists>s'. thn (evict (data_size demo_engine no_text) (data_remove_oldest demo_engine no_text) 1)
      (data_insert demo_engine no_text ''j'' ''v'' 30 60 ''x'') demo_store = (Ok (), s') \<and> length (data_rows s') = 1"
proof -
  have "1 \<le> (1 :: nat)" "(1 :: nat) < 2 ^ 31" "sql_literal ''j''" "sql_literal ''v''"
    "(''j'', ''v'') \<notin> (\<lambda>r. fst (snd r)) ` set (data_rows demo_store)"
    by (simp_all add: sql_literal_def demo_store_rows demo_rows_def)
  from insertion_keeps_the_bound [OF demo_store_ok this, of no_text 30 60 "''x''"]
  show ?thesis unfolding demo_store_rows by (auto simp: demo_rows_def)
qed

text \<open>
  A limit of zero records never stores: where the limit is 0, as \<open>set_max_record(0)\<close> allows, the
  eviction loop never ends, whatever is stored.
\<close>

lemma eviction_with_no_room_never_ends:
  assumes "data_ok E s"
  shows "evict (data_size E other) (data_remove_oldest E other) 0 s = (Abort Infinite_loop, s)"
  by (rule store.evict_never_ends [OF assms])

lemma eviction_with_no_room_never_ends_witness:
  "fst (evict (data_size demo_engine no_text) (data_remove_oldest demo_engine no_text) 0 demo_store) =
     Abort Infinite_loop"
  by (simp add: eviction_with_no_room_never_ends [OF demo_store_ok])

text \<open>
  The oldest record is any record: \<open>remove_oldest\<close> joins headers and times without a condition,
  so which header goes depends on the order the engine visits the pairs in: for every record there is
  an order for which that record, the newest included, is the one removed.
\<close>

lemma remove_oldest_may_remove_any_record:
  assumes "data_ok E s" and "r \<in> set (data_rows s)"
  shows "\<exists>E'. engine_ok E' \<and> data_rows (snd (data_remove_oldest E' other s)) =
    filter (\<lambda>q. fst q \<noteq> fst r) (data_rows s)"
proof -
  note ok = data_ok_parts [OF assms(1)]
  from any_record_may_be_oldest [OF assms] obtain E' where E':
    "engine_ok E'" "oldest_id E' (calls s) (tables s) = Some (fst r)" by blast
  let ?t = "delete_headers (\<lambda>h. fst h = fst r) (tables s)"
  have "data_remove_oldest E' other s = (Ok (), s\<lparr>calls := Suc (calls s), tables := ?t\<rparr>)"
    using ok(2,7,8) E' unfolding data_remove_oldest_def
    by (subst locked_statement) (simp_all add: needing_def ret_run)
  moreover have "rep ?t (filter (\<lambda>q. fst q \<noteq> fst r) (data_rows s))"
    using rep_delete [OF ok(4), of "\<lambda>h. fst h = fst r"] ok(5) by (simp add: rows_ok_def header_of_def)
  ultimately show ?thesis using E'(1) by (auto simp: data_rows_def rows_of_rep)
qed

lemma remove_oldest_may_remove_any_record_witness:
  "\<exists>E'. engine_ok E' \<and> data_rows (snd (data_remove_oldest E' no_text demo_store)) =
     [(1, (''k'', ''t''), (10, 60, ''old''))]"
proof -
  have "(2, (''k'', ''u''), (20, 60, ''new'')) \<in> set (data_rows demo_store)"
    unfolding demo_store_rows by (simp add: demo_rows_def)
  from remove_oldest_may_remove_any_record [OF demo_store_ok this, of no_text]
  show ?thesis unfolding demo_store_rows by (simp add: demo_rows_def)
qed

lemma image_triple:
  "f ` (a ` A \<times> b ` B \<times> c ` C) = {f (a x, b y, c z) | x y z. x \<in> A \<and> y \<in> B \<and> z \<in> C}"
  by auto

text \<open>
  C39 (a search by key mixes the records): the search for a key that has \<open>n\<close> records returns \<open>n\<close> cubed
  items, one for every choice of a title, a time and a data among them; only with one record is it
  the record.  \<open>find_no_blob\<close> returns \<open>n * n\<close> items for each record of the whole store.
\<close>

theorem find_returns_all_combinations:
  assumes "data_ok E s" and "sql_literal k"
  defines "R \<equiv> of_key k (data_rows s)"
  shows "\<exists>ds ns s1 s2. data_find E other k [] s = (Ok ds, s1) \<and> length ds = length R ^ 3 \<and>
      set ds = {\<lparr>ttl = word_of_int (fst (snd (snd (snd q)))), time = word_of_int (fst (snd (snd q))),
        title = snd (fst (snd r)), data = snd (snd (snd (snd p)))\<rparr> | r q p. r \<in> set R \<and> q \<in> set R \<and> p \<in> set R} \<and>
    data_find_no_blob E other k [] s = (Ok ns, s2) \<and> length ns = length R ^ 2 * length (data_rows s)"
proof -
  obtain ds where ds: "data_find E other k [] s = (Ok ds, s\<lparr>calls := Suc (calls s)\<rparr>)"
    "mset ds = mset (map (triple_item True) (List.product (map header_of R)
      (List.product (map time_of R) (map item_of R))))"
    using data_find_run [OF assms(1,2), of other "[]"] by (auto simp: R_def)
  obtain ns where ns: "data_find_no_blob E other k [] s = (Ok ns, s\<lparr>calls := Suc (calls s)\<rparr>)"
    "mset ns = mset (map (triple_item False) (List.product (map header_of R)
      (List.product (map time_of R) (map item_of (data_rows s)))))"
    using data_find_no_blob_run [OF assms(1,2), of other "[]"] by (auto simp: R_def)
  have "length ds = length R ^ 3"
    using arg_cong [OF ds(2), of size] by (simp only: size_mset length_map length_product power3_eq_cube)
  moreover have "length ns = length R ^ 2 * length (data_rows s)"
    using arg_cong [OF ns(2), of size] by (simp only: size_mset length_map length_product power2_eq_square mult.assoc)
  moreover have "set ds = triple_item True ` (header_of ` set R \<times> time_of ` set R \<times> item_of ` set R)"
    using arg_cong [OF ds(2), of set_mset] by (simp only: set_mset_mset list.set_map set_product)
  then have "set ds = {\<lparr>ttl = word_of_int (fst (snd (snd (snd q)))), time = word_of_int (fst (snd (snd q))),
        title = snd (fst (snd r)), data = snd (snd (snd (snd p)))\<rparr> | r q p. r \<in> set R \<and> q \<in> set R \<and> p \<in> set R}"
    unfolding image_triple by (simp add: triple_item_def row_simps)
  ultimately show ?thesis using ds(1) ns(1) by blast
qed

theorem find_returns_all_combinations_witness:
  "\<exists>ds s1. data_find demo_engine no_text ''k'' [] demo_store = (Ok ds, s1) \<and> length ds = 8"
proof -
  have "sql_literal ''k''" by (simp add: sql_literal_def)
  from find_returns_all_combinations [OF demo_store_ok this, of no_text]
  obtain ds s1 where "data_find demo_engine no_text ''k'' [] demo_store = (Ok ds, s1)"
    "length ds = length (of_key ''k'' (data_rows demo_store)) ^ 3" by blast
  moreover have "length (of_key ''k'' (data_rows demo_store)) = 2"
    unfolding demo_store_rows by (simp add: demo_rows_def of_key_def)
  ultimately show ?thesis by auto
qed

end
