(* ===== verification/Node.thy ===== *)
theory Node
  imports Bucket Search Packet Store_Contract
begin

text \<open>
  The node: the state of class \<open>miniDHT\<close> (\<open>Sources/miniDHT.h\<close>), its lock, and the functions of
  \<open>Sources/miniDHT.cpp\<close> that send a message.  The clock, the random numbers, the name resolution, the
  wire format of protocol buffers, the SQL engine and the user's callbacks are a record of parameters.
\<close>

section \<open>The platform\<close>

text \<open>
  \<open>clock_at n\<close> and \<open>random_at n\<close> are what the \<open>n\<close>-th reading of the clock and the \<open>n\<close>-th call of
  \<open>random()\<close> give; \<open>resolve n\<close> is the \<open>n\<close>-th name resolution, an error message or an endpoint;
  \<open>socket_endpoint\<close> is \<open>socket_.local_endpoint()\<close>.  A callback returns, or throws.
\<close>

record platform =
  clock_at :: "nat \<Rightarrow> int"
  random_at :: "nat \<Rightarrow> nat"
  rhs_first :: bool
  resolve :: "nat \<Rightarrow> endpoint_proto \<Rightarrow> string + tcp_endpoint"
  serialize :: "message_proto \<Rightarrow> string"
  parse :: "string \<Rightarrow> message_proto"
  socket_endpoint :: "string + tcp_endpoint"
  run_value_callback :: "nat \<Rightarrow> data_item_proto list \<Rightarrow> exn option"
  run_node_callback :: "nat \<Rightarrow> key_text list \<Rightarrow> exn option"
  storage_engine :: sql_env
  storage_other :: data_other
  stored_records :: "string \<Rightarrow> data_tables"
  backup_engine :: sql_env
  backup_other :: kv_other
  stored_contacts :: "string \<Rightarrow> kv_tables"

section \<open>The state\<close>

text \<open>What the node asks of the network: a new session that connects, a packet for a session.\<close>

datatype net_event = Connect nat tcp_endpoint | Deliver nat packet

datatype callback_event = Values nat "data_item_proto list" | Nodes nat "key_text list"

text \<open>
  The sessions are numbered; the map of the class from endpoints to session pointers maps to their
  numbers.  The last fields count what was read of the platform and list what was asked of it.
\<close>

record node =
  node_id :: key_text
  max_records :: nat
  listen_port :: "16 word"
  contacts :: bucket
  searches :: "(token \<times> search) list"
  storage :: data_db
  backup :: kv_db
  ping_ttl :: "(token \<times> int) list"
  store_check_val :: "(token \<times> nat) list"
  sessions :: "(endpoint_proto \<times> nat) list"
  sender_endpoint :: tcp_endpoint
  giant_lock :: bool
  timer :: int
  clock_reads :: nat
  random_calls :: nat
  lookups :: nat
  next_session :: nat
  outbox :: "net_event list"
  callbacks :: "callback_event list"

definition new_node :: "key_text \<Rightarrow> 16 word \<Rightarrow> nat \<Rightarrow> node" where
  "new_node k lp mx =
     \<lparr>node_id = k, max_records = mx, listen_port = lp, contacts = new_bucket k, searches = [],
      storage = fresh_db no_tables, backup = fresh_db \<lparr>has_contacts = False, kv_rows = []\<rparr>,
      ping_ttl = [], store_check_val = [], sessions = [],
      sender_endpoint = \<lparr>ip_text = ''0.0.0.0'', ip_port = 0\<rparr>, giant_lock = False, timer = 0,
      clock_reads = 0, random_calls = 0, lookups = 0, next_session = 0, outbox = [], callbacks = []\<rparr>"

section \<open>The lock\<close>

definition lock_giant :: "(node, unit) cpp" where
  "lock_giant = (\<lambda>s. if giant_lock s then (Abort Deadlock, s) else (Ok (), s\<lparr>giant_lock := True\<rparr>))"

definition unlock_giant :: "(node, unit) cpp" where
  "unlock_giant = (\<lambda>s. if giant_lock s then (Ok (), s\<lparr>giant_lock := False\<rparr>)
                      else (Abort Undefined_behaviour, s))"

text \<open>A block with a \<open>scoped_lock\<close>: its destructor unlocks on return and on a throw.\<close>

definition scoped :: "(node, 'a) cpp \<Rightarrow> (node, 'a) cpp" where
  "scoped m = (\<lambda>s. case lock_giant s of
       (Ok _, s1) \<Rightarrow>
         (case m s1 of
            (Abort f, s2) \<Rightarrow> (Abort f, s2)
          | (r, s2) \<Rightarrow>
              (case unlock_giant s2 of
                 (Ok _, s3) \<Rightarrow> (r, s3)
               | (Throw e, s3) \<Rightarrow> (Throw e, s3)
               | (Abort f, s3) \<Rightarrow> (Abort f, s3)))
     | (Throw e, s1) \<Rightarrow> (Throw e, s1)
     | (Abort f, s1) \<Rightarrow> (Abort f, s1))"

lemma preserves_scoped:
  assumes "preserves I m" and "\<And>s l. I s \<Longrightarrow> I (s\<lparr>giant_lock := l\<rparr>)"
  shows "preserves I (scoped m)"
proof (rule preservesI)
  fix s assume s: "I s"
  have l: "I (snd (lock_giant s))" using s by (simp add: lock_giant_def assms(2))
  have b: "I (snd (m (snd (lock_giant s))))" by (rule preservesD [OF assms(1) l])
  then have u: "I (snd (unlock_giant (snd (m (snd (lock_giant s))))))" by (simp add: unlock_giant_def assms(2))
  show "I (snd (scoped m s))"
    using l b u by (auto simp: scoped_def split: prod.splits outcome.splits)
qed

text \<open>\<open>catch (std::exception& ex) { giant_lock_.unlock(); throw ex; }\<close>\<close>

definition unlock_and_rethrow :: "string \<Rightarrow> (node, 'a) cpp" where
  "unlock_and_rethrow msg = thn unlock_giant (throw_exn (Std_exception ''std::exception''))"

text \<open>The \<open>try\<close> inside the locked block, as the public functions have it.\<close>

definition locked_try :: "(node, 'a) cpp \<Rightarrow> (node, 'a) cpp" where
  "locked_try m = scoped (try_std m unlock_and_rethrow)"

text \<open>The locked block inside the \<open>try\<close>, as \<open>periodic\<close> and \<open>handle_accept\<close> have it.\<close>

definition try_locked :: "(node, 'a) cpp \<Rightarrow> (node, 'a) cpp" where
  "try_locked m = try_std (scoped m) unlock_and_rethrow"

section \<open>The parts of the state\<close>

definition on_contacts :: "(bucket, 'a) cpp \<Rightarrow> (node, 'a) cpp" where
  "on_contacts m = on_part contacts (\<lambda>b s. s\<lparr>contacts := b\<rparr>) m"

definition on_storage :: "(data_db, 'a) cpp \<Rightarrow> (node, 'a) cpp" where
  "on_storage m = on_part storage (\<lambda>b s. s\<lparr>storage := b\<rparr>) m"

definition on_backup :: "(kv_db, 'a) cpp \<Rightarrow> (node, 'a) cpp" where
  "on_backup m = on_part backup (\<lambda>b s. s\<lparr>backup := b\<rparr>) m"

text \<open>
  \<open>map_search[t]\<close>, read and changed in place.  Where there is no such search the code makes one
  whose members have no value, and reads them.
\<close>

definition on_search :: "token \<Rightarrow> (search, 'a) cpp \<Rightarrow> (node, 'a) cpp" where
  "on_search t m = (\<lambda>s. case map_of (searches s) t of
       None \<Rightarrow> (Abort Undefined_behaviour, s)
     | Some x \<Rightarrow> (case m x of (r, x') \<Rightarrow> (r, s\<lparr>searches := omap_put t x' (searches s)\<rparr>)))"

definition put_search :: "token \<Rightarrow> search \<Rightarrow> (node, unit) cpp" where
  "put_search t x = writes (\<lambda>s. s\<lparr>searches := omap_put t x (searches s)\<rparr>)"

definition erase_search :: "token \<Rightarrow> (node, unit) cpp" where
  "erase_search t = writes (\<lambda>s. s\<lparr>searches := omap_erase t (searches s)\<rparr>)"

definition update_time :: "platform \<Rightarrow> (node, int) cpp" where
  "update_time P = (\<lambda>s. (Ok (clock_at P (clock_reads s)), s\<lparr>clock_reads := Suc (clock_reads s)\<rparr>))"

definition random_token :: "platform \<Rightarrow> (node, token) cpp" where
  "random_token P = (\<lambda>s. (Ok (random_bitset (random_at P) (random_calls s)),
     s\<lparr>random_calls := random_calls s + TOKEN_SIZE\<rparr>))"

definition random_below :: "platform \<Rightarrow> nat \<Rightarrow> (node, nat) cpp" where
  "random_below P n = (\<lambda>s. (Ok (random_at P (random_calls s) mod n),
     s\<lparr>random_calls := Suc (random_calls s)\<rparr>))"

text \<open>\<open>contact_list.add_contact\<close>, which reads the clock unless the contact is the node itself.\<close>

definition add_contact_now :: "platform \<Rightarrow> key_text \<Rightarrow> endpoint_proto \<Rightarrow> (node, unit) cpp" where
  "add_contact_now P k ep = (\<lambda>s.
     if k = local_key (contacts s) then (Ok (), s)
     else bnd (update_time P) (\<lambda>now. on_contacts (add_contact (rhs_first P) now k ep)) s)"

section \<open>Sending\<close>

text \<open>\<open>catch (std::exception&)\<close> with nothing but a line on the error stream.\<close>

definition swallow :: "(node, unit) cpp \<Rightarrow> (node, unit) cpp" where
  "swallow m = try_std m (\<lambda>_. ret ())"

definition proto_to_endpoint :: "platform \<Rightarrow> endpoint_proto \<Rightarrow> (node, tcp_endpoint) cpp" where
  "proto_to_endpoint P epp = (\<lambda>s.
     (case resolve P (lookups s) epp of
        Inl msg \<Rightarrow> Throw (Std_exception msg)
      | Inr ep \<Rightarrow> Ok ep, s\<lparr>lookups := Suc (lookups s)\<rparr>))"

definition emit :: "net_event list \<Rightarrow> (node, unit) cpp" where
  "emit es = writes (\<lambda>s. s\<lparr>outbox := outbox s @ es\<rparr>)"

definition deliver_packet :: "tcp_endpoint \<Rightarrow> packet \<Rightarrow> nat option \<Rightarrow> (node, unit) cpp" where
  "deliver_packet uep msg ite = (case ite of
       None \<Rightarrow> (\<lambda>s. thn (emit [Connect (next_session s) uep, Deliver (next_session s) msg])
                 (writes (\<lambda>s. s\<lparr>next_session := Suc (next_session s)\<rparr>)) s)
     | Some sid \<Rightarrow> emit [Deliver sid msg])"

definition send_to :: "platform \<Rightarrow> message_proto \<Rightarrow> endpoint_proto \<Rightarrow> (node, unit) cpp" where
  "send_to P m epp =
     thn (assert_cpp (address epp \<noteq> []))
    (thn (assert_cpp (port epp \<noteq> []))
    (swallow
      (bnd (proto_to_endpoint P epp) (\<lambda>uep.
       bnd (lift_outcome (endpoint_to_proto uep)) (\<lambda>ep.
       bnd (reads (\<lambda>s. map_of (sessions s) ep)) (\<lambda>ite.
       bnd (reads listen_port) (\<lambda>lp.
       bnd (lift_outcome (message_packet lp (serialize P m))) (\<lambda>msg.
         deliver_packet uep msg ite))))))))"

definition assert_key :: "key_text \<Rightarrow> (node, unit) cpp" where
  "assert_key k = assert_cpp (k \<noteq> zero_key_text)"

definition send_message :: "platform \<Rightarrow> message_proto \<Rightarrow> (node, unit) cpp" where
  "send_message P m =
     thn (assert_key (to_id m)) (\<lambda>s.
       if to_id m = node_id s then (Ok (), s)
       else
         let ite = find_key (contacts s) (to_id m)
         in if ite = length (entries (contacts s))
            then (Throw (Std_exception (''No route to key : '' @ to_id m)), s)
            else send_to P m (contact_ep (snd (entries (contacts s) ! ite))) s)"

definition set_ping_ttl :: "token \<Rightarrow> int \<Rightarrow> (node, unit) cpp" where
  "set_ping_ttl t now = writes (\<lambda>s. s\<lparr>ping_ttl := omap_put t now (ping_ttl s)\<rparr>)"

definition send_PING_endpoint :: "platform \<Rightarrow> endpoint_proto \<Rightarrow> token \<Rightarrow> (node, unit) cpp" where
  "send_PING_endpoint P epp t =
     thn (assert_cpp (address epp \<noteq> []))
    (thn (assert_cpp (port epp \<noteq> []))
    (swallow
      (bnd (update_time P) (\<lambda>now.
       thn (set_ping_ttl t now)
      (bnd (reads node_id) (\<lambda>me. send_to P (new_message SEND_PING me t) epp))))))"

definition send_PING_key :: "platform \<Rightarrow> key_text \<Rightarrow> token \<Rightarrow> (node, unit) cpp" where
  "send_PING_key P k t =
     thn (assert_key k)
    (swallow
      (bnd (update_time P) (\<lambda>now.
       thn (set_ping_ttl t now)
      (bnd (reads node_id) (\<lambda>me.
         send_message P ((new_message SEND_PING me t)\<lparr>to_id_opt := Some k\<rparr>))))))"

text \<open>The token of a ping is drawn, as the default argument, before the call.\<close>

definition ping_endpoint :: "platform \<Rightarrow> endpoint_proto \<Rightarrow> (node, unit) cpp" where
  "ping_endpoint P epp = bnd (random_token P) (\<lambda>t. send_PING_endpoint P epp t)"

definition ping_key :: "platform \<Rightarrow> key_text \<Rightarrow> (node, unit) cpp" where
  "ping_key P k = bnd (random_token P) (\<lambda>t. send_PING_key P k t)"

definition send_STORE ::
  "platform \<Rightarrow> key_text \<Rightarrow> key_text \<Rightarrow> data_item_proto \<Rightarrow> token \<Rightarrow> (node, unit) cpp" where
  "send_STORE P to query d t =
     thn (assert_key to)
    (swallow
      (bnd (reads node_id) (\<lambda>me.
       thn (writes (\<lambda>s. s\<lparr>store_check_val := omap_put t (length (data d)) (store_check_val s)\<rparr>))
         (send_message P ((new_message SEND_STORE me t)
            \<lparr>to_id_opt := Some to, query_id_opt := Some query, data_item_opt := Some d\<rparr>)))))"

definition send_FIND_NODE :: "platform \<Rightarrow> key_text \<Rightarrow> key_text \<Rightarrow> token \<Rightarrow> (node, unit) cpp" where
  "send_FIND_NODE P to query t =
     thn (assert_key to)
    (swallow
      (bnd (reads node_id) (\<lambda>me.
         send_message P ((new_message SEND_FIND_NODE me t)
           \<lparr>to_id_opt := Some to, query_id_opt := Some query\<rparr>))))"

definition send_FIND_VALUE ::
  "platform \<Rightarrow> key_text \<Rightarrow> key_text \<Rightarrow> token \<Rightarrow> string \<Rightarrow> (node, unit) cpp" where
  "send_FIND_VALUE P to query t h =
     thn (assert_key to)
    (swallow
      (bnd (reads node_id) (\<lambda>me.
         send_message P ((new_message SEND_FIND_VALUE me t)
           \<lparr>to_id_opt := Some to, query_id_opt := Some query, hint_opt := Some h\<rparr>))))"

section \<open>Replying\<close>

definition reply_PING :: "platform \<Rightarrow> key_text \<Rightarrow> token \<Rightarrow> (node, unit) cpp" where
  "reply_PING P to t =
     thn (assert_key to)
    (swallow
      (bnd (reads node_id) (\<lambda>me.
         send_message P ((new_message REPLY_PING me t)\<lparr>to_id_opt := Some to\<rparr>))))"

definition reply_STORE :: "platform \<Rightarrow> key_text \<Rightarrow> token \<Rightarrow> data_item_proto \<Rightarrow> (node, unit) cpp" where
  "reply_STORE P to t d =
     thn (assert_key to)
    (swallow
      (bnd (reads node_id) (\<lambda>me.
         send_message P ((new_message REPLY_STORE me t)
           \<lparr>to_id_opt := Some to, check_val_opt := Some (word_of_nat (length (data d)))\<rparr>))))"

text \<open>The loop of \<open>reply_FIND_NODE\<close>: a message for every \<open>ALPHA\<close> contacts, and one for the rest.\<close>

fun contact_chunks :: "platform \<Rightarrow> message_proto \<Rightarrow> contact_proto list \<Rightarrow> (node, unit) cpp" where
  "contact_chunks P m [] = ret ()"
| "contact_chunks P m (c # cs) =
     (let m1 = m\<lparr>contact_list := contact_list m @ [c]\<rparr>
      in if length (contact_list m1) \<ge> ALPHA \<or> cs = []
         then thn (send_message P m1) (contact_chunks P (m1\<lparr>contact_list := []\<rparr>) cs)
         else contact_chunks P m1 cs)"

definition reply_FIND_NODE :: "platform \<Rightarrow> key_text \<Rightarrow> token \<Rightarrow> (node, unit) cpp" where
  "reply_FIND_NODE P to t =
     thn (assert_key to)
    (swallow
      (bnd (reads node_id) (\<lambda>me.
       bnd (reads (\<lambda>s. map snd (entries (contacts s)))) (\<lambda>cs.
         contact_chunks P ((new_message REPLY_FIND_NODE me t)\<lparr>to_id_opt := Some to\<rparr>) cs))))"

text \<open>\<open>title.find(hint) != npos\<close>\<close>

fun has_substring :: "string \<Rightarrow> string \<Rightarrow> bool" where
  "has_substring h [] = (h = [])"
| "has_substring h (c # cs) = (take (length h) (c # cs) = h \<or> has_substring h cs)"

definition reply_FIND_VALUE :: "platform \<Rightarrow> key_text \<Rightarrow> token \<Rightarrow> string \<Rightarrow> (node, unit) cpp" where
  "reply_FIND_VALUE P to t h =
     thn (assert_key to)
    (swallow
      (bnd (reads node_id) (\<lambda>me.
       bnd (on_storage (data_find (storage_engine P) (storage_other P) to [])) (\<lambda>ld.
         let m = (new_message REPLY_FIND_VALUE me t)
               \<lparr>to_id_opt := Some to, data_item_list := filter (\<lambda>d. has_substring h (title d)) ld\<rparr>
         in when_cpp (data_item_list m \<noteq> []) (send_message P m)))))"

end
