(* ===== verification/Lookup.thy ===== *)
theory Lookup
  imports Node
begin

text \<open>
  The iterative lookups of \<open>Sources/miniDHT.cpp\<close>: how a search is started on the contact table, and
  what the node does with the contacts a search is given: ask the next ones, store to them, or end.
\<close>

section \<open>What sending leaves alone\<close>

text \<open>
  Sending reads the contact table and the sessions; it changes the tokens it waits for, the
  environment's counters and the outbox, nothing else.  \<open>node_core\<close> is what it does not change.
\<close>

definition node_core :: "node \<Rightarrow> node" where
  "node_core s = s\<lparr>ping_ttl := [], store_check_val := [], clock_reads := 0, random_calls := 0,
     lookups := 0, next_session := 0, outbox := []\<rparr>"

lemma core_update [simp]:
  "node_core (s\<lparr>ping_ttl := x1\<rparr>) = node_core s" "node_core (s\<lparr>store_check_val := x2\<rparr>) = node_core s"
  "node_core (s\<lparr>clock_reads := n\<rparr>) = node_core s" "node_core (s\<lparr>random_calls := n\<rparr>) = node_core s"
  "node_core (s\<lparr>lookups := n\<rparr>) = node_core s" "node_core (s\<lparr>next_session := n\<rparr>) = node_core s"
  "node_core (s\<lparr>outbox := x3\<rparr>) = node_core s"
  by (simp_all add: node_core_def)

lemma core_select [simp]:
  "node_id (node_core s) = node_id s" "contacts (node_core s) = contacts s"
  "searches (node_core s) = searches s" "storage (node_core s) = storage s"
  "backup (node_core s) = backup s" "giant_lock (node_core s) = giant_lock s"
  "sessions (node_core s) = sessions s" "max_records (node_core s) = max_records s"
  "listen_port (node_core s) = listen_port s" "callbacks (node_core s) = callbacks s"
  "sender_endpoint (node_core s) = sender_endpoint s" "timer (node_core s) = timer s"
  by (simp_all add: node_core_def)

abbreviation keeps_core :: "node \<Rightarrow> (node, 'a) cpp \<Rightarrow> bool" where
  "keeps_core c m \<equiv> preserves (\<lambda>s. node_core s = c) m"

named_theorems core_rules "computations that only send"

lemma core_emit [core_rules]: "keeps_core c (emit es)"
  by (auto simp: emit_def intro: preserves_writes)

lemma core_update_time [core_rules]: "keeps_core c (update_time P)"
  by (auto simp: update_time_def intro: preservesI)

lemma core_random_token [core_rules]: "keeps_core c (random_token P)"
  by (auto simp: random_token_def intro: preservesI)

lemma core_proto_to_endpoint [core_rules]: "keeps_core c (proto_to_endpoint P e)"
  by (auto simp: proto_to_endpoint_def intro: preservesI)

lemma core_set_ping_ttl [core_rules]: "keeps_core c (set_ping_ttl t n)"
  by (auto simp: set_ping_ttl_def intro: preserves_writes)

lemma core_assert_key [core_rules]: "keeps_core c (assert_key k)"
  by (simp add: assert_key_def preserves_assert)

lemma core_swallow [core_rules]: "keeps_core c m \<Longrightarrow> keeps_core c (swallow m)"
  by (simp add: swallow_def preserves_try preserves_ret)

lemma core_deliver_packet [core_rules]: "keeps_core c (deliver_packet u m i)"
proof (cases i)
  case None
  show ?thesis
    by (rule preservesI) (simp add: None deliver_packet_def emit_def cpp_simps)
next
  case (Some sid)
  then show ?thesis by (simp add: deliver_packet_def core_emit)
qed

lemma core_send_to [core_rules]: "keeps_core c (send_to P m e)"
  by (simp add: send_to_def) (intro core_rules preserves_rules)

lemma core_send_message [core_rules]: "keeps_core c (send_message P m)"
proof -
  have "keeps_core c (\<lambda>s. if to_id m = node_id s then (Ok (), s)
       else
         let ite = find_key (contacts s) (to_id m)
         in if ite = length (entries (contacts s))
            then (Throw (Std_exception (''No route to key : '' @ to_id m)), s)
            else send_to P m (contact_ep (snd (entries (contacts s) ! ite))) s)"
    by (rule preservesI) (auto simp: Let_def intro: preservesD [OF core_send_to])
  then show ?thesis unfolding send_message_def by (intro core_rules preserves_rules)
qed

lemma core_store_check [core_rules]:
  "keeps_core c (writes (\<lambda>s. s\<lparr>store_check_val := f s\<rparr>))"
  by (rule preserves_writes) simp

lemma core_sends [core_rules]:
  "keeps_core c (send_PING_endpoint P e t)" "keeps_core c (send_PING_key P k t)"
  "keeps_core c (ping_endpoint P e)" "keeps_core c (ping_key P k)"
  "keeps_core c (send_STORE P k q d t)" "keeps_core c (send_FIND_NODE P k q t)"
  "keeps_core c (send_FIND_VALUE P k q t h)"
  unfolding send_PING_endpoint_def send_PING_key_def ping_endpoint_def ping_key_def send_STORE_def
    send_FIND_NODE_def send_FIND_VALUE_def
  by (intro core_rules preserves_rules)+

lemma core_chunks [core_rules]: "keeps_core c (contact_chunks P m cs)"
  by (induction P m cs rule: contact_chunks.induct)
    (auto simp: Let_def intro!: core_rules preserves_rules)

lemma core_replies [core_rules]:
  "keeps_core c (reply_PING P k t)" "keeps_core c (reply_STORE P k t d)" "keeps_core c (reply_FIND_NODE P k t)"
  unfolding reply_PING_def reply_STORE_def reply_FIND_NODE_def
  by (intro core_rules preserves_rules)+

lemma core_same:
  assumes "keeps_core (node_core s) m"
  shows "node_core (snd (m s)) = node_core s"
  using preservesD [OF assms] by simp

text \<open>Two states with one core agree on every field of it.\<close>

lemma same_core:
  assumes "node_core s = node_core s'"
  shows "node_id s = node_id s'" and "contacts s = contacts s'" and "searches s = searches s'"
    and "storage s = storage s'" and "backup s = backup s'" and "giant_lock s = giant_lock s'"
    and "sessions s = sessions s'" and "max_records s = max_records s'"
    and "callbacks s = callbacks s'"
  using arg_cong [OF assms, of node_id] arg_cong [OF assms, of contacts] arg_cong [OF assms, of searches]
    arg_cong [OF assms, of storage] arg_cong [OF assms, of backup] arg_cong [OF assms, of giant_lock]
    arg_cong [OF assms, of sessions] arg_cong [OF assms, of max_records] arg_cong [OF assms, of callbacks]
  by (simp_all only: core_select)

section \<open>Starting a lookup\<close>

text \<open>The contacts of the proximity table that the contact table has, in its order.\<close>

fun proximity_contacts :: "bucket \<Rightarrow> key_text list \<Rightarrow> contact_proto list outcome" where
  "proximity_contacts b [] = Ok []"
| "proximity_contacts b (k # ks) =
     (if find_key b k = length (entries b) then proximity_contacts b ks
      else case bucket_at b k of
        Ok ep \<Rightarrow>
          (if address ep = [] \<or> port ep = [] then Abort Assertion_failed
           else map_outcome ((#) \<lparr>contact_key = k, contact_ep = Endpoint (address ep) (port ep),
                                  contact_time = None\<rparr>) (proximity_contacts b ks))
      | Throw e \<Rightarrow> Throw e
      | Abort f \<Rightarrow> Abort f)"

text \<open>\<open>miniDHT::build_proximity\<close>, which nothing calls.\<close>

fun node_proximity_loop :: "key \<Rightarrow> contact_proto list \<Rightarrow> (string \<times> key_text) list \<Rightarrow> (string \<times> key_text) list" where
  "node_proximity_loop search_key [] mp = mp"
| "node_proximity_loop search_key (c # cs) mp =
     node_proximity_loop search_key cs
       (omap_put (bitset_to_string (search_key XOR string_to_key (contact_key c))) (contact_key c) mp)"

definition node_build_proximity :: "key_text \<Rightarrow> contact_proto list \<Rightarrow> (string \<times> key_text) list" where
  "node_build_proximity k lc = node_proximity_loop (string_to_key k) lc []"

section \<open>Going on with a lookup\<close>

text \<open>
  The three loops that ask the next contacts: at most \<open>ALPHA\<close>, as long as \<open>is_node_full\<close> says that
  some were not asked.
\<close>

fun query_nodes :: "(key_text \<Rightarrow> (node, unit) cpp) \<Rightarrow> token \<Rightarrow> nat \<Rightarrow> (node, unit) cpp" where
  "query_nodes send t 0 = ret ()"
| "query_nodes send t (Suc n) =
     bnd (on_search t (\<lambda>x. (is_node_full x, x))) (\<lambda>full.
       if full then ret ()
       else bnd (on_search t get_node_key) (\<lambda>k. thn (send k) (query_nodes send t n)))"

definition call_node_callback :: "platform \<Rightarrow> token \<Rightarrow> (node, unit) cpp" where
  "call_node_callback P t =
     bnd (on_search t (reads (\<lambda>x. (node_callback x, node_callback_keys x)))) (\<lambda>(cb, ks).
       case cb of
         None \<Rightarrow> throw_exn (Std_exception ''call to empty boost::function'')
       | Some c \<Rightarrow>
           thn (writes (\<lambda>s. s\<lparr>callbacks := callbacks s @ [Nodes c ks]\<rparr>))
             (case run_node_callback P c ks of None \<Rightarrow> ret () | Some e \<Rightarrow> throw_exn e))"

definition replyIterativeNodeSearch ::
  "platform \<Rightarrow> contact_proto list \<Rightarrow> token \<Rightarrow> key_text \<Rightarrow> (node, unit) cpp" where
  "replyIterativeNodeSearch P lc t k =
     bnd (on_search t (update_list lc)) (\<lambda>complete.
       if complete then
         bnd (on_search t (reads node_callback_valid)) (\<lambda>valid.
           thn (when_cpp valid (swallow (call_node_callback P t))) (erase_search t))
       else query_nodes (\<lambda>key. send_FIND_NODE P key k t) t ALPHA)"

definition replyIterativeValueSearch ::
  "platform \<Rightarrow> contact_proto list \<Rightarrow> token \<Rightarrow> key_text \<Rightarrow> (node, unit) cpp" where
  "replyIterativeValueSearch P lc t k =
     thn (on_search t (update_list lc))
       (query_nodes (\<lambda>key. send_FIND_VALUE P key k t []) t ALPHA)"

text \<open>
  \<open>while (!map_search[t].is_value_full()) send_STORE(map_search[t].get_value_key(), ...)\<close>: one turn of
  the loop returns whether to go on.
\<close>

definition store_turn :: "platform \<Rightarrow> token \<Rightarrow> key_text \<Rightarrow> (node, bool) cpp" where
  "store_turn P t k =
     bnd (on_search t (\<lambda>x. (is_value_full x, x))) (\<lambda>full.
       if full then ret False
       else bnd (on_search t get_value_key) (\<lambda>key.
         bnd (on_search t (reads buffer)) (\<lambda>d.
         thn (send_STORE P key k d t) (ret True))))"

definition values_left :: "token \<Rightarrow> node \<Rightarrow> nat" where
  "values_left t s = (case map_of (searches s) t of
     None \<Rightarrow> 0 | Some x \<Rightarrow> length (open_keys (map_value_busy x) x))"

lemma pick_loop_Some: "pick_loop z busy cs = Ok (Some c) \<Longrightarrow> c \<in> set cs \<and> \<not> omap_has (contact_key c) busy"
  by (induction cs) (auto split: if_splits)

lemma open_keys_put:
  assumes "c \<in> set (short_list x)" and "\<not> omap_has (contact_key c) busy" and "short_list x' = short_list x"
  shows "length (open_keys (omap_put (contact_key c) True busy) x') < length (open_keys busy x)"
proof -
  have "open_keys (omap_put (contact_key c) True busy) x' =
      filter (\<lambda>k. k \<noteq> contact_key c) (open_keys busy x)"
    using assms(3) by (auto simp: open_keys_def omap_has_def intro: filter_cong)
  moreover have "contact_key c \<in> set (open_keys busy x)"
    using assms(1,2) by (auto simp: open_keys_def)
  ultimately show ?thesis by (metis (mono_tags, lifting) length_filter_less)
qed

lemma get_value_key_left:
  assumes "get_value_key x = (Ok k, x')"
  shows "length (open_keys (map_value_busy x') x') < length (open_keys (map_value_busy x) x)"
  using assms open_keys_put [of _ x "map_value_busy x"]
  by (auto simp: get_value_key_def dest!: pick_loop_Some split: outcome.splits option.splits)

lemma on_search_found:
  "map_of (searches s) t = Some x \<Longrightarrow>
     on_search t m s = (fst (m x), s\<lparr>searches := omap_put t (snd (m x)) (searches s)\<rparr>)"
  by (simp add: on_search_def split: prod.split)

lemma on_search_None: "map_of (searches s) t = None \<Longrightarrow> on_search t m s = (Abort Undefined_behaviour, s)"
  by (simp add: on_search_def)

lemma core_send_STORE_searches: "searches (snd (send_STORE P key k d t s)) = searches s"
  using same_core(3) [OF core_same [OF core_sends(5)]] .

lemma store_turn_left:
  assumes "store_turn P t k s = (Ok True, s')"
  shows "values_left t s' < values_left t s"
proof (cases "map_of (searches s) t")
  case None
  with assms show ?thesis by (simp add: store_turn_def bnd_run on_search_None)
next
  case (Some x)
  define s1 where "s1 = s\<lparr>searches := omap_put t x (searches s)\<rparr>"
  obtain r x' where pick: "get_value_key x = (r, x')" by fastforce
  define s2 where "s2 = s1\<lparr>searches := omap_put t x' (searches s1)\<rparr>"
  define s3 where "s3 = s2\<lparr>searches := omap_put t x' (searches s2)\<rparr>"
  have full: "is_value_full x = Ok False"
    using assms by (simp add: store_turn_def bnd_run on_search_found [OF Some] ret_run split: outcome.splits if_splits)
  have m1: "map_of (searches s1) t = Some x" and m2: "map_of (searches s2) t = Some x'"
    and m3: "map_of (searches s3) t = Some x'" by (simp_all add: s1_def s2_def s3_def)
  have run1: "on_search t (\<lambda>x. (is_value_full x, x)) s = (Ok False, s1)"
    by (simp add: on_search_found [OF Some] full s1_def)
  have run2: "on_search t get_value_key s1 = (r, s2)"
    unfolding on_search_found [OF m1] by (simp add: pick s2_def)
  have run3: "on_search t (reads buffer) s2 = (Ok (buffer x'), s3)"
    unfolding on_search_found [OF m2] by (simp add: reads_run s3_def)
  show ?thesis
  proof (cases r)
    case (Ok key)
    then have "store_turn P t k s = thn (send_STORE P key k (buffer x') t) (ret True) s3"
      by (simp add: store_turn_def bnd_run run1 run2 run3)
    then have "s' = snd (send_STORE P key k (buffer x') t s3)"
      using assms by (simp add: bnd_run ret_run split: prod.splits outcome.splits)
    then have "searches s' = searches s3" using core_send_STORE_searches by metis
    then have "values_left t s' = length (open_keys (map_value_busy x') x')"
      using m3 by (simp add: values_left_def)
    moreover have "values_left t s = length (open_keys (map_value_busy x) x)"
      using Some by (simp add: values_left_def)
    ultimately show ?thesis using get_value_key_left pick Ok by simp
  next
    case (Throw e)
    with assms show ?thesis by (simp add: store_turn_def bnd_run run1 run2)
  next
    case (Abort f)
    with assms show ?thesis by (simp add: store_turn_def bnd_run run1 run2)
  qed
qed

function store_loop :: "platform \<Rightarrow> token \<Rightarrow> key_text \<Rightarrow> (node, unit) cpp" where
  "store_loop P t k s =
     (case store_turn P t k s of
        (Ok again, s') \<Rightarrow> if again then store_loop P t k s' else (Ok (), s')
      | (Throw e, s') \<Rightarrow> (Throw e, s')
      | (Abort f, s') \<Rightarrow> (Abort f, s'))"
  by pat_completeness auto
termination
proof (relation "measure (\<lambda>(P, t, k, s). values_left t s)", goal_cases)
  case 1
  show ?case by simp
next
  case (2 P t k s r s' again)
  then have "store_turn P t k s = (Ok True, s')" by simp
  then show ?case using store_turn_left by simp
qed

declare store_loop.simps [simp del]

lemma preserves_store_loop:
  assumes "preserves I (store_turn P t k)"
  shows "preserves I (store_loop P t k)"
proof (rule preservesI)
  fix s assume "I s"
  with assms show "I (snd (store_loop P t k s))"
  proof (induction P t k s rule: store_loop.induct)
    case (1 P t k s)
    obtain r s' where turn: "store_turn P t k s = (r, s')" by fastforce
    with preservesD [OF 1(2,3)] have ok: "I s'" by simp
    show ?case
    proof (cases r)
      case (Ok again)
      then show ?thesis
        using 1(1) [OF turn [symmetric] Ok _ 1(2) ok] ok turn by (subst store_loop.simps) simp
    next
      case (Throw e)
      then show ?thesis using ok turn by (subst store_loop.simps) simp
    next
      case (Abort f)
      then show ?thesis using ok turn by (subst store_loop.simps) simp
    qed
  qed
qed

definition replyIterativeStoreSearch ::
  "platform \<Rightarrow> contact_proto list \<Rightarrow> token \<Rightarrow> key_text \<Rightarrow> (node, unit) cpp" where
  "replyIterativeStoreSearch P lc t k =
     thn (assert_key k)
       (bnd (on_search t (update_list lc)) (\<lambda>complete.
          if complete then thn (store_loop P t k) (erase_search t)
          else query_nodes (\<lambda>key. send_FIND_NODE P key k t) t ALPHA))"

definition replyIterative :: "platform \<Rightarrow> contact_proto list \<Rightarrow> token \<Rightarrow> key_text \<Rightarrow> (node, unit) cpp" where
  "replyIterative P lc t k =
     bnd (on_search t (reads search_type)) (\<lambda>ty.
       case ty of
         NODE_SEARCH \<Rightarrow> replyIterativeNodeSearch P lc t k
       | VALUE_SEARCH \<Rightarrow> replyIterativeValueSearch P lc t k
       | STORE_SEARCH \<Rightarrow> replyIterativeStoreSearch P lc t k)"

definition startNodeLookup :: "platform \<Rightarrow> token \<Rightarrow> key_text \<Rightarrow> (node, unit) cpp" where
  "startNodeLookup P t k =
     bnd (on_contacts (bucket_build_proximity k)) (\<lambda>mp.
     bnd (\<lambda>s. (proximity_contacts (contacts s) (map snd mp), s)) (\<lambda>temp_list.
       replyIterative P temp_list t k))"

section \<open>The three lookups\<close>

definition iterativeStore_nolock :: "platform \<Rightarrow> key_text \<Rightarrow> data_item_proto \<Rightarrow> (node, unit) cpp" where
  "iterativeStore_nolock P k d =
     bnd (random_token P) (\<lambda>t.
     bnd (reads node_id) (\<lambda>me.
     bnd (update_time P) (\<lambda>now.
     thn (put_search t ((new_search now me k STORE_SEARCH)\<lparr>buffer := d\<rparr>))
       (startNodeLookup P t k))))"

definition iterativeStore :: "platform \<Rightarrow> key_text \<Rightarrow> data_item_proto \<Rightarrow> (node, unit) cpp" where
  "iterativeStore P k d = scoped (iterativeStore_nolock P k d)"

definition iterativeFindNode_nolock :: "platform \<Rightarrow> key_text \<Rightarrow> (node, unit) cpp" where
  "iterativeFindNode_nolock P k =
     bnd (random_token P) (\<lambda>t.
     bnd (reads node_id) (\<lambda>me.
     bnd (update_time P) (\<lambda>now.
     thn (put_search t ((new_search now me k NODE_SEARCH)\<lparr>node_callback_valid := False\<rparr>))
       (startNodeLookup P t k))))"

definition iterativeFindNode :: "platform \<Rightarrow> key_text \<Rightarrow> (node, unit) cpp" where
  "iterativeFindNode P k = locked_try (iterativeFindNode_nolock P k)"

definition iterativeFindValue :: "platform \<Rightarrow> key_text \<Rightarrow> nat option \<Rightarrow> string \<Rightarrow> (node, unit) cpp" where
  "iterativeFindValue P k c h = locked_try
     (bnd (random_token P) (\<lambda>t.
      bnd (reads node_id) (\<lambda>me.
      bnd (update_time P) (\<lambda>now.
      thn (put_search t ((new_search now me k VALUE_SEARCH)\<lparr>value_callback := c, hint := h\<rparr>))
        (startNodeLookup P t k)))))"

end
