(* ===== verification/Identity.thy ===== *)
theory Identity
  imports Messages
begin

text \<open>
  Where a node gets its key from: \<open>local_key\<close> and \<open>key_from_port\<close> of
  \<open>Sources/miniDHT_const.h\<close>.  The file system is a map from paths to contents that the code reads
  and writes; the host name, the clock's text, the effect of writing a file and the hash functions
  of OpenSSL are parameters.
\<close>

type_synonym files = "string \<Rightarrow> string option"

record 'c identity_env =
  host_name :: string
  iso_time :: "nat \<Rightarrow> string"
  write_file :: "string \<Rightarrow> string \<Rightarrow> files \<Rightarrow> files"
  hash_init :: 'c
  hash_update :: "'c \<Rightarrow> byte list \<Rightarrow> 'c"
  hash_final :: "'c \<Rightarrow> digest"

definition env_key :: "'c identity_env \<Rightarrow> string \<Rightarrow> key" where
  "env_key E s = digest_key_from_string (hash_init E) (hash_update E) (hash_final E) s"

definition key_from_port :: "'c identity_env \<Rightarrow> 16 word \<Rightarrow> key" where
  "key_from_port E p = env_key E (host_name E @ '':'' @ show_nat (unat p))"

definition key_file_name :: "16 word \<Rightarrow> string \<Rightarrow> string" where
  "key_file_name p path = path @ ''localhost.uid.'' @ show_nat (unat p) @ ''.txt''"

text \<open>\<open>ifs >> word\<close>: the first word of a text.\<close>

definition first_word :: "string \<Rightarrow> string" where
  "first_word s = takeWhile (\<lambda>c. \<not> is_space c) (dropWhile is_space s)"

text \<open>
  Where the file cannot be opened the code writes a new identity and calls itself again; \<open>n\<close> counts
  the readings of the clock.  None is a recursion that never ends.
\<close>

partial_function (option) local_key ::
  "'c identity_env \<Rightarrow> 16 word \<Rightarrow> string \<Rightarrow> nat \<Rightarrow> files \<Rightarrow> (key \<times> nat \<times> files) option" where
  "local_key E p path n fs =
     (case fs (key_file_name p path) of
        Some content \<Rightarrow> Some (env_key E (first_word content), n, fs)
      | None \<Rightarrow>
          local_key E p path (Suc n) (write_file E (key_file_name p path)
            (host_name E @ '':'' @ show_nat (unat p) @ '':'' @ iso_time E n) fs))"

lemma local_key_present:
  "fs (key_file_name p path) = Some content \<Longrightarrow>
     local_key E p path n fs = Some (env_key E (first_word content), n, fs)"
  by (subst local_key.simps) simp

lemma local_key_diverges:
  assumes "\<And>c fs. fs (key_file_name p path) = None \<Longrightarrow>
      write_file E (key_file_name p path) c fs (key_file_name p path) = None"
    and "fs (key_file_name p path) = None"
  shows "local_key E p path n fs = None"
proof -
  define Q :: "'a identity_env \<Rightarrow> 16 word \<Rightarrow> string \<Rightarrow> files \<Rightarrow> bool" where "Q = (\<lambda>E p path fs.
     (\<forall>c fs. fs (key_file_name p path) = None \<longrightarrow>
        write_file E (key_file_name p path) c fs (key_file_name p path) = None) \<longrightarrow>
     fs (key_file_name p path) \<noteq> None)"
  have "Q E p path fs" if "local_key E p path n fs = Some r" for r
  proof (rule local_key.raw_induct [where P = "\<lambda>E p path n fs y. Q E p path fs", OF _ that])
    fix f :: "'a identity_env \<Rightarrow> 16 word \<Rightarrow> string \<Rightarrow> nat \<Rightarrow> files \<Rightarrow> (key \<times> nat \<times> files) option"
      and E p path n fs y
    assume IH: "\<And>E p path n fs y. f E p path n fs = Some y \<Longrightarrow> Q E p path fs"
      and run: "(case fs (key_file_name p path) of
        None \<Rightarrow> f E p path (Suc n) (write_file E (key_file_name p path)
            (host_name E @ '':'' @ show_nat (unat p) @ '':'' @ iso_time E n) fs)
      | Some content \<Rightarrow> Some (env_key E (first_word content), n, fs)) = Some y"
    show "Q E p path fs"
    proof (cases "fs (key_file_name p path)")
      case None
      with run IH have "Q E p path (write_file E (key_file_name p path)
            (host_name E @ '':'' @ show_nat (unat p) @ '':'' @ iso_time E n) fs)" by simp
      with None show ?thesis by (auto simp: Q_def)
    qed (simp add: Q_def)
  qed
  moreover have "\<not> Q E p path fs" using assms by (simp add: Q_def)
  ultimately have "local_key E p path n fs \<noteq> Some r" for r by blast
  then show ?thesis by blast
qed

section \<open>Properties\<close>

text \<open>
  C40 (a node keeps its identity): where the directory can be written, \<open>local_key\<close> returns, and
  every later call, whatever the clock or the host name, returns the same key and leaves the files
  as they are; an identity that is there is never overwritten.
\<close>

theorem local_key_is_stable:
  assumes "\<And>f c fs. write_file E f c fs f = Some c"
  shows "\<exists>k n' fs'. local_key E p path n fs = Some (k, n', fs') \<and>
    (\<forall>h t m. local_key (E\<lparr>host_name := h, iso_time := t\<rparr>) p path m fs' = Some (k, m, fs')) \<and>
    (\<forall>c. fs (key_file_name p path) = Some c \<longrightarrow> fs' = fs \<and> k = env_key E (first_word c))"
proof (cases "fs (key_file_name p path)")
  case (Some c)
  then show ?thesis by (simp add: local_key_present env_key_def)
next
  case None
  let ?text = "host_name E @ '':'' @ show_nat (unat p) @ '':'' @ iso_time E n"
  let ?fs = "write_file E (key_file_name p path) ?text fs"
  have "?fs (key_file_name p path) = Some ?text" by (rule assms)
  moreover have "local_key E p path n fs = local_key E p path (Suc n) ?fs"
    using None by (subst local_key.simps) simp
  ultimately show ?thesis using None by (simp add: local_key_present env_key_def)
qed

definition demo_identity :: "byte list identity_env" where
  "demo_identity = \<lparr>host_name = ''host'', iso_time = \<lambda>n. ''t'', write_file = \<lambda>f c fs. fs(f \<mapsto> c),
     hash_init = [], hash_update = (@), hash_final = \<lambda>c. c\<rparr>"

theorem local_key_is_stable_witness:
  "\<exists>k n' fs'. local_key demo_identity 4242 [] 0 Map.empty = Some (k, n', fs') \<and>
     local_key demo_identity 4242 [] 9 fs' = Some (k, 9, fs')"
proof -
  have same: "demo_identity\<lparr>host_name := ''host'', iso_time := \<lambda>n. ''t''\<rparr> = demo_identity"
    by (simp add: demo_identity_def)
  have "write_file demo_identity f c fs f = Some c" for f c fs by (simp add: demo_identity_def)
  from local_key_is_stable [OF this, of 4242 "[]" 0 Map.empty]
  show ?thesis using same by metis
qed

text \<open>
  A read-only directory: where the identity is missing and writing it leaves it missing,
  \<open>local_key\<close> calls itself for ever.
\<close>

lemma local_key_recurses_for_ever:
  assumes "fs (key_file_name p path) = None"
    and "\<And>c fs. fs (key_file_name p path) = None \<Longrightarrow>
      write_file E (key_file_name p path) c fs (key_file_name p path) = None"
  shows "local_key E p path n fs = None"
  using assms(2,1) by (rule local_key_diverges)

lemma local_key_recurses_for_ever_witness:
  "local_key (demo_identity\<lparr>write_file := \<lambda>f c fs. fs\<rparr>) 4242 [] 0 Map.empty = None"
  by (rule local_key_recurses_for_ever) simp_all

end
