(* ===== verification/Handlers.thy ===== *)
theory Handlers
  imports Lookup Identity
begin

text \<open>
  The messages a node handles, the records it stores for the network, and its public functions and
  periodic task (\<open>Sources/miniDHT.cpp\<close>).
\<close>

section \<open>Storing a record\<close>

text \<open>
  The loop over the records \<open>find_no_blob\<close> returned: the first one with the title of the new one
  decides; its time is updated where the new one is nearer to now.
\<close>

fun update_known :: "platform \<Rightarrow> key_text \<Rightarrow> data_item_proto \<Rightarrow> data_item_proto list \<Rightarrow> (node, unit) cpp" where
  "update_known P k d [] =
     on_storage (data_insert (storage_engine P) (storage_other P) k (title d) (sint (time d)) (sint (ttl d)) (data d))"
| "update_known P k d (x # xs) =
     (if title x = title d then
        bnd (update_time P) (\<lambda>now.
          let temp_time = time_diff now (from_time_t (sint (time x)));
              d_time = time_diff now (from_time_t (sint (time d)))
          in if d_time < temp_time
             then on_storage (data_update (storage_engine P) (storage_other P) k (title d)
                    (sint (time d)) (sint (ttl d)))
             else ret ())
      else update_known P k d xs)"

definition insert_db :: "platform \<Rightarrow> key_text \<Rightarrow> data_item_proto \<Rightarrow> (node, unit) cpp" where
  "insert_db P k d =
     (let E = storage_engine P; other = storage_other P
      in bnd (on_storage (data_count E other k)) (\<lambda>n.
           if n = 0 then
             bnd (reads max_records) (\<lambda>mx.
             thn (on_storage (evict (data_size E other) (data_remove_oldest E other) mx))
               (on_storage (data_insert E other k (title d) (sint (time d)) (sint (ttl d)) (data d))))
           else bnd (on_storage (data_find_no_blob E other k [])) (\<lambda>ld. update_known P k d ld)))"

section \<open>Messages\<close>

definition handle_SEND_PING :: "platform \<Rightarrow> message_proto \<Rightarrow> (node, unit) cpp" where
  "handle_SEND_PING P m = reply_PING P (from_id m) (token_of m)"

definition handle_REPLY_PING :: "platform \<Rightarrow> message_proto \<Rightarrow> (node, unit) cpp" where
  "handle_REPLY_PING P m =
     bnd (reads (\<lambda>s. map_of (ping_ttl s) (token_of m))) (\<lambda>sent.
       case sent of
         None \<Rightarrow> ret ()
       | Some at \<Rightarrow>
           bnd (update_time P) (\<lambda>now.
           thn (let td = at - now
                in if td < minutes 1 then
                     bnd (reads sender_endpoint) (\<lambda>sep.
                     bnd (lift_outcome (endpoint_to_proto sep)) (\<lambda>epp.
                       add_contact_now P (from_id m) epp))
                   else ret ())
             (writes (\<lambda>s. s\<lparr>ping_ttl := omap_erase (token_of m) (ping_ttl s)\<rparr>))))"

definition handle_SEND_STORE :: "platform \<Rightarrow> message_proto \<Rightarrow> (node, unit) cpp" where
  "handle_SEND_STORE P m =
     bnd (update_time P) (\<lambda>now.
       let di = (data_item m)\<lparr>time := word_of_int (to_time_t now)\<rparr>
       in thn (insert_db P (to_id m) di) (reply_STORE P (from_id m) (token_of m) di))"

text \<open>Reporting a value that does not match prints the local endpoint, which may throw.\<close>

definition handle_REPLY_STORE :: "platform \<Rightarrow> message_proto \<Rightarrow> (node, unit) cpp" where
  "handle_REPLY_STORE P m =
     bnd (reads (\<lambda>s. map_of (store_check_val s) (token_of m))) (\<lambda>expected.
       case expected of
         None \<Rightarrow> ret ()
       | Some v \<Rightarrow>
           thn (if unat (check_val m) \<noteq> v then
                  (case socket_endpoint P of
                     Inl msg \<Rightarrow> throw_exn (Std_exception msg)
                   | Inr _ \<Rightarrow> ret ())
                else ret ())
             (writes (\<lambda>s. s\<lparr>store_check_val := omap_erase (token_of m) (store_check_val s)\<rparr>)))"

definition handle_SEND_FIND_NODE :: "platform \<Rightarrow> message_proto \<Rightarrow> (node, unit) cpp" where
  "handle_SEND_FIND_NODE P m = reply_FIND_NODE P (from_id m) (token_of m)"

fun ping_all :: "platform \<Rightarrow> contact_proto list \<Rightarrow> (node, unit) cpp" where
  "ping_all P [] = ret ()"
| "ping_all P (c # cs) =
     thn (assert_cpp (address (contact_ep c) \<noteq> []))
    (thn (assert_cpp (port (contact_ep c) \<noteq> []))
    (thn (ping_key P (contact_key c)) (ping_all P cs)))"

definition handle_REPLY_FIND_NODE :: "platform \<Rightarrow> message_proto \<Rightarrow> (node, unit) cpp" where
  "handle_REPLY_FIND_NODE P m =
     bnd (reads (\<lambda>s. map_of (searches s) (token_of m))) (\<lambda>found.
       case found of
         None \<Rightarrow> ret ()
       | Some _ \<Rightarrow>
           thn (ping_all P (contact_list m)) (replyIterative P (contact_list m) (token_of m) (to_id m)))"

definition handle_SEND_FIND_VALUE :: "platform \<Rightarrow> message_proto \<Rightarrow> (node, unit) cpp" where
  "handle_SEND_FIND_VALUE P m =
     bnd (on_storage (data_count (storage_engine P) (storage_other P) (to_id m))) (\<lambda>n.
       if n \<noteq> 0 then reply_FIND_VALUE P (from_id m) (token_of m) (hint_of m)
       else reply_FIND_NODE P (from_id m) (token_of m))"

definition call_value_callback :: "platform \<Rightarrow> nat option \<Rightarrow> data_item_proto list \<Rightarrow> (node, unit) cpp" where
  "call_value_callback P cb ld = (case cb of
       None \<Rightarrow> throw_exn (Std_exception ''call to empty boost::function'')
     | Some c \<Rightarrow>
         thn (writes (\<lambda>s. s\<lparr>callbacks := callbacks s @ [Values c ld]\<rparr>))
           (case run_value_callback P c ld of None \<Rightarrow> ret () | Some e \<Rightarrow> throw_exn e))"

definition handle_REPLY_FIND_VALUE :: "platform \<Rightarrow> message_proto \<Rightarrow> (node, unit) cpp" where
  "handle_REPLY_FIND_VALUE P m =
     bnd (reads (\<lambda>s. map_of (searches s) (token_of m))) (\<lambda>found.
       case found of
         None \<Rightarrow> ret ()
       | Some x \<Rightarrow>
           thn (call_value_callback P (value_callback x) (data_item_list m)) (erase_search (token_of m)))"

definition handle_message :: "platform \<Rightarrow> message_proto \<Rightarrow> (node, unit) cpp" where
  "handle_message P m = (case type_of m of
       SEND_PING \<Rightarrow> handle_SEND_PING P m
     | REPLY_PING \<Rightarrow> handle_REPLY_PING P m
     | SEND_STORE \<Rightarrow> handle_SEND_STORE P m
     | REPLY_STORE \<Rightarrow> handle_REPLY_STORE P m
     | SEND_FIND_NODE \<Rightarrow> handle_SEND_FIND_NODE P m
     | REPLY_FIND_NODE \<Rightarrow> handle_REPLY_FIND_NODE P m
     | SEND_FIND_VALUE \<Rightarrow> handle_SEND_FIND_VALUE P m
     | REPLY_FIND_VALUE \<Rightarrow> handle_REPLY_FIND_VALUE P m
     | NONE \<Rightarrow> throw_exn (Std_exception ''Unknown message type.''))"

definition is_request :: "message_type \<Rightarrow> bool" where
  "is_request ty \<longleftrightarrow> ty = SEND_PING \<or> ty = SEND_FIND_VALUE \<or> ty = SEND_STORE \<or> ty = SEND_FIND_NODE"

definition is_reply :: "message_type \<Rightarrow> bool" where
  "is_reply ty \<longleftrightarrow> ty = REPLY_PING \<or> ty = REPLY_STORE \<or> ty = REPLY_FIND_NODE \<or> ty = REPLY_FIND_VALUE"

definition handle_message_from :: "platform \<Rightarrow> message_proto \<Rightarrow> endpoint_proto \<Rightarrow> (node, unit) cpp" where
  "handle_message_from P m epp =
     (if is_request (type_of m) then thn (add_contact_now P (from_id m) epp) (handle_message P m)
      else if is_reply (type_of m) then handle_message P m
      else throw_exn (Std_exception ''Unknown message type.''))"

text \<open>The block of \<open>handle_receive\<close> between the braces of its \<open>try\<close>.\<close>

definition receive_body :: "platform \<Rightarrow> tcp_endpoint \<Rightarrow> string \<Rightarrow> (node, unit) cpp" where
  "receive_body P ep body =
     thn (writes (\<lambda>s. s\<lparr>sender_endpoint := ep\<rparr>))
       (bnd (lift_outcome (endpoint_to_proto ep)) (\<lambda>epp.
          handle_message_from P (parse P body) epp))"

text \<open>
  The handler of a received packet.  Its \<open>catch\<close> unlocks the mutex by hand, prints the local endpoint
  and throws again, or throws from the printing; either way the lock's destructor runs next.
\<close>

definition handle_receive :: "platform \<Rightarrow> tcp_endpoint \<Rightarrow> string \<Rightarrow> (node, unit) cpp" where
  "handle_receive P ep body =
     scoped (try_std (receive_body P ep body)
       (\<lambda>msg. thn unlock_giant
         (case socket_endpoint P of
            Inl err \<Rightarrow> throw_exn (Std_exception err)
          | Inr _ \<Rightarrow> throw_exn (Std_exception ''std::exception''))))"

text \<open>The handler of a lost connection takes no lock.\<close>

definition handle_disconnect :: "platform \<Rightarrow> tcp_endpoint \<Rightarrow> (node, unit) cpp" where
  "handle_disconnect P ep =
     bnd (lift_outcome (endpoint_to_proto ep)) (\<lambda>epp. on_contacts (remove_contact epp))"

section \<open>Public functions\<close>

fun describe_loop :: "nat \<Rightarrow> (nat \<times> contact_proto) list \<Rightarrow> contact_proto list \<Rightarrow> contact_proto list outcome" where
  "describe_loop last_bucket [] ls = Ok ls"
| "describe_loop last_bucket (e # es) ls =
     (if (if fst e \<noteq> 0 then fst e \<ge> last_bucket else True) then describe_loop (fst e) es (ls @ [snd e])
      else Abort Assertion_failed)"

definition nodes_description :: "(node, contact_proto list) cpp" where
  "nodes_description = locked_try (\<lambda>s. (describe_loop 0 (entries (contacts s)) [], s))"

definition storage_size :: "platform \<Rightarrow> (node, nat) cpp" where
  "storage_size P = locked_try (on_storage (data_size (storage_engine P) (storage_other P)))"

definition bucket_size :: "platform \<Rightarrow> (node, nat) cpp" where
  "bucket_size P = locked_try (on_backup (kv_size (backup_engine P) (backup_other P)))"

definition get_local_key :: "node \<Rightarrow> key_text" where
  "get_local_key s = node_id s"

definition get_local_endpoint :: "platform \<Rightarrow> (node, tcp_endpoint) cpp" where
  "get_local_endpoint P = locked_try (lift_outcome
     (case socket_endpoint P of Inl msg \<Rightarrow> Throw (Std_exception msg) | Inr ep \<Rightarrow> Ok ep))"

definition storage_wait_queue :: "node \<Rightarrow> nat" where
  "storage_wait_queue s = length (store_check_val s)"

definition set_max_record :: "nat \<Rightarrow> (node, unit) cpp" where
  "set_max_record v = locked_try (writes (\<lambda>s. s\<lparr>max_records := v\<rparr>))"

definition get_max_record :: "node \<Rightarrow> nat" where
  "get_max_record s = max_records s"

definition send_PING_to_endpoint :: "platform \<Rightarrow> endpoint_proto \<Rightarrow> token \<Rightarrow> (node, unit) cpp" where
  "send_PING_to_endpoint P epp t =
     thn (assert_cpp (address epp \<noteq> []))
    (thn (assert_cpp (port epp \<noteq> []))
      (locked_try (send_PING_endpoint P epp t)))"

definition send_PING_to_key :: "platform \<Rightarrow> key_text \<Rightarrow> token \<Rightarrow> (node, unit) cpp" where
  "send_PING_to_key P k t = thn (assert_key k) (locked_try (send_PING_key P k t))"

section \<open>Starting up\<close>

text \<open>The endpoint is read outside the \<open>try\<close>: a malformed one ends the constructor.\<close>

fun ping_stored :: "platform \<Rightarrow> string list \<Rightarrow> (node, unit) cpp" where
  "ping_stored P [] = ret ()"
| "ping_stored P (x # xs) =
     bnd (lift_outcome (string_to_endpoint_pair x)) (\<lambda>ep.
     thn (swallow (ping_endpoint P (Endpoint (fst ep) (snd ep)))) (ping_stored P xs))"

definition restore_from_backup :: "platform \<Rightarrow> string \<Rightarrow> 16 word \<Rightarrow> (node, unit) cpp" where
  "restore_from_backup P path p =
     thn (on_backup (kv_open (backup_engine P) (backup_other P) (stored_contacts P)
            (path @ ''localhost.buckets.'' @ show_nat (unat p) @ ''.db'')))
    (bnd (on_backup (kv_list_value (backup_engine P) (backup_other P) [])) (\<lambda>l. ping_stored P l))"

text \<open>
  The constructor, for the key \<open>local_key\<close> gave; the timer starts at most two minutes from now.
\<close>

definition start_node :: "platform \<Rightarrow> key \<Rightarrow> string \<Rightarrow> 16 word \<Rightarrow> nat \<Rightarrow> unit outcome \<times> node" where
  "start_node P k path p mx =
     (bnd (random_below P 120) (\<lambda>r.
      bnd (update_time P) (\<lambda>now.
      thn (writes (\<lambda>s. s\<lparr>timer := now + seconds (int r)\<rparr>))
        (scoped
          (thn (on_storage (data_open (storage_engine P) (storage_other P) (stored_records P)
                 (path @ ''localhost.store.'' @ show_nat (unat p) @ ''.db'')))
            (restore_from_backup P path p))))))
     (new_node (key_to_string k) p mx)"

section \<open>The periodic task\<close>

text \<open>
  First part: one turn of the loop over the contact table, at position \<open>i\<close>; it returns the position to
  go on from.  A contact not heard of for \<open>PERIODIC\<close> minutes is pinged and forgotten, and the loop goes
  back to the second entry; the others are written to the backup.
\<close>

definition refresh_turn :: "platform \<Rightarrow> nat \<Rightarrow> (node, nat) cpp" where
  "refresh_turn P i = (\<lambda>s.
     let e = entries (contacts s) ! i; key = contact_key (snd e)
     in if fst e = KEY_SIZE then (Ok (Suc i), s)
        else
          bnd (update_time P) (\<lambda>now.
            let td = time_diff now (from_time_t (sint (get_time (snd e))))
            in if td > minutes PERIODIC then
                 thn (ping_key P key)
                (thn (on_backup (kv_remove (backup_engine P) (backup_other P) key))
                  (\<lambda>s1. let m = erase_at i (entries (contacts s1));
                            s2 = s1\<lparr>contacts := (contacts s1)\<lparr>entries := m\<rparr>\<rparr>
                        in if m = [] then (Abort Undefined_behaviour, s2) else (Ok 1, s2)))
               else
                 thn (on_backup (backup_refresh (kv_find (backup_engine P) (backup_other P))
                        (kv_remove (backup_engine P) (backup_other P))
                        (kv_insert (backup_engine P) (backup_other P))
                        key (endpoint_to_string (contact_ep (snd e)))))
                   (ret (Suc i))) s)"

text \<open>What leaves the contact table alone.\<close>

abbreviation keeps_contacts :: "bucket \<Rightarrow> (node, 'a) cpp \<Rightarrow> bool" where
  "keeps_contacts b m \<equiv> preserves (\<lambda>s. contacts s = b) m"

lemma keeps_contacts_core: "(\<And>c. keeps_core c m) \<Longrightarrow> keeps_contacts b m"
  by (rule preservesI) (metis core_same same_core(2))

lemma keeps_contacts_backup: "keeps_contacts b (on_backup m)"
  unfolding on_backup_def by (rule preserves_on_part) simp

lemma keeps_contacts_update_time: "keeps_contacts b (update_time P)"
  by (rule keeps_contacts_core) (rule core_update_time)

lemma keeps_contacts_D: "keeps_contacts (contacts s) m \<Longrightarrow> m s = (r, s') \<Longrightarrow> contacts s' = contacts s"
  using preservesD [of "\<lambda>x. contacts x = contacts s" m s] by simp

lemma bnd_OkE:
  assumes "bnd m k s = (Ok a, s')"
  obtains b s1 where "m s = (Ok b, s1)" and "k b s1 = (Ok a, s')"
  using assms by (auto simp: bnd_run split: prod.splits outcome.splits)

lemma update_time_bnd:
  "bnd (update_time P) k s = k (clock_at P (clock_reads s)) (s\<lparr>clock_reads := Suc (clock_reads s)\<rparr>)"
  by (simp add: bnd_run update_time_def)

text \<open>What one turn does to the contact table.\<close>

definition silent_for :: "int \<Rightarrow> contact_proto \<Rightarrow> int" where
  "silent_for now c = time_diff now (from_time_t (sint (get_time c)))"

lemma refresh_turn_effect:
  assumes run: "refresh_turn P i s = (r, s')" and i: "i < length (entries (contacts s))"
  defines "e \<equiv> entries (contacts s) ! i"
  obtains (kept) "entries (contacts s') = entries (contacts s)"
      and "\<And>j. r = Ok j \<Longrightarrow> j = Suc i \<and>
        (fst e = KEY_SIZE \<or> silent_for (clock_at P (clock_reads s)) (snd e) \<le> minutes PERIODIC)"
  | (forgotten) "entries (contacts s') = erase_at i (entries (contacts s))" and "fst e \<noteq> KEY_SIZE"
      and "silent_for (clock_at P (clock_reads s)) (snd e) > minutes PERIODIC"
      and "\<And>j. r = Ok j \<Longrightarrow> j = 1 \<and> entries (contacts s') \<noteq> []"
proof (cases "fst e = KEY_SIZE")
  case True
  with run have "s' = s" "r = Ok (Suc i)" by (simp_all add: refresh_turn_def Let_def e_def)
  with True kept show ?thesis by simp
next
  case False
  define key where "key = contact_key (snd e)"
  define s1 where "s1 = s\<lparr>clock_reads := Suc (clock_reads s)\<rparr>"
  define stale where "stale \<longleftrightarrow> silent_for (clock_at P (clock_reads s)) (snd e) > minutes PERIODIC"
  define forget where "forget = (\<lambda>s1 :: node. let m = erase_at i (entries (contacts s1));
      s2 = s1\<lparr>contacts := (contacts s1)\<lparr>entries := m\<rparr>\<rparr>
    in if m = [] then (Abort Undefined_behaviour, s2) else (Ok (1 :: nat), s2))"
  define saving where "saving = on_backup (backup_refresh (kv_find (backup_engine P) (backup_other P))
    (kv_remove (backup_engine P) (backup_other P)) (kv_insert (backup_engine P) (backup_other P))
    key (endpoint_to_string (contact_ep (snd e))))"
  define removing where "removing = on_backup (kv_remove (backup_engine P) (backup_other P) key)"
  have step: "refresh_turn P i s =
      (if stale then thn (ping_key P key) (thn removing forget) s1 else thn saving (ret (Suc i)) s1)"
    using False
    by (simp add: refresh_turn_def Let_def update_time_bnd e_def [symmetric] key_def forget_def saving_def
        removing_def stale_def silent_for_def s1_def)
  have c1: "contacts s1 = contacts s" by (simp add: s1_def)
  show ?thesis
  proof (cases stale)
    case fresh: False
    obtain r1 s2 where s2: "saving s1 = (r1, s2)" by fastforce
    then have "contacts s2 = contacts s1"
      unfolding saving_def by (rule keeps_contacts_D [OF keeps_contacts_backup])
    then have "entries (contacts s') = entries (contacts s)" and "\<And>j. r = Ok j \<Longrightarrow> j = Suc i"
      using run fresh s2 c1 by (auto simp: step bnd_run ret_run split: outcome.splits)
    with fresh kept show ?thesis by (simp add: stale_def not_less)
  next
    case True
    obtain r1 s2 where s2: "ping_key P key s1 = (r1, s2)" by fastforce
    have "keeps_contacts (contacts s1) (ping_key P key)"
      by (rule keeps_contacts_core) (rule core_sends(4))
    then have c2: "contacts s2 = contacts s" using s2 c1 by (metis keeps_contacts_D)
    obtain r2 s3 where s3: "removing s2 = (r2, s3)" by fastforce
    then have c3: "contacts s3 = contacts s"
      using c2 unfolding removing_def by (metis keeps_contacts_D [OF keeps_contacts_backup])
    show ?thesis
    proof (cases "(\<exists>u. r1 = Ok u) \<and> (\<exists>u. r2 = Ok u)")
      case ok: True
      then have "(r, s') = forget s3" using run True s2 s3 by (auto simp: step bnd_run)
      then have "entries (contacts s') = erase_at i (entries (contacts s))"
        and "\<And>j. r = Ok j \<Longrightarrow> j = 1 \<and> entries (contacts s') \<noteq> []"
        using c3 by (auto simp: forget_def Let_def split: if_splits)
      with True False forgotten show ?thesis by (simp add: stale_def)
    next
      case bad: False
      then have "contacts s' = contacts s" and "\<And>j. r \<noteq> Ok j"
        using run True s2 s3 c2 c3 by (auto simp: step bnd_run split: outcome.splits)
      with kept show ?thesis by simp
    qed
  qed
qed

lemma refresh_turn_moves:
  assumes "refresh_turn P i s = (Ok j, s')" and "i < length (entries (contacts s))"
  shows "length (entries (contacts s')) < length (entries (contacts s)) \<or>
    length (entries (contacts s')) = length (entries (contacts s)) \<and> j = Suc i"
  using assms by (cases rule: refresh_turn_effect [OF assms]) (auto simp: length_erase_at)

function refresh_loop :: "platform \<Rightarrow> nat \<Rightarrow> (node, unit) cpp" where
  "refresh_loop P i s =
     (if i < length (entries (contacts s)) then
        (case refresh_turn P i s of
           (Ok j, s') \<Rightarrow> refresh_loop P j s'
         | (Throw e, s') \<Rightarrow> (Throw e, s')
         | (Abort f, s') \<Rightarrow> (Abort f, s'))
      else (Ok (), s))"
  by pat_completeness auto
termination
proof (relation "measures [\<lambda>(P, i, s). length (entries (contacts s)),
    \<lambda>(P, i, s). length (entries (contacts s)) - i]", goal_cases)
  case 1
  show ?case by simp
next
  case (2 P i s r s' j)
  then have "refresh_turn P i s = (Ok j, s')" by simp
  from refresh_turn_moves [OF this 2(1)] 2(1) show ?case by auto
qed

declare refresh_loop.simps [simp del]

definition periodic_contacts :: "platform \<Rightarrow> (node, unit) cpp" where
  "periodic_contacts P = try_locked (refresh_loop P 0)"

text \<open>Second part: a lookup in every empty bucket but the last.\<close>

definition diversify_bucket :: "platform \<Rightarrow> nat \<Rightarrow> (node, unit) cpp" where
  "diversify_bucket P i = (\<lambda>s.
     if mm_count i (entries (contacts s)) \<noteq> 0 then (Ok (), s)
     else
       let skey = random_key_in_bucket (random_at P) (random_calls s) (contacts s) i
       in iterativeFindNode_nolock P skey (s\<lparr>random_calls := random_calls s + (KEY_SIZE - i)\<rparr>))"

definition periodic_diversify :: "platform \<Rightarrow> (node, unit) cpp" where
  "periodic_diversify P = try_locked (for_each (diversify_bucket P) [0..<KEY_SIZE - 1])"

text \<open>
  Third part: the stored records whose time is over are removed, the others stored again in the
  network.  The list is read under one lock, each record handled under another.
\<close>

definition clean_record :: "platform \<Rightarrow> int \<Rightarrow> data_item_header \<Rightarrow> (node, unit) cpp" where
  "clean_record P check_time h =
     (let elapsed = time_diff check_time (from_time_t (h_time h));
          E = storage_engine P; other = storage_other P
      in if elapsed > seconds (h_ttl h)
         then scoped (on_storage (data_remove E other (h_key h) (h_title h)))
         else scoped
           (bnd (on_storage (data_find_one E other (h_key h) (h_title h) default_item)) (\<lambda>item.
              iterativeStore_nolock P (h_key h)
                (item\<lparr>ttl := ttl item - word_of_int (elapsed sdiv 1000000)\<rparr>))))"

definition periodic_records :: "platform \<Rightarrow> (node, unit) cpp" where
  "periodic_records P =
     try_std
       (bnd (scoped (on_storage (data_list_headers (storage_engine P) (storage_other P) []))) (\<lambda>ldh.
        bnd (update_time P) (\<lambda>check_time.
          for_each (clean_record P check_time) ldh)))
       unlock_and_rethrow"

text \<open>Fourth part: the timer.\<close>

definition periodic_rearm :: "platform \<Rightarrow> (node, unit) cpp" where
  "periodic_rearm P = try_locked
     (bnd (random_below P 60) (\<lambda>r.
      bnd (update_time P) (\<lambda>now.
        writes (\<lambda>s. s\<lparr>timer := now + (minutes PERIODIC + seconds (int r))\<rparr>))))"

text \<open>The parts in their order; other threads may take the lock between them.\<close>

definition periodic :: "platform \<Rightarrow> (node, unit) cpp" where
  "periodic P = thn (periodic_contacts P) (thn (periodic_diversify P)
     (thn (periodic_records P) (periodic_rearm P)))"

end
