(* ===== verification/Node_Invariant.thy ===== *)
theory Node_Invariant
  imports Handlers
begin

text \<open>
  The invariant of a node and the discipline of its lock: what every message handler, public function
  and periodic task of \<open>Sources/miniDHT.cpp\<close> keeps, whatever the network, the engine and the
  callbacks do, and what the handlers do to the lock.
\<close>

section \<open>The invariant\<close>

text \<open>
  The contact table is well-formed and is that of the node's own key; the searches are kept in order
  of their tokens, and each one has at most \<open>BUCKET_SIZE\<close> contacts, each farther from its destination
  than the one before.
\<close>

definition search_wf :: "search \<Rightarrow> bool" where
  "search_wf x \<longleftrightarrow> length (short_list x) \<le> BUCKET_SIZE \<and>
     sorted_wrt (<) (map (distance_to (string_to_key (destination x))) (short_list x))"

definition node_ok :: "node \<Rightarrow> bool" where
  "node_ok s \<longleftrightarrow> bucket_ok (contacts s) \<and> bucket.local_key (contacts s) = node_id s \<and>
     omap_ok (searches s) \<and> (\<forall>e \<in> set (searches s). search_wf (snd e))"

lemma search_wf_distinct: "search_wf x \<Longrightarrow> short_distinct x"
proof -
  assume "search_wf x"
  then have "sorted_wrt (<) (map (distance_to (string_to_key (destination x))) (short_list x))"
    by (simp add: search_wf_def)
  then have "distinct (map (distance_to (string_to_key (destination x))) (short_list x))"
    by (simp add: strict_sorted_iff)
  then show ?thesis by (auto simp: short_distinct_def distinct_map distance_to_def inj_on_def)
qed

lemma search_wf_new [simp]: "search_wf (new_search now me k ty)"
  by (simp add: search_wf_def new_search_def)

lemma search_wf_frame [simp]:
  "search_wf (x\<lparr>buffer := d\<rparr>) = search_wf x" "search_wf (x\<lparr>node_callback_valid := v\<rparr>) = search_wf x"
  "search_wf (x\<lparr>value_callback := c, hint := h\<rparr>) = search_wf x"
  "search_wf (x\<lparr>map_node_busy := b\<rparr>) = search_wf x" "search_wf (x\<lparr>map_value_busy := b\<rparr>) = search_wf x"
  by (simp_all add: search_wf_def)

lemma search_wf_update_list: "search_wf x \<Longrightarrow> search_wf (snd (update_list lc x))"
proof -
  assume wf: "search_wf x"
  have "search_wf (x\<lparr>short_list := new_short_list x lc\<rparr>)"
    using new_short_list_facts(2,3) [of x lc] by (simp add: search_wf_def)
  with wf show ?thesis by (auto simp: update_list_def Let_def split: outcome.split)
qed

lemma search_wf_pick:
  "search_wf x \<Longrightarrow> search_wf (snd (get_node_key x))" "search_wf x \<Longrightarrow> search_wf (snd (get_value_key x))"
  by (auto simp: get_node_key_def get_value_key_def split: outcome.split option.split)

section \<open>Frames\<close>

text \<open>
  The laws an invariant must have for every computation that runs under the lock to keep it: sending a
  message that names this node as its sender keeps it, as do the notes and counts that sending writes, and
  the parts of the state a search writes may change.  The second contract adds the store, which the
  handlers write, the third the insertion of a contact.
\<close>

named_theorems ok_rules "computations that keep an invariant of the node"

locale search_frame =
  fixes P :: platform and inv :: "node \<Rightarrow> bool"
  assumes inv_message: "inv s \<Longrightarrow> from_id m = node_id s \<Longrightarrow> inv (snd (send_message P m s))"
    and inv_direct: "inv s \<Longrightarrow> from_id m = node_id s \<Longrightarrow> inv (snd (send_to P m e s))"
    and inv_notes: "inv s \<Longrightarrow> inv (s\<lparr>ping_ttl := pt\<rparr>)" "inv s \<Longrightarrow> inv (s\<lparr>store_check_val := sv\<rparr>)"
    and inv_counts: "inv s \<Longrightarrow> inv (s\<lparr>clock_reads := n\<rparr>)" "inv s \<Longrightarrow> inv (s\<lparr>random_calls := n\<rparr>)"
    and inv_callbacks: "inv s \<Longrightarrow> inv (s\<lparr>callbacks := cs\<rparr>)"
    and inv_proximity: "inv s \<Longrightarrow> inv (s\<lparr>contacts := snd (bucket_build_proximity k (contacts s))\<rparr>)"
    and inv_put_search: "inv s \<Longrightarrow> search_wf x \<Longrightarrow> inv (s\<lparr>searches := omap_put t x (searches s)\<rparr>)"
    and inv_update_search: "inv s \<Longrightarrow> map_of (searches s) t = Some x \<Longrightarrow> (search_wf x \<Longrightarrow> search_wf x') \<Longrightarrow>
      inv (s\<lparr>searches := omap_put t x' (searches s)\<rparr>)"
    and inv_erase_search: "inv s \<Longrightarrow> inv (s\<lparr>searches := omap_erase t (searches s)\<rparr>)"
begin

lemma ok_update_time [ok_rules]: "preserves inv (update_time P)" "preserves inv (random_token P)"
  by (auto intro!: preservesI inv_counts simp: update_time_def random_token_def)

lemma ok_writes_counters [ok_rules]:
  "preserves inv (writes (\<lambda>s. s\<lparr>ping_ttl := f1 s\<rparr>))" "preserves inv (writes (\<lambda>s. s\<lparr>store_check_val := f2 s\<rparr>))"
  "preserves inv (set_ping_ttl t n)" "preserves inv (assert_key k)"
  unfolding set_ping_ttl_def assert_key_def by (auto intro: preserves_writes inv_notes preserves_assert)

lemma ok_swallow [ok_rules]: "preserves inv m \<Longrightarrow> preserves inv (swallow m)"
  unfolding swallow_def by (intro preserves_rules)

text \<open>A message in the name of the node, and what is noted before it is sent.\<close>

lemma ok_own [ok_rules]:
  "(\<And>me. from_id (m me) = me) \<Longrightarrow> preserves inv (bnd (reads node_id) (\<lambda>me. send_message P (m me)))"
  "(\<And>me. from_id (m me) = me) \<Longrightarrow> preserves inv (bnd (reads node_id) (\<lambda>me. send_to P (m me) e))"
  "(\<And>me. from_id (m me) = me) \<Longrightarrow>
    preserves inv (bnd (reads node_id) (\<lambda>me. thn (writes (\<lambda>s. s\<lparr>store_check_val := f s\<rparr>)) (send_message P (m me))))"
  by (auto intro!: preservesI inv_message inv_direct inv_notes simp: cpp_simps)

lemma ok_chunks: "inv s \<Longrightarrow> from_id m = node_id s \<Longrightarrow> inv (snd (contact_chunks P m cs s))"
proof (induction cs arbitrary: m s)
  case (Cons c cs)
  define m1 where "m1 = m\<lparr>contact_list := contact_list m @ [c]\<rparr>"
  have m1: "from_id m1 = node_id s" using Cons.prems(2) by (simp add: m1_def)
  obtain r s1 where run: "send_message P m1 s = (r, s1)" by fastforce
  have "inv s1" using inv_message [OF Cons.prems(1) m1] run by simp
  moreover have "node_id s1 = node_id s"
    using same_core(1) [OF core_same [OF core_send_message [of _ P m1]], of s] run by simp
  ultimately have "inv (snd (thn (send_message P m1) (contact_chunks P (m1\<lparr>contact_list := []\<rparr>) cs) s))"
    using Cons.IH [of s1 "m1\<lparr>contact_list := []\<rparr>"] m1 by (simp add: bnd_run run split: outcome.split)
  then show ?case
    using Cons.IH [OF Cons.prems(1) m1] unfolding contact_chunks.simps Let_def m1_def [symmetric] by simp
qed (simp add: ret_run)

lemma ok_own_chunks [ok_rules]:
  "(\<And>me. from_id (m me) = me) \<Longrightarrow>
    preserves inv (bnd (reads node_id) (\<lambda>me. bnd (reads f) (\<lambda>cs. contact_chunks P (m me) cs)))"
  by (auto intro!: preservesI ok_chunks simp: cpp_simps)

lemma ok_sending [ok_rules]:
  "preserves inv (send_PING_endpoint P e t)" "preserves inv (send_PING_key P k t)"
  "preserves inv (send_STORE P k q d t)" "preserves inv (send_FIND_NODE P k q t)" "preserves inv (send_FIND_VALUE P k q t h)"
  "preserves inv (reply_PING P k t)" "preserves inv (reply_STORE P k t d)" "preserves inv (reply_FIND_NODE P k t)"
  unfolding send_PING_endpoint_def send_PING_key_def send_STORE_def send_FIND_NODE_def send_FIND_VALUE_def
    reply_PING_def reply_STORE_def reply_FIND_NODE_def
  by (intro ok_rules preserves_rules; simp add: new_message_def)+

lemma ok_pings [ok_rules]: "preserves inv (ping_endpoint P e)" "preserves inv (ping_key P k)"
  unfolding ping_endpoint_def ping_key_def by (intro ok_rules preserves_rules)+

lemma ok_writes_callbacks [ok_rules]: "preserves inv (writes (\<lambda>s. s\<lparr>callbacks := f s\<rparr>))"
  by (rule preserves_writes) (rule inv_callbacks)

lemma ok_on_search:
  assumes "\<And>x. search_wf x \<Longrightarrow> search_wf (snd (m x))"
  shows "preserves inv (on_search t m)"
proof (rule preservesI)
  fix s assume s: "inv s"
  show "inv (snd (on_search t m s))"
  proof (cases "map_of (searches s) t")
    case None
    with s show ?thesis by (simp add: on_search_None)
  next
    case (Some x)
    show ?thesis
      unfolding on_search_found [OF Some] snd_conv
      by (rule inv_update_search [OF s Some]) (rule assms)
  qed
qed

lemma ok_searches [ok_rules]:
  "preserves inv (on_search t (reads f))" "preserves inv (on_search t (\<lambda>x. (g x, x)))"
  "preserves inv (on_search t get_node_key)" "preserves inv (on_search t get_value_key)"
  "preserves inv (on_search t (update_list lc))"
  by (rule ok_on_search, simp add: search_wf_pick search_wf_update_list reads_run)+

lemma ok_erase_search [ok_rules]: "preserves inv (erase_search t)"
  unfolding erase_search_def by (rule preserves_writes) (rule inv_erase_search)

lemma ok_put_search [ok_rules]: "search_wf x \<Longrightarrow> preserves inv (put_search t x)"
  unfolding put_search_def by (rule preserves_writes) (rule inv_put_search)

lemma ok_query_nodes [ok_rules]: "(\<And>k. preserves inv (send k)) \<Longrightarrow> preserves inv (query_nodes send t n)"
  by (induction n) (auto intro!: ok_rules preserves_rules)

lemma ok_call_node_callback [ok_rules]: "preserves inv (call_node_callback P t)"
  unfolding call_node_callback_def
  by (auto split: option.split intro!: ok_rules preserves_rules)

lemma ok_store_turn: "preserves inv (store_turn P t k)"
  unfolding store_turn_def by (intro ok_rules preserves_rules)

lemma ok_store_loop [ok_rules]: "preserves inv (store_loop P t k)"
  by (rule preserves_store_loop) (rule ok_store_turn)

lemma ok_replyIterative [ok_rules]: "preserves inv (replyIterative P lc t k)"
  unfolding replyIterative_def replyIterativeNodeSearch_def replyIterativeValueSearch_def
    replyIterativeStoreSearch_def
  by (auto split: search_type_t.split intro!: ok_rules preserves_rules)

lemma ok_build_proximity [ok_rules]: "preserves inv (on_contacts (bucket_build_proximity k))"
  unfolding on_contacts_def by (rule preserves_on_part) (rule inv_proximity)

lemma ok_startNodeLookup [ok_rules]: "preserves inv (startNodeLookup P t k)"
  unfolding startNodeLookup_def
  by (intro ok_rules preserves_rules) (auto intro: preservesI)

lemma ok_lookups [ok_rules]:
  "preserves inv (iterativeStore_nolock P k d)" "preserves inv (iterativeFindNode_nolock P k)"
  unfolding iterativeStore_nolock_def iterativeFindNode_nolock_def
  by (intro ok_rules preserves_rules; simp)+

lemma ok_find_value [ok_rules]:
  "preserves inv (bnd (random_token P) (\<lambda>t.
      bnd (reads node_id) (\<lambda>me.
      bnd (update_time P) (\<lambda>now.
      thn (put_search t ((new_search now me k VALUE_SEARCH)\<lparr>value_callback := c, hint := h\<rparr>))
        (startNodeLookup P t k)))))"
  by (intro ok_rules preserves_rules; simp)

end

locale node_frame = search_frame P inv for P :: platform and inv :: "node \<Rightarrow> bool" +
  assumes inv_storage: "inv s \<Longrightarrow> inv (s\<lparr>storage := d\<rparr>)"
begin

lemma ok_storage [ok_rules]: "preserves inv (on_storage m)"
  unfolding on_storage_def by (rule preserves_on_part) (rule inv_storage)

lemma ok_update_known [ok_rules]: "preserves inv (update_known P k d ds)"
  by (induction ds) (auto simp: Let_def intro!: ok_rules preserves_rules)

lemma ok_insert_db [ok_rules]: "preserves inv (insert_db P k d)"
  unfolding insert_db_def Let_def by (intro ok_rules preserves_rules)

lemma ok_ping_all [ok_rules]: "preserves inv (ping_all P cs)"
  by (induction cs) (auto intro!: ok_rules preserves_rules)

lemma ok_own_values [ok_rules]:
  assumes "\<And>me ld. from_id (m me ld) = me"
  shows "preserves inv (bnd (reads node_id) (\<lambda>me. bnd (on_storage q) (\<lambda>ld. when_cpp (b me ld) (send_message P (m me ld)))))"
proof (rule preservesI)
  fix s assume s: "inv s"
  obtain r d where run: "q (storage s) = (r, d)" by fastforce
  have "inv (s\<lparr>storage := d\<rparr>)" using s by (rule inv_storage)
  moreover have "from_id (m (node_id s) ld) = node_id (s\<lparr>storage := d\<rparr>)" for ld using assms by simp
  ultimately have "inv (snd (send_message P (m (node_id s) ld) (s\<lparr>storage := d\<rparr>)))" "inv (s\<lparr>storage := d\<rparr>)" for ld
    using inv_message by blast+
  then show "inv (snd (bnd (reads node_id) (\<lambda>me. bnd (on_storage q) (\<lambda>ld. when_cpp (b me ld) (send_message P (m me ld)))) s))"
    using run by (auto simp: bnd_run reads_run on_storage_def on_part_run when_run split: outcome.split)
qed

lemma ok_reply_FIND_VALUE [ok_rules]: "preserves inv (reply_FIND_VALUE P k t h)"
  unfolding reply_FIND_VALUE_def Let_def by (intro ok_rules preserves_rules) (simp add: new_message_def)

lemma ok_call_value_callback [ok_rules]: "preserves inv (call_value_callback P cb ld)"
  unfolding call_value_callback_def by (auto split: option.split intro!: ok_rules preserves_rules)

lemma ok_handlers [ok_rules]:
  "preserves inv (handle_SEND_PING P m)" "preserves inv (handle_SEND_STORE P m)"
  "preserves inv (handle_REPLY_STORE P m)" "preserves inv (handle_SEND_FIND_NODE P m)"
  "preserves inv (handle_REPLY_FIND_NODE P m)" "preserves inv (handle_SEND_FIND_VALUE P m)"
  "preserves inv (handle_REPLY_FIND_VALUE P m)"
  unfolding handle_SEND_PING_def handle_SEND_STORE_def handle_REPLY_STORE_def handle_SEND_FIND_NODE_def
    handle_REPLY_FIND_NODE_def handle_SEND_FIND_VALUE_def handle_REPLY_FIND_VALUE_def Let_def
  by (auto split: option.split sum.split intro!: ok_rules preserves_rules)

end

locale node_table_frame = node_frame P inv for P :: platform and inv :: "node \<Rightarrow> bool" +
  assumes inv_add: "inv s \<Longrightarrow> inv (s\<lparr>contacts := snd (add_contact r now k e (contacts s))\<rparr>)"
    and inv_sender: "inv s \<Longrightarrow> inv (s\<lparr>sender_endpoint := u\<rparr>)"
begin

lemma ok_add_contact_now [ok_rules]: "preserves inv (add_contact_now P k e)"
proof -
  have "preserves inv (on_contacts (add_contact r now k e))" for r now
    unfolding on_contacts_def by (rule preserves_on_part) (rule inv_add)
  then have "preserves inv (bnd (update_time P) (\<lambda>now. on_contacts (add_contact (rhs_first P) now k e)))"
    by (intro ok_rules preserves_rules)
  then show ?thesis
    by (intro preservesI) (auto simp: add_contact_now_def dest: preservesD)
qed

lemma ok_writes_sender [ok_rules]: "preserves inv (writes (\<lambda>s. s\<lparr>sender_endpoint := f s\<rparr>))"
  by (rule preserves_writes) (rule inv_sender)

lemma ok_handle_REPLY_PING [ok_rules]: "preserves inv (handle_REPLY_PING P m)"
  unfolding handle_REPLY_PING_def Let_def
  by (auto split: option.split intro!: ok_rules preserves_rules)

lemma ok_handle_message [ok_rules]: "preserves inv (handle_message P m)"
  unfolding handle_message_def
  by (auto split: message_type.split intro: ok_rules preserves_throw)

lemma ok_receive_body [ok_rules]: "preserves inv (receive_body P ep body)"
proof -
  have "preserves inv (handle_message_from P m e)" for m e
    unfolding handle_message_from_def by (intro ok_rules preserves_rules)
  then show ?thesis unfolding receive_body_def by (intro ok_rules preserves_rules)
qed

end

section \<open>Steps\<close>

text \<open>
  The steps of a node: a packet it receives, and the others: a lost connection, a call of the user, a part
  of the periodic task, a session that registers or leaves.  Each but the last and that of a lost
  connection runs under the lock, so runs are interleavings of them; the periodic task gives the lock up
  between its parts and between records.
\<close>

inductive own_step :: "platform \<Rightarrow> node \<Rightarrow> node \<Rightarrow> bool" for P where
  disconnect: "own_step P s (snd (handle_disconnect P ep s))"
| store: "own_step P s (snd (iterativeStore P k d s))"
| find_node: "own_step P s (snd (iterativeFindNode P k s))"
| find_value: "own_step P s (snd (iterativeFindValue P k c h s))"
| describe: "own_step P s (snd (nodes_description s))"
| storage_size: "own_step P s (snd (storage_size P s))"
| bucket_size: "own_step P s (snd (bucket_size P s))"
| local_endpoint: "own_step P s (snd (get_local_endpoint P s))"
| set_max: "own_step P s (snd (set_max_record v s))"
| ping_ep: "own_step P s (snd (send_PING_to_endpoint P e t s))"
| ping_k: "own_step P s (snd (send_PING_to_key P k t s))"
| refresh: "own_step P s (snd (periodic_contacts P s))"
| diversify: "own_step P s (snd (periodic_diversify P s))"
| clean: "own_step P s (snd (clean_record P now dh s))"
| rearm: "own_step P s (snd (periodic_rearm P s))"
| sessions: "own_step P s (s\<lparr>sessions := m\<rparr>)"

inductive node_step :: "platform \<Rightarrow> node \<Rightarrow> node \<Rightarrow> bool" for P where
  receive: "node_step P s (snd (handle_receive P ep body s))"
| own: "own_step P s s' \<Longrightarrow> node_step P s s'"

section \<open>Under the lock\<close>

lemma preserves_refresh_loop:
  assumes "\<And>i. preserves I (refresh_turn P i)"
  shows "preserves I (refresh_loop P i)"
proof (rule preservesI)
  fix s assume "I s"
  with assms show "I (snd (refresh_loop P i s))"
  proof (induction P i s rule: refresh_loop.induct)
    case (1 P i s)
    obtain r s' where turn: "refresh_turn P i s = (r, s')" by fastforce
    with preservesD [OF 1(2,3), of i] have ok: "I s'" by simp
    show ?case
    proof (cases "i < length (entries (contacts s))")
      case False
      then show ?thesis using 1(3) by (subst refresh_loop.simps) simp
    next
      case True
      show ?thesis
        using 1(1) [OF True turn [symmetric] _ 1(2)] ok turn True
        by (subst refresh_loop.simps) (auto split: outcome.split)
    qed
  qed
qed

text \<open>
  The contract for what a node does by itself: the statement does not speak of the lock and the fields only
  the public functions write, and it may lose contacts.
\<close>

locale public_frame = node_frame P inv for P :: platform and inv :: "node \<Rightarrow> bool" +
  assumes inv_fields: "inv (s\<lparr>giant_lock := b\<rparr>) = inv s" "inv (s\<lparr>backup := d\<rparr>) = inv s"
      "inv (s\<lparr>max_records := mx\<rparr>) = inv s" "inv (s\<lparr>timer := tm\<rparr>) = inv s" "inv (s\<lparr>sessions := ss\<rparr>) = inv s"
    and inv_forget: "inv s \<Longrightarrow> inv (s\<lparr>contacts := (contacts s)\<lparr>entries := erase_at i (entries (contacts s))\<rparr>\<rparr>)"
    and inv_remove: "inv s \<Longrightarrow> inv (s\<lparr>contacts := snd (remove_contact e (contacts s))\<rparr>)"
begin

lemma ok_backup [ok_rules]: "preserves inv (on_backup m)"
  unfolding on_backup_def by (rule preserves_on_part) (simp add: inv_fields)

lemma ok_random_below [ok_rules]: "preserves inv (random_below P n)"
  by (auto intro!: preservesI inv_counts simp: random_below_def)

lemma ok_writes [ok_rules]:
  "preserves inv (writes (\<lambda>s. s\<lparr>max_records := f5 s\<rparr>))" "preserves inv (writes (\<lambda>s. s\<lparr>timer := f6 s\<rparr>))"
  by (rule preserves_writes, simp add: inv_fields)+

lemma ok_lock [ok_rules]: "preserves inv lock_giant" "preserves inv unlock_giant"
  by (rule preservesI, simp add: lock_giant_def unlock_giant_def inv_fields)+

lemma ok_scoped [ok_rules]: "preserves inv m \<Longrightarrow> preserves inv (scoped m)"
  by (rule preserves_scoped) (simp_all add: inv_fields)

lemma ok_unlock_and_rethrow [ok_rules]: "preserves inv (unlock_and_rethrow msg)"
  unfolding unlock_and_rethrow_def by (intro ok_rules preserves_rules)

lemma ok_blocks [ok_rules]:
  "preserves inv m \<Longrightarrow> preserves inv (locked_try m)" "preserves inv m \<Longrightarrow> preserves inv (try_locked m)"
  unfolding locked_try_def try_locked_def by (intro ok_rules preserves_rules; assumption)+

lemma ok_locked_lookups [ok_rules]:
  "preserves inv (iterativeStore P k d)" "preserves inv (iterativeFindNode P k)" "preserves inv (iterativeFindValue P k c h)"
  unfolding iterativeStore_def iterativeFindNode_def iterativeFindValue_def
  by (intro ok_rules preserves_rules)+

lemma ok_receiving: "preserves inv (receive_body P ep body) \<Longrightarrow> preserves inv (handle_receive P ep body)"
  unfolding handle_receive_def
  by (intro ok_rules preserves_rules) (auto split: sum.split intro!: ok_rules preserves_rules)

lemma ok_handle_disconnect [ok_rules]: "preserves inv (handle_disconnect P ep)"
  unfolding handle_disconnect_def on_contacts_def
  by (intro preserves_rules preserves_on_part) (rule inv_remove)

text \<open>Public functions and the periodic task.\<close>

lemma ok_public [ok_rules]:
  "preserves inv nodes_description" "preserves inv (storage_size P)" "preserves inv (bucket_size P)"
  "preserves inv (get_local_endpoint P)" "preserves inv (set_max_record v)"
  "preserves inv (send_PING_to_endpoint P e t)" "preserves inv (send_PING_to_key P k t)"
  unfolding nodes_description_def storage_size_def bucket_size_def get_local_endpoint_def
    set_max_record_def send_PING_to_endpoint_def send_PING_to_key_def
  by (intro ok_rules preserves_rules; auto intro: preservesI)+

lemma ok_ping_stored [ok_rules]: "preserves inv (ping_stored P xs)"
  by (induction xs) (auto intro!: ok_rules preserves_rules)

lemma ok_forget: "preserves inv (\<lambda>s1. let m = erase_at i (entries (contacts s1));
    s2 = s1\<lparr>contacts := (contacts s1)\<lparr>entries := m\<rparr>\<rparr>
  in if m = [] then (Abort Undefined_behaviour, s2) else (Ok j, s2))"
proof (rule preservesI)
  fix s assume "inv s"
  then have "inv (s\<lparr>contacts := contacts s\<lparr>entries := erase_at i (entries (contacts s))\<rparr>\<rparr>)" by (rule inv_forget)
  then show "inv (snd (let m = erase_at i (entries (contacts s));
      s2 = s\<lparr>contacts := (contacts s)\<lparr>entries := m\<rparr>\<rparr>
    in if m = [] then (Abort Undefined_behaviour, s2) else (Ok j, s2)))"
    by (simp only: Let_def if_distrib [of snd] snd_conv if_cancel)
qed

lemma ok_refresh_turn: "preserves inv (refresh_turn P i)"
proof (rule preservesI)
  fix s assume s: "inv s"
  show "inv (snd (refresh_turn P i s))"
  proof (cases "fst (entries (contacts s) ! i) = KEY_SIZE")
    case True
    with s show ?thesis by (simp add: refresh_turn_def Let_def)
  next
    case False
    show ?thesis
      unfolding refresh_turn_def Let_def if_not_P [OF False]
      by (rule preservesD [of inv, OF _ s]) (intro ok_rules preserves_rules ok_forget [unfolded Let_def])
  qed
qed

lemma ok_refresh_loop [ok_rules]: "preserves inv (refresh_loop P i)"
  by (rule preserves_refresh_loop) (rule ok_refresh_turn)

lemma ok_diversify_bucket: "preserves inv (diversify_bucket P i)"
proof (rule preservesI)
  fix s assume s: "inv s"
  then have "inv (s\<lparr>random_calls := n\<rparr>)" for n by (rule inv_counts)
  then show "inv (snd (diversify_bucket P i s))"
    using s by (auto simp: diversify_bucket_def Let_def intro: preservesD [OF ok_lookups(2)])
qed

lemma ok_clean_record: "preserves inv (clean_record P now h)"
  unfolding clean_record_def Let_def by (intro ok_rules preserves_rules)

lemma ok_periodic_parts:
  "preserves inv (periodic_contacts P)" "preserves inv (periodic_diversify P)" "preserves inv (periodic_records P)"
  "preserves inv (periodic_rearm P)" "preserves inv (clean_record P now h)"
  unfolding periodic_contacts_def periodic_diversify_def periodic_records_def periodic_rearm_def
  by (intro ok_rules preserves_rules ok_diversify_bucket ok_clean_record)+

lemma ok_start_node: "inv (new_node (key_to_string k) p mx) \<Longrightarrow> inv (snd (start_node P k path p mx))"
  unfolding start_node_def restore_from_backup_def
  by (rule preservesD [of inv], intro ok_rules preserves_rules)

lemma ok_own_step: "own_step P s s' \<Longrightarrow> inv s \<Longrightarrow> inv s'"
  by (induction rule: own_step.induct)
    (auto simp: inv_fields intro: ok_handle_disconnect [THEN preservesD] ok_locked_lookups [THEN preservesD]
      ok_public [THEN preservesD] ok_periodic_parts [THEN preservesD])

end

section \<open>The frames of the node\<close>

text \<open>A statement that does not depend on what sending changes has the laws about sending.\<close>

locale core_frame =
  fixes inv :: "node \<Rightarrow> bool"
  assumes inv_core: "node_core s = node_core s' \<Longrightarrow> inv s = inv s'"
begin

lemma core_frame_sends:
  "inv s \<Longrightarrow> inv (snd (send_message P m s))" "inv s \<Longrightarrow> inv (snd (send_to P m e s))"
  using inv_core [OF core_same [OF core_send_message]] inv_core [OF core_same [OF core_send_to]] by blast+

lemma core_notes:
  "inv s \<Longrightarrow> inv (s\<lparr>ping_ttl := pt\<rparr>)" "inv s \<Longrightarrow> inv (s\<lparr>store_check_val := sv\<rparr>)"
  "inv s \<Longrightarrow> inv (s\<lparr>clock_reads := n\<rparr>)" "inv s \<Longrightarrow> inv (s\<lparr>random_calls := n\<rparr>)"
  using inv_core [of "s\<lparr>ping_ttl := pt\<rparr>" s] inv_core [of "s\<lparr>store_check_val := sv\<rparr>" s]
    inv_core [of "s\<lparr>clock_reads := n\<rparr>" s] inv_core [of "s\<lparr>random_calls := n\<rparr>" s] by simp_all

lemmas core_laws = core_frame_sends core_notes

end

lemma build_proximity_keeps:
  "entries (snd (bucket_build_proximity k b)) = entries b"
  "bucket.local_key (snd (bucket_build_proximity k b)) = bucket.local_key b"
  by (auto simp: bucket_build_proximity_def Let_def)

lemma add_contact_local_key: "bucket_ok b \<Longrightarrow> bucket.local_key (snd (add_contact r now k ep b)) = bucket.local_key b"
  by (rule add_contact_cases [of b k r now ep]) auto

lemma remove_contact_local_key: "bucket.local_key (snd (remove_contact e b)) = bucket.local_key b"
  by (auto simp: remove_contact_def Let_def split: prod.split)

text \<open>The invariant is a frame, and so are the state of the lock and the entries of the table.\<close>

interpretation ok: core_frame node_ok
proof unfold_locales
  fix s s' assume "node_core s = node_core s'"
  then show "node_ok s = node_ok s'" using same_core [of s s'] by (simp add: node_ok_def)
qed

interpretation ok: node_table_frame P node_ok for P
proof (unfold_locales; (erule ok.core_laws)?)
  fix s t x x'
  assume s: "node_ok s" "map_of (searches s) t = Some x" "search_wf x \<Longrightarrow> search_wf x'"
  then have "(t, x) \<in> set (searches s)" by (auto dest: map_of_SomeD)
  with s show "node_ok (s\<lparr>searches := omap_put t x' (searches s)\<rparr>)"
    by (auto simp: node_ok_def set_omap_put)
qed (auto simp: node_ok_def set_omap_put build_proximity_ok build_proximity_keeps
      add_contact_preserves add_contact_local_key)

interpretation held: core_frame "\<lambda>s. giant_lock s = b" for b
  by unfold_locales (auto dest: same_core)

interpretation held: node_table_frame P "\<lambda>s. giant_lock s = b" for P b
  by (unfold_locales; (erule held.core_laws)?) auto

interpretation entries_frame: core_frame "\<lambda>s. entries (contacts s) = es" for es
  by unfold_locales (auto dest: same_core)

interpretation entries_frame: node_frame P "\<lambda>s. entries (contacts s) = es" for P es
  by (unfold_locales; (erule entries_frame.core_laws)?) (auto simp: build_proximity_keeps)

interpretation stored: core_frame "\<lambda>s. storage s = st \<and> max_records s = mx" for st mx
  by unfold_locales (auto dest: same_core)

interpretation stored: search_frame P "\<lambda>s. storage s = st \<and> max_records s = mx" for P st mx
  by (unfold_locales; (erule stored.core_laws)?) auto

interpretation own: public_frame P node_ok for P
  by unfold_locales (auto simp: node_ok_def bucket_ok_erase remove_contact_ok remove_contact_local_key)

abbreviation keeps_ok :: "(node, 'a) cpp \<Rightarrow> bool" where
  "keeps_ok m \<equiv> preserves node_ok m"

lemma ok_handle_receive [ok_rules]: "keeps_ok (handle_receive P ep body)"
  by (rule own.ok_receiving) (rule ok.ok_receive_body)

lemma new_node_ok: "node_ok (new_node k p mx)"
  by (simp add: node_ok_def new_node_def new_bucket_ok) (simp add: new_bucket_def)

lemma start_node_ok: "node_ok (snd (start_node P k path p mx))"
  by (rule own.ok_start_node) (rule new_node_ok)

section \<open>Reachable states\<close>

inductive reachable :: "platform \<Rightarrow> node \<Rightarrow> bool" for P where
  start: "fst (start_node P k path p mx) = Ok () \<Longrightarrow> reachable P (snd (start_node P k path p mx))"
| step: "reachable P s \<Longrightarrow> node_step P s s' \<Longrightarrow> reachable P s'"

lemma node_step_ok: "node_step P s s' \<Longrightarrow> node_ok s \<Longrightarrow> node_ok s'"
  by (induction rule: node_step.induct) (auto intro: preservesD [OF ok_handle_receive] own.ok_own_step)

lemma reachable_ok: "reachable P s \<Longrightarrow> node_ok s"
  by (induction rule: reachable.induct) (auto intro: start_node_ok node_step_ok)

end
