(* ===== verification/Node_Properties.thy ===== *)
theory Node_Properties
  imports Node_Invariant
begin

text \<open>
  The properties of the node as a whole (\<open>Sources/miniDHT.cpp\<close>): its invariant, its lock, what each
  message may change, what is asked of the network, and what the periodic task does to the contacts.
\<close>

section \<open>A platform\<close>

text \<open>
  A concrete platform for the examples: a clock that ticks once a microsecond, names that resolve to
  themselves, a socket that was never opened, an engine that never fails.  A packet is a few letters.
\<close>

definition demo_parse :: "string \<Rightarrow> message_proto" where
  "demo_parse body =
     (if body = ''ping'' then new_message SEND_PING ''02'' 7
      else if body = ''pong'' then new_message REPLY_PING ''02'' 7
      else if body = ''find'' then (new_message SEND_FIND_NODE ''02'' 7)
      else new_message NONE [] 0)"

definition demo_platform :: platform where
  "demo_platform =
     \<lparr>clock_at = int, random_at = (\<lambda>n. 0), rhs_first = True,
      resolve = (\<lambda>n ep. Inr \<lparr>ip_text = address ep, ip_port = 80\<rparr>),
      serialize = (\<lambda>m. ''m''), parse = demo_parse, socket_endpoint = Inl ''Bad file descriptor'',
      run_value_callback = (\<lambda>c ld. None), run_node_callback = (\<lambda>c ks. None),
      storage_engine = demo_engine, storage_other = no_text, stored_records = (\<lambda>f. no_tables),
      backup_engine = demo_engine, backup_other = no_text,
      stored_contacts = (\<lambda>f. \<lparr>has_contacts = False, kv_rows = []\<rparr>)\<rparr>"

lemma demo_platform_simps:
  "clock_at demo_platform = int" "random_at demo_platform = (\<lambda>n. 0)" "rhs_first demo_platform"
  "resolve demo_platform = (\<lambda>n ep. Inr \<lparr>ip_text = address ep, ip_port = 80\<rparr>)"
  "serialize demo_platform = (\<lambda>m. ''m'')" "parse demo_platform = demo_parse"
  "socket_endpoint demo_platform = Inl ''Bad file descriptor''"
  "storage_engine demo_platform = demo_engine" "storage_other demo_platform = no_text"
  "stored_records demo_platform = (\<lambda>f. no_tables)"
  "backup_engine demo_platform = demo_engine" "backup_other demo_platform = no_text"
  "stored_contacts demo_platform = (\<lambda>f. \<lparr>has_contacts = False, kv_rows = []\<rparr>)"
  by (simp_all add: demo_platform_def)

definition demo_start :: node where
  "demo_start = snd (start_node demo_platform 1 [] 80 10)"

lemmas demo_run_simps = start_node_def demo_platform_simps random_below_def update_time_def cpp_simps
  scoped_def lock_giant_def unlock_giant_def new_node_def on_storage_def on_backup_def
  restore_from_backup_def data_open_def kv_open_def open_file_def fresh_db_def data_create_table_def
  kv_create_table_def lock_db_def run_sql_def demo_engine_def no_tables_def Let_def kv_list_value_def
  exec_or_throw_def bnd_run Kv_Store.on_contacts_def visit_def ncol_def sql_throw_def

lemma demo_start_runs: "fst (start_node demo_platform 1 [] 80 10) = Ok ()"
  by (simp add: demo_run_simps)

lemma demo_start_state:
  "contacts demo_start = new_bucket (key_to_string 1)" "searches demo_start = []"
  "\<not> giant_lock demo_start" "ping_ttl demo_start = []" "sessions demo_start = []"
  "node_id demo_start = key_to_string 1" "max_records demo_start = 10" "outbox demo_start = []"
  "callbacks demo_start = []" "clock_reads demo_start = 1"
  by (simp_all add: demo_start_def demo_run_simps)

lemma demo_start_storage:
  "db_ready (storage demo_start)" "header_rows (tables (storage demo_start)) = []"
  "time_rows (tables (storage demo_start)) = []" "item_rows (tables (storage demo_start)) = []"
  "all_tables (tables (storage demo_start))"
  by (simp_all add: demo_start_def demo_run_simps db_ready_def all_tables_def)

section \<open>Properties\<close>

text \<open>
  C2 (the state of a node stays well-formed): in every state a node can reach, whatever its peers, the
  engine, the clock and the callbacks do, the contact table is that of the node's own key, has no key
  twice, never the node's own, at most \<open>BUCKET_SIZE\<close> contacts in a bucket, each in the bucket of its
  key with an address, a port and a time; every search that is going on has at most \<open>BUCKET_SIZE\<close>
  contacts, no key twice, each farther from its destination than the one before.
\<close>

theorem reachable_state_well_formed:
  assumes "reachable P s"
  shows "bucket.local_key (contacts s) = node_id s \<and>
    distinct (map (contact_key \<circ> snd) (entries (contacts s))) \<and>
    (\<forall>e \<in> set (entries (contacts s)). contact_key (snd e) \<noteq> node_id s \<and>
      fst e = common_bits (string_to_key (node_id s)) (string_to_key (contact_key (snd e))) \<and>
      good_ep (contact_ep (snd e)) \<and> has_time (snd e)) \<and>
    (\<forall>n. mm_count n (entries (contacts s)) \<le> BUCKET_SIZE) \<and>
    (\<forall>t x. map_of (searches s) t = Some x \<longrightarrow> length (short_list x) \<le> BUCKET_SIZE \<and>
      distinct (map contact_key (short_list x)) \<and>
      sorted_wrt (<) (map (distance_to (string_to_key (destination x))) (short_list x)))"
proof -
  have ok: "node_ok s" by (rule reachable_ok [OF assms])
  then have b: "bucket_ok (contacts s)" and own: "bucket.local_key (contacts s) = node_id s"
    by (simp_all add: node_ok_def)
  have "search_wf x" if "map_of (searches s) t = Some x" for t x
    using ok map_of_SomeD [OF that] by (auto simp: node_ok_def)
  then have "\<forall>t x. map_of (searches s) t = Some x \<longrightarrow> length (short_list x) \<le> BUCKET_SIZE \<and>
      distinct (map contact_key (short_list x)) \<and>
      sorted_wrt (<) (map (distance_to (string_to_key (destination x))) (short_list x))"
    using search_wf_distinct by (auto simp: search_wf_def short_distinct_def)
  with b own show ?thesis by (auto simp: bucket_ok_def entry_ok_def bucket_common_def)
qed


definition demo_peer :: tcp_endpoint where
  "demo_peer = \<lparr>ip_text = ''h'', ip_port = 80\<rparr>"

lemma demo_start_reachable: "reachable demo_platform demo_start"
  unfolding demo_start_def by (rule reachable.start) (rule demo_start_runs)

theorem reachable_state_well_formed_witness:
  "distinct (map (contact_key \<circ> snd) (entries (contacts (snd (handle_receive demo_platform demo_peer ''ping'' demo_start)))))"
proof -
  have "reachable demo_platform (snd (handle_receive demo_platform demo_peer ''ping'' demo_start))"
    by (rule reachable.step [OF demo_start_reachable]) (rule node_step.receive)
  from reachable_state_well_formed [OF this] show ?thesis by blast
qed

section \<open>The lock\<close>

text \<open>A block that locks leaves the lock free, unless there is a fault.\<close>

abbreviation unlocked :: "node \<Rightarrow> bool" where
  "unlocked s \<equiv> \<not> giant_lock s"

lemma kept_scoped: "kept unlocked (scoped m)"
  by (rule keptI) (auto simp: scoped_def lock_giant_def unlock_giant_def split: prod.splits outcome.splits if_splits)

lemma kept_rethrow: "kept unlocked (unlock_and_rethrow msg)"
  by (rule keptI) (auto simp: unlock_and_rethrow_def unlock_giant_def bnd_run split: if_splits)

lemma kept_try_locked: "kept unlocked (try_locked m)" "kept unlocked (locked_try m)"
  unfolding try_locked_def locked_try_def by (intro kept_rules kept_scoped kept_rethrow)+

lemma scoped_run:
  assumes "\<not> giant_lock s" and "preserves (\<lambda>s. giant_lock s) m"
  shows "scoped m s = (case m (s\<lparr>giant_lock := True\<rparr>) of
      (Ok a, s') \<Rightarrow> (Ok a, s'\<lparr>giant_lock := False\<rparr>)
    | (Throw e, s') \<Rightarrow> (Throw e, s'\<lparr>giant_lock := False\<rparr>)
    | (Abort f, s') \<Rightarrow> (Abort f, s'))"
proof -
  obtain r s' where run: "m (s\<lparr>giant_lock := True\<rparr>) = (r, s')" by fastforce
  then have "giant_lock s'" using preservesD [OF assms(2), of "s\<lparr>giant_lock := True\<rparr>"] by simp
  with run assms(1) show ?thesis
    by (simp add: scoped_def lock_giant_def unlock_giant_def split: outcome.split)
qed

text \<open>A block whose handler unlocks first: what the body throws, unless it is a string, is a fault.\<close>

lemma scoped_try_run:
  assumes "\<not> giant_lock s" and "preserves (\<lambda>s. giant_lock s) m"
    and "\<And>msg t. giant_lock t \<Longrightarrow> \<exists>e. h msg t = (Throw (Std_exception e), t\<lparr>giant_lock := False\<rparr>)"
  shows "case m (s\<lparr>giant_lock := True\<rparr>) of
      (Ok a, s') \<Rightarrow> scoped (try_std m h) s = (Ok a, s'\<lparr>giant_lock := False\<rparr>)
    | (Throw (Std_exception msg), s') \<Rightarrow> fst (scoped (try_std m h) s) = Abort Undefined_behaviour
    | (Throw (String_exception msg), s') \<Rightarrow>
        scoped (try_std m h) s = (Throw (String_exception msg), s'\<lparr>giant_lock := False\<rparr>)
    | (Abort f, s') \<Rightarrow> scoped (try_std m h) s = (Abort f, s')"
proof -
  obtain r s' where run: "m (s\<lparr>giant_lock := True\<rparr>) = (r, s')" by fastforce
  then have held: "giant_lock s'" using preservesD [OF assms(2), of "s\<lparr>giant_lock := True\<rparr>"] by simp
  have handler: "\<exists>e. h msg s' = (Throw (Std_exception e), s'\<lparr>giant_lock := False\<rparr>)" for msg
    by (rule assms(3) [OF held])
  show ?thesis
  proof (cases r)
    case (Throw e)
    then show ?thesis
    proof (cases e)
      case (Std_exception msg)
      obtain e' where "h msg s' = (Throw (Std_exception e'), s'\<lparr>giant_lock := False\<rparr>)"
        using handler by blast
      with run assms(1) Throw Std_exception show ?thesis
        by (simp add: scoped_def lock_giant_def unlock_giant_def try_std_run)
    qed (use run assms(1) held Throw in \<open>simp add: scoped_def lock_giant_def unlock_giant_def try_std_run\<close>)
  qed (use run assms(1) held in \<open>simp_all add: scoped_def lock_giant_def unlock_giant_def try_std_run\<close>)
qed

text \<open>
  What a received packet does to the lock: with the lock free, a packet that is handled without an
  exception leaves it free; one whose handling throws a standard exception makes the lock be unlocked
  twice, by hand and by the destructor, which is undefined; a string or a fault passes through.
\<close>

lemma receive_free_run:
  assumes "\<not> giant_lock s"
  shows "case receive_body P ep body (s\<lparr>giant_lock := True\<rparr>) of
      (Ok _, s') \<Rightarrow> handle_receive P ep body s = (Ok (), s'\<lparr>giant_lock := False\<rparr>)
    | (Throw (Std_exception msg), s') \<Rightarrow> fst (handle_receive P ep body s) = Abort Undefined_behaviour
    | (Throw (String_exception msg), s') \<Rightarrow>
        handle_receive P ep body s = (Throw (String_exception msg), s'\<lparr>giant_lock := False\<rparr>)
    | (Abort f, s') \<Rightarrow> handle_receive P ep body s = (Abort f, s')"
proof -
  have keeps: "preserves (\<lambda>s. giant_lock s) (receive_body P ep body)"
    using held.ok_receive_body [of True P ep body] by simp
  have handler: "\<exists>e. thn unlock_giant
         (case socket_endpoint P of
            Inl err \<Rightarrow> throw_exn (Std_exception err)
          | Inr _ \<Rightarrow> throw_exn (Std_exception ''std::exception'')) t =
       (Throw (Std_exception e), t\<lparr>giant_lock := False\<rparr>)" if "giant_lock t" for t
    using that by (cases "socket_endpoint P") (simp_all add: unlock_giant_def cpp_simps)
  from scoped_try_run [OF assms keeps handler] show ?thesis
    unfolding handle_receive_def
    by (cases "receive_body P ep body (s\<lparr>giant_lock := True\<rparr>)")
      (simp split: outcome.splits exn.splits)
qed

text \<open>
  The handler of a lost connection neither takes the lock nor waits for it: it changes the contact table
  also while the periodic task, which has the lock, walks through it.
\<close>

lemma disconnect_takes_no_lock:
  "handle_disconnect P ep (s\<lparr>giant_lock := b\<rparr>) =
     (fst (handle_disconnect P ep s), (snd (handle_disconnect P ep s))\<lparr>giant_lock := b\<rparr>)"
  by (cases s, cases "endpoint_to_proto ep")
    (simp_all add: handle_disconnect_def bnd_run lift_outcome_run on_contacts_def on_part_run split: prod.split)

lemma receive_body_run:
  "ip_text ep \<noteq> [] \<Longrightarrow>
     receive_body P ep body s = handle_message_from P (parse P body)
       (Endpoint (ip_text ep) (show_nat (unat (ip_port ep)))) (s\<lparr>sender_endpoint := ep\<rparr>)"
  by (simp add: receive_body_def cpp_simps endpoint_to_proto_good)

text \<open>
  C32 (three packets that no handler survives): any peer can make a node unlock its mutex twice, with
  a message that has no type, with a list of values in answer to a search that has no callback for
  values (a search for nodes, or a store), and, where the socket of the node was never opened, with a
  wrong check value in answer to a store.
\<close>

theorem hostile_packets_are_undefined:
  assumes "\<not> giant_lock s" and "ip_text ep \<noteq> []"
    and "type_of (parse P body) = NONE \<or>
      type_of (parse P body) = REPLY_FIND_VALUE \<and>
        (\<exists>x. map_of (searches s) (token_of (parse P body)) = Some x \<and> value_callback x = None) \<or>
      type_of (parse P body) = REPLY_STORE \<and>
        (\<exists>v msg. map_of (store_check_val s) (token_of (parse P body)) = Some v \<and>
          unat (check_val (parse P body)) \<noteq> v \<and> socket_endpoint P = Inl msg)"
  shows "fst (handle_receive P ep body s) = Abort Undefined_behaviour"
proof -
  have "\<exists>msg s'. receive_body P ep body (s\<lparr>giant_lock := True\<rparr>) = (Throw (Std_exception msg), s')"
    using assms(3)
    by (auto simp: receive_body_run [OF assms(2)] handle_message_from_def is_request_def is_reply_def
        handle_message_def handle_REPLY_FIND_VALUE_def handle_REPLY_STORE_def call_value_callback_def
        cpp_simps)
  then obtain msg s' where "receive_body P ep body (s\<lparr>giant_lock := True\<rparr>) = (Throw (Std_exception msg), s')"
    by blast
  with receive_free_run [OF assms(1), of P ep body] show ?thesis by simp
qed

theorem hostile_packets_are_undefined_witness:
  "fst (handle_receive demo_platform demo_peer ''none'' demo_start) = Abort Undefined_behaviour"
  by (rule hostile_packets_are_undefined [OF demo_start_state(3)])
    (simp_all add: demo_peer_def demo_platform_simps demo_parse_def new_message_def)

section \<open>Who enters the contact table\<close>

lemma handlers_keep_entries:
  assumes "type_of m \<noteq> REPLY_PING"
  shows "entries (contacts (snd (handle_message P m s))) = entries (contacts s)"
proof -
  have "preserves (\<lambda>s'. entries (contacts s') = entries (contacts s)) (handle_message P m)"
    unfolding handle_message_def using assms
    by (auto split: message_type.split intro: entries_frame.ok_handlers preserves_throw)
  from preservesD [OF this] show ?thesis by simp
qed

lemma snd_thn_frame:
  assumes "\<And>s'. f (snd (k s')) = f s'"
  shows "f (snd (thn m k s)) = f (snd (m s))"
  using assms by (cases "m s") (simp add: bnd_run split: outcome.split)

lemma reply_ping_unknown:
  "type_of m = REPLY_PING \<Longrightarrow> map_of (ping_ttl s) (token_of m) = None \<Longrightarrow> handle_message P m s = (Ok (), s)"
  by (simp add: handle_message_def handle_REPLY_PING_def cpp_simps)

lemma late_ping: "sent \<le> now \<Longrightarrow> sent - now < minutes 1"
  by (simp add: minutes_id)

lemma add_contact_now_entries:
  "entries (contacts (snd (add_contact_now P k e s))) =
     entries (snd (add_contact (rhs_first P) (clock_at P (clock_reads s)) k e (contacts s)))"
proof (cases "k = bucket.local_key (contacts s)")
  case True
  then show ?thesis by (simp add: add_contact_now_def add_contact_def)
next
  case False
  then show ?thesis
    by (simp add: add_contact_now_def update_time_def on_contacts_def cpp_simps split: prod.split)
qed

text \<open>
  C15 (who enters the contact table): a request enters its sender, with the endpoint it came from, and
  changes nothing else in the table; an answer to a ping the node has sent enters its sender, however
  long the answer took, since the time is computed the wrong way round; no other message changes the
  table, whatever contacts it lists.
\<close>

theorem who_enters_the_table:
  defines "T \<equiv> \<lambda>s. entries (contacts s)"
  shows "(is_request (type_of m) \<longrightarrow> T (snd (handle_message_from P m epp s)) =
      entries (snd (add_contact (rhs_first P) (clock_at P (clock_reads s)) (from_id m) epp (contacts s)))) \<and>
    (type_of m = REPLY_PING \<and> map_of (ping_ttl s) (token_of m) = Some sent \<and>
       sent \<le> clock_at P (clock_reads s) \<and> ip_text (sender_endpoint s) \<noteq> [] \<longrightarrow>
     T (snd (handle_message_from P m epp s)) =
      entries (snd (add_contact (rhs_first P) (clock_at P (Suc (clock_reads s))) (from_id m)
        (Endpoint (ip_text (sender_endpoint s)) (show_nat (unat (ip_port (sender_endpoint s))))) (contacts s)))) \<and>
    (\<not> is_request (type_of m) \<and> (type_of m = REPLY_PING \<longrightarrow> map_of (ping_ttl s) (token_of m) = None) \<longrightarrow>
     T (snd (handle_message_from P m epp s)) = T s)"
proof (intro conjI impI)
  assume req: "is_request (type_of m)"
  then have "type_of m \<noteq> REPLY_PING" by (auto simp: is_request_def)
  then have "T (snd (handle_message P m s')) = T s'" for s' by (simp add: T_def handlers_keep_entries)
  from snd_thn_frame [of T "handle_message P m" "add_contact_now P (from_id m) epp" s, OF this] req
  show "T (snd (handle_message_from P m epp s)) =
      entries (snd (add_contact (rhs_first P) (clock_at P (clock_reads s)) (from_id m) epp (contacts s)))"
    by (simp add: handle_message_from_def T_def add_contact_now_entries)
next
  assume "type_of m = REPLY_PING \<and> map_of (ping_ttl s) (token_of m) = Some sent \<and>
       sent \<le> clock_at P (clock_reads s) \<and> ip_text (sender_endpoint s) \<noteq> []"
  moreover have "T (snd (thn ma (writes (\<lambda>s. s\<lparr>ping_ttl := omap_erase (token_of m) (ping_ttl s)\<rparr>)) s')) =
      T (snd (ma s'))" for ma :: "(node, unit) cpp" and s'
    by (rule snd_thn_frame) (simp add: T_def cpp_simps)
  ultimately show "T (snd (handle_message_from P m epp s)) =
      entries (snd (add_contact (rhs_first P) (clock_at P (Suc (clock_reads s))) (from_id m)
        (Endpoint (ip_text (sender_endpoint s)) (show_nat (unat (ip_port (sender_endpoint s))))) (contacts s)))"
    by (simp add: handle_message_from_def is_request_def is_reply_def handle_message_def
        handle_REPLY_PING_def bnd_run [of "reads f" for f] reads_run
        update_time_bnd Let_def late_ping bnd_run [of "lift_outcome r" for r] lift_outcome_run
        endpoint_to_proto_good)
      (simp add: T_def add_contact_now_entries)
next
  assume "\<not> is_request (type_of m) \<and> (type_of m = REPLY_PING \<longrightarrow> map_of (ping_ttl s) (token_of m) = None)"
  then show "T (snd (handle_message_from P m epp s)) = T s"
    by (cases "type_of m = REPLY_PING")
      (auto simp: handle_message_from_def T_def handlers_keep_entries cpp_simps reply_ping_unknown)
qed

theorem who_enters_the_table_witness:
  "entries (contacts (snd (handle_message_from demo_platform (demo_parse ''pong'') (Endpoint ''h'' ''80'')
     (demo_start\<lparr>ping_ttl := [(7, 0)], sender_endpoint := demo_peer\<rparr>)))) =
   entries (snd (add_contact True 2 ''02'' (Endpoint ''h'' (show_nat 80)) (new_bucket (key_to_string 1))))"
  using who_enters_the_table [of "demo_parse ''pong''" demo_platform "Endpoint ''h'' ''80''"
      "demo_start\<lparr>ping_ttl := [(7, 0)], sender_endpoint := demo_peer\<rparr>" 0]
  by (simp add: demo_parse_def new_message_def demo_platform_simps demo_start_state demo_peer_def)

end
