(* ===== verification/Node_Requests.thy ===== *)
theory Node_Requests
  imports Node_Properties
begin

text \<open>
  What a node asks of the network: the pages a list of contacts is sent in, the contacts a search asks
  next, the contacts a record is stored at, and what the answers do.
\<close>

section \<open>A list of contacts is sent in pages\<close>

fun chunks :: "nat \<Rightarrow> 'a list \<Rightarrow> 'a list list" where
  "chunks n xs = (if xs = [] \<or> n = 0 then [] else take n xs # chunks n (drop n xs))"

declare chunks.simps [simp del]

lemma chunks_Nil [simp]: "chunks n [] = []"
  by (simp add: chunks.simps)

lemma concat_chunks: "0 < n \<Longrightarrow> concat (chunks n xs) = xs"
proof (induction n xs rule: chunks.induct)
  case (1 n xs)
  then show ?case using chunks.simps [of n xs] by (auto split: if_splits)
qed

lemma chunks_bounded: "l \<in> set (chunks n xs) \<Longrightarrow> l \<noteq> [] \<and> length l \<le> n"
proof (induction n xs rule: chunks.induct)
  case (1 n xs)
  then show ?case using chunks.simps [of n xs] by (auto split: if_splits)
qed

text \<open>The loop, started with the contacts \<open>acc\<close> it has gathered.\<close>

lemma contact_chunks_acc:
  assumes "length acc < ALPHA"
  shows "contact_chunks P (m\<lparr>contact_list := acc\<rparr>) cs =
    (if cs = [] then ret () else for_each (\<lambda>l. send_message P (m\<lparr>contact_list := l\<rparr>)) (chunks ALPHA (acc @ cs)))"
  using assms
proof (induction cs arbitrary: acc)
  case Nil
  show ?case by simp
next
  case (Cons c cs)
  show ?case
  proof (cases "length acc + 1 \<ge> ALPHA \<or> cs = []")
    case True
    then have "chunks ALPHA (acc @ c # cs) = (acc @ [c]) # chunks ALPHA cs"
      using Cons.prems by (subst chunks.simps) (auto simp: ALPHA_def numeral_3_eq_3 less_Suc_eq_le le_Suc_eq)
    with True Cons.IH [of "[]"] show ?thesis
      by (auto simp: Let_def ALPHA_def)
  next
    case False
    then show ?thesis using Cons.IH [of "acc @ [c]"] by (simp add: Let_def)
  qed
qed

text \<open>
  C21 (a list of contacts is sent whole): the answer to a search for nodes sends every contact of the
  table once, in its order, in messages of one to \<open>ALPHA\<close> contacts that differ in nothing else; an
  exception ends the sending, and is swallowed.
\<close>

theorem node_list_is_sent_in_pages:
  assumes "to \<noteq> zero_key_text"
  defines "cs \<equiv> \<lambda>s. map snd (entries (contacts s))"
  shows "reply_FIND_NODE P to t s = swallow (for_each (\<lambda>l. send_message P
        ((new_message REPLY_FIND_NODE (node_id s) t)\<lparr>to_id_opt := Some to, contact_list := l\<rparr>))
      (chunks ALPHA (cs s))) s \<and>
    concat (chunks ALPHA (cs s)) = cs s \<and> (\<forall>l \<in> set (chunks ALPHA (cs s)). l \<noteq> [] \<and> length l \<le> ALPHA)"
proof (intro conjI)
  have "contact_chunks P ((new_message REPLY_FIND_NODE me t)\<lparr>to_id_opt := Some to\<rparr>) cs =
      for_each (\<lambda>l. send_message P
        ((new_message REPLY_FIND_NODE me t)\<lparr>to_id_opt := Some to, contact_list := l\<rparr>)) (chunks ALPHA cs)" for me cs
    using contact_chunks_acc [of "[]" P "(new_message REPLY_FIND_NODE me t)\<lparr>to_id_opt := Some to\<rparr>" cs]
    by (simp add: ALPHA_def new_message_def)
  with assms(1) show "reply_FIND_NODE P to t s = swallow (for_each (\<lambda>l. send_message P
        ((new_message REPLY_FIND_NODE (node_id s) t)\<lparr>to_id_opt := Some to, contact_list := l\<rparr>))
      (chunks ALPHA (cs s))) s"
    by (simp add: reply_FIND_NODE_def assert_key_def cpp_simps swallow_def cs_def)
  show "concat (chunks ALPHA (cs s)) = cs s" by (rule concat_chunks) (simp add: ALPHA_def)
  show "\<forall>l \<in> set (chunks ALPHA (cs s)). l \<noteq> [] \<and> length l \<le> ALPHA" using chunks_bounded by blast
qed

theorem node_list_is_sent_in_pages_witness:
  "\<exists>f. reply_FIND_NODE demo_platform ''02'' 7 (demo_start\<lparr>contacts := (new_bucket ''01'')\<lparr>entries :=
      [(0, demo_contact ''a''), (0, demo_contact ''b''), (1, demo_contact ''c''), (2, demo_contact ''d'')]\<rparr>\<rparr>) =
    swallow (for_each f [[demo_contact ''a'', demo_contact ''b'', demo_contact ''c''], [demo_contact ''d'']])
      (demo_start\<lparr>contacts := (new_bucket ''01'')\<lparr>entries :=
      [(0, demo_contact ''a''), (0, demo_contact ''b''), (1, demo_contact ''c''), (2, demo_contact ''d'')]\<rparr>\<rparr>)"
proof -
  define s where "s = demo_start\<lparr>contacts := (new_bucket ''01'')\<lparr>entries :=
      [(0, demo_contact ''a''), (0, demo_contact ''b''), (1, demo_contact ''c''), (2, demo_contact ''d'')]\<rparr>\<rparr>"
  have "''02'' \<noteq> zero_key_text" by (simp add: zero_key_text_def numeral_eq_Suc)
  from node_list_is_sent_in_pages [OF this, of demo_platform 7 s]
  have "\<exists>f. reply_FIND_NODE demo_platform ''02'' 7 s =
      swallow (for_each f (chunks ALPHA (map snd (entries (contacts s))))) s" by blast
  moreover have "chunks ALPHA (map snd (entries (contacts s))) =
      [[demo_contact ''a'', demo_contact ''b'', demo_contact ''c''], [demo_contact ''d'']]"
    by (simp add: s_def chunks.simps ALPHA_def)
  ultimately show ?thesis by (simp add: s_def)
qed

section \<open>The contacts a search asks\<close>

definition mark_node :: "token \<Rightarrow> key_text \<Rightarrow> (node, unit) cpp" where
  "mark_node t k = on_search t (writes (\<lambda>x. x\<lparr>map_node_busy := omap_put k True (map_node_busy x)\<rparr>))"

definition mark_value :: "token \<Rightarrow> key_text \<Rightarrow> (node, unit) cpp" where
  "mark_value t k = on_search t (writes (\<lambda>x. x\<lparr>map_value_busy := omap_put k True (map_value_busy x)\<rparr>))"

lemma on_search_reading:
  assumes "omap_ok (searches s)" and "map_of (searches s) t = Some x"
  shows "on_search t (\<lambda>x. (f x, x)) s = (f x, s)"
  using assms by (simp add: on_search_found omap_put_same)

lemma open_keys_head:
  assumes "short_ok x" and "open_keys busy x = k # ks"
  obtains c where "pick_loop z busy (short_list x) = Ok (Some c)" and "contact_key c = k"
    and "open_keys (omap_put k True busy) x = ks"
proof -
  have "map contact_key (filter (\<lambda>c. \<not> omap_has (contact_key c) busy) (short_list x)) = k # ks"
    using assms(2) by (simp add: open_keys_def filter_map comp_def)
  then obtain c cs where c: "filter (\<lambda>c. \<not> omap_has (contact_key c) busy) (short_list x) = c # cs"
    "contact_key c = k" by auto
  have "pick_loop z busy (short_list x) = Ok (Some c)"
    using assms(1) find_filter_hd [OF c(1)] by (auto simp: short_ok_def intro: pick_next_of_loop)
  moreover have "filter (\<lambda>j. j \<noteq> k \<and> \<not> omap_has j busy) (map contact_key (short_list x)) = ks"
    using assms by (intro filter_notin_tl) (simp_all add: short_ok_def short_distinct_def open_keys_def)
  then have "open_keys (omap_put k True busy) x = ks"
    by (simp add: open_keys_def omap_has_def)
  ultimately show ?thesis using c(2) that by blast
qed

lemma for_each_Cons_run:
  "for_each f (x # xs) s = (case f x s of
     (Ok _, s') \<Rightarrow> for_each f xs s' | (Throw e, s') \<Rightarrow> (Throw e, s') | (Abort a, s') \<Rightarrow> (Abort a, s'))"
  by (simp add: bnd_run)

lemma query_nodes_run:
  assumes "omap_ok (searches s)" and "map_of (searches s) t = Some x" and "short_ok x"
    and send: "\<And>k c. keeps_core c (send k)"
  shows "query_nodes send t n s =
    for_each (\<lambda>k. thn (mark_node t k) (send k)) (take n (open_keys (map_node_busy x) x)) s"
  using assms(1-3)
proof (induction n arbitrary: s x)
  case 0
  show ?case by (simp add: ret_run)
next
  case (Suc n)
  have full: "on_search t (\<lambda>x. (is_node_full x, x)) s = (Ok (open_keys (map_node_busy x) x = []), s)"
    using node_pick.full_iff_open [OF Suc.prems(3)]
    by (simp add: node_pick.open_of_def on_search_reading [OF Suc.prems(1,2)])
  show ?case
  proof (cases "open_keys (map_node_busy x) x")
    case Nil
    with full show ?thesis by (simp add: bnd_run ret_run)
  next
    case (Cons k ks)
    define x' where "x' = x\<lparr>map_node_busy := omap_put k True (map_node_busy x)\<rparr>"
    define s' where "s' = s\<lparr>searches := omap_put t x' (searches s)\<rparr>"
    obtain c where c: "pick_loop True (map_node_busy x) (short_list x) = Ok (Some c)" "contact_key c = k"
      and ks: "open_keys (omap_put k True (map_node_busy x)) x = ks"
      by (rule open_keys_head [OF Suc.prems(3) Cons])
    have "get_node_key x = (Ok k, x')" using c by (simp add: get_node_key_def x'_def)
    then have pick: "on_search t get_node_key s = (Ok k, s')"
      by (simp add: on_search_found [OF Suc.prems(2)] s'_def)
    have mark: "mark_node t k s = (Ok (), s')"
      by (simp add: mark_node_def on_search_found [OF Suc.prems(2)] writes_run x'_def s'_def)
    obtain r s2 where run: "send k s' = (r, s2)" by fastforce
    have "node_core s2 = node_core s'" using core_same [OF send, of k s'] run by simp
    then have s2: "searches s2 = searches s'" by (rule same_core)
    have "omap_ok (searches s2)" "map_of (searches s2) t = Some x'" "short_ok x'"
      using Suc.prems s2 short_ok_list [of x x'] by (simp_all add: s'_def x'_def)
    note IH = Suc.IH [OF this]
    have "open_keys (map_node_busy x') x' = ks" using ks by (simp add: x'_def open_keys_def)
    with IH full Cons show ?thesis
      by (simp add: bnd_run pick mark run split: outcome.split)
  qed
qed

lemma store_loop_run:
  assumes "omap_ok (searches s)" and "map_of (searches s) t = Some x" and "short_ok x"
    and "open_keys (map_value_busy x) x = ks"
  shows "store_loop P t k s =
    for_each (\<lambda>key. thn (mark_value t key) (send_STORE P key k (buffer x) t)) ks s"
  using assms
proof (induction ks arbitrary: s x)
  case Nil
  have "on_search t (\<lambda>x. (is_value_full x, x)) s = (Ok True, s)"
    using value_pick.full_iff_open [OF Nil(3)] Nil(4)
    by (simp add: value_pick.open_of_def on_search_reading [OF Nil(1,2)])
  then have "store_turn P t k s = (Ok False, s)" by (simp add: store_turn_def bnd_run ret_run)
  then show ?case by (subst store_loop.simps) (simp add: ret_run)
next
  case (Cons key ks)
  define x' where "x' = x\<lparr>map_value_busy := omap_put key True (map_value_busy x)\<rparr>"
  define s' where "s' = s\<lparr>searches := omap_put t x' (searches s)\<rparr>"
  obtain c where c: "pick_loop True (map_value_busy x) (short_list x) = Ok (Some c)" "contact_key c = key"
    and ks: "open_keys (omap_put key True (map_value_busy x)) x = ks"
    by (rule open_keys_head [OF Cons.prems(3,4)])
  have full: "on_search t (\<lambda>x. (is_value_full x, x)) s = (Ok False, s)"
    using value_pick.full_iff_open [OF Cons.prems(3)] Cons.prems(4)
    by (simp add: value_pick.open_of_def on_search_reading [OF Cons.prems(1,2)])
  have "get_value_key x = (Ok key, x')" using c by (simp add: get_value_key_def x'_def)
  then have pick: "on_search t get_value_key s = (Ok key, s')"
    by (simp add: on_search_found [OF Cons.prems(2)] s'_def)
  have mark: "mark_value t key s = (Ok (), s')"
    by (simp add: mark_value_def on_search_found [OF Cons.prems(2)] writes_run x'_def s'_def)
  have here: "omap_ok (searches s')" "map_of (searches s') t = Some x'"
    using Cons.prems by (simp_all add: s'_def)
  have buf: "on_search t (reads buffer) s' = (Ok (buffer x), s')"
    using here by (simp add: on_search_found reads_run omap_put_same) (simp add: x'_def)
  obtain r s2 where run: "send_STORE P key k (buffer x) t s' = (r, s2)" by fastforce
  then have s2: "searches s2 = searches s'" using core_send_STORE_searches by (metis snd_conv)
  have turn: "store_turn P t k s = (case r of Ok _ \<Rightarrow> (Ok True, s2) | Throw e \<Rightarrow> (Throw e, s2) | Abort f \<Rightarrow> (Abort f, s2))"
    by (simp add: store_turn_def bnd_run full pick buf run ret_run split: outcome.split)
  have "short_ok x'" "open_keys (map_value_busy x') x' = ks"
    using Cons.prems(3) ks short_ok_list [of x x'] by (simp_all add: x'_def open_keys_def)
  with here s2 have IH: "store_loop P t k s2 =
      for_each (\<lambda>key. thn (mark_value t key) (send_STORE P key k (buffer x') t)) ks s2"
    by (intro Cons.IH) simp_all
  show ?case
    by (subst store_loop.simps) (simp add: turn bnd_run mark run IH x'_def split: outcome.split)
qed

text \<open>
  C20 (a search that goes on asks the next contacts): while a search is not complete, the node asks the
  first \<open>ALPHA\<close> contacts of the short list that were not asked, in order, each once, and marks each
  before it asks it; a search for nodes and a store ask for nodes, a search for a value asks for the
  value, complete or not, and without its hint.
\<close>

theorem search_asks_the_next_contacts:
  assumes "omap_ok (searches s)" and "map_of (searches s) t = Some x" and "update_list lc x = (Ok complete, x1)"
    and "short_ok x1"
  defines "s1 \<equiv> s\<lparr>searches := omap_put t x1 (searches s)\<rparr>"
    and "next_keys \<equiv> take ALPHA (open_keys (map_node_busy x1) x1)"
  shows "distinct next_keys \<and> length next_keys \<le> ALPHA \<and>
    (\<not> complete \<longrightarrow> replyIterativeNodeSearch P lc t k s =
      for_each (\<lambda>key. thn (mark_node t key) (send_FIND_NODE P key k t)) next_keys s1) \<and>
    (\<not> complete \<and> k \<noteq> zero_key_text \<longrightarrow> replyIterativeStoreSearch P lc t k s =
      for_each (\<lambda>key. thn (mark_node t key) (send_FIND_NODE P key k t)) next_keys s1) \<and>
    replyIterativeValueSearch P lc t k s =
      for_each (\<lambda>key. thn (mark_node t key) (send_FIND_VALUE P key k t [])) next_keys s1"
proof -
  have upd: "on_search t (update_list lc) s = (Ok complete, s1)"
    by (simp add: on_search_found [OF assms(2)] assms(3) s1_def)
  have s1: "omap_ok (searches s1)" "map_of (searches s1) t = Some x1" using assms(1) by (simp_all add: s1_def)
  have "query_nodes (\<lambda>key. send_FIND_NODE P key k t) t ALPHA s1 =
      for_each (\<lambda>key. thn (mark_node t key) (send_FIND_NODE P key k t)) next_keys s1"
    unfolding next_keys_def by (rule query_nodes_run [OF s1 assms(4)]) (rule core_sends)
  moreover have "query_nodes (\<lambda>key. send_FIND_VALUE P key k t []) t ALPHA s1 =
      for_each (\<lambda>key. thn (mark_node t key) (send_FIND_VALUE P key k t [])) next_keys s1"
    unfolding next_keys_def by (rule query_nodes_run [OF s1 assms(4)]) (rule core_sends)
  moreover have "distinct next_keys"
    using assms(4) by (simp add: next_keys_def open_keys_def short_ok_def short_distinct_def)
  ultimately show ?thesis
    by (simp add: replyIterativeNodeSearch_def replyIterativeStoreSearch_def replyIterativeValueSearch_def
        bnd_run upd assert_key_def assert_run next_keys_def)
qed

text \<open>
  C16 (a record is stored at the nearest contacts): when the search of a store is complete, the record
  is sent to every contact of the short list that was not sent it, in order, each once, and the search
  is forgotten; nothing was sent before, so that is every contact of the short list.
\<close>

theorem record_is_stored_at_the_nearest:
  assumes "omap_ok (searches s)" and "map_of (searches s) t = Some x" and "update_list lc x = (Ok True, x1)"
    and "short_ok x1" and "k \<noteq> zero_key_text"
  defines "s1 \<equiv> s\<lparr>searches := omap_put t x1 (searches s)\<rparr>"
  shows "replyIterativeStoreSearch P lc t k s =
      thn (for_each (\<lambda>key. thn (mark_value t key) (send_STORE P key k (buffer x) t))
        (open_keys (map_value_busy x) x1)) (erase_search t) s1 \<and>
    (map_value_busy x = [] \<longrightarrow> open_keys (map_value_busy x) x1 = map contact_key (short_list x1))"
proof -
  have upd: "on_search t (update_list lc) s = (Ok True, s1)"
    by (simp add: on_search_found [OF assms(2)] assms(3) s1_def)
  have s1: "omap_ok (searches s1)" "map_of (searches s1) t = Some x1" using assms(1) by (simp_all add: s1_def)
  have same: "buffer x1 = buffer x" "map_value_busy x1 = map_value_busy x"
    using assms(3) by (auto simp: update_list_def Let_def split: if_splits outcome.splits)
  show ?thesis
    using store_loop_run [OF s1 assms(4) refl] assms(5)
    by (simp add: replyIterativeStoreSearch_def bnd_run upd assert_key_def assert_run same open_keys_def omap_has_def)
qed

section \<open>Examples of searches\<close>

definition demo_search :: "(key_text \<times> bool) list \<Rightarrow> search" where
  "demo_search busy = (new_search 0 ''g'' ''h'' STORE_SEARCH)
     \<lparr>short_list := [demo_contact ''01'', demo_contact ''02''], map_node_busy := busy\<rparr>"

lemma demo_search_ok: "short_ok (demo_search busy)"
  by (simp add: demo_search_def short_ok_def short_good_def short_nonzero_def short_distinct_def
      demo_contact_def good_ep_def zero_key_text_def Cons_replicate_eq)

lemma demo_search_update:
  "update_list [] (demo_search busy) = (Ok (omap_has ''01'' busy \<and> omap_has ''02'' busy), demo_search busy)"
proof -
  have "length (filter p (short_list (demo_search busy))) \<le> 2" for p
    by (rule order.trans [OF length_filter_le]) (simp add: demo_search_def)
  then have "\<not> BUCKET_SIZE \<le> length (filter p (short_list (demo_search busy)))" for p
    by (simp add: BUCKET_SIZE_def not_le) (meson le_less_trans less_numeral_extra numeral_less_iff semiring_norm)
  then show ?thesis
    using demo_search_ok [of busy]
    by (simp add: update_list_def is_bucket_full_good short_ok_def)
      (simp add: demo_search_def demo_contact_def)
qed

theorem search_asks_the_next_contacts_witness:
  "replyIterativeNodeSearch demo_platform [] 3 ''k'' (demo_start\<lparr>searches := [(3, demo_search [(''01'', True)])]\<rparr>) =
     for_each (\<lambda>key. thn (mark_node 3 key) (send_FIND_NODE demo_platform key ''k'' 3)) [''02'']
       (demo_start\<lparr>searches := [(3, demo_search [(''01'', True)])]\<rparr>)"
proof -
  let ?s = "demo_start\<lparr>searches := [(3, demo_search [(''01'', True)])]\<rparr>"
  have "omap_ok (searches ?s)" "map_of (searches ?s) 3 = Some (demo_search [(''01'', True)])"
    "update_list [] (demo_search [(''01'', True)]) = (Ok False, demo_search [(''01'', True)])"
    by (simp_all add: demo_search_update omap_has_def)
  note next_keys = search_asks_the_next_contacts [OF this demo_search_ok, of demo_platform "''k''"]
  have "take ALPHA (open_keys (map_node_busy (demo_search [(''01'', True)])) (demo_search [(''01'', True)])) = [''02'']"
    by (simp add: open_keys_def demo_search_def demo_contact_def omap_has_def ALPHA_def)
  with next_keys show ?thesis by simp
qed

theorem record_is_stored_at_the_nearest_witness:
  "replyIterativeStoreSearch demo_platform [] 3 ''k''
      (demo_start\<lparr>searches := [(3, demo_search [(''01'', True), (''02'', True)])]\<rparr>) =
     thn (for_each (\<lambda>key. thn (mark_value 3 key) (send_STORE demo_platform key ''k'' default_item 3))
       [''01'', ''02'']) (erase_search 3)
       (demo_start\<lparr>searches := [(3, demo_search [(''01'', True), (''02'', True)])]\<rparr>)"
proof -
  let ?x = "demo_search [(''01'', True), (''02'', True)]"
  let ?s = "demo_start\<lparr>searches := [(3, ?x)]\<rparr>"
  have "omap_ok (searches ?s)" "map_of (searches ?s) 3 = Some ?x" "update_list [] ?x = (Ok True, ?x)"
    "''k'' \<noteq> zero_key_text"
    by (simp_all add: demo_search_update omap_has_def zero_key_text_def Cons_replicate_eq)
  note stored = record_is_stored_at_the_nearest [OF this(1-3) demo_search_ok this(4), of demo_platform]
  have "open_keys (map_value_busy ?x) ?x = [''01'', ''02'']" "buffer ?x = default_item"
    by (simp_all add: open_keys_def demo_search_def demo_contact_def omap_has_def new_search_def)
  with stored show ?thesis by simp
qed

end
