(* ===== verification/Node_Periodic.thy ===== *)
theory Node_Periodic
  imports Node_Properties "HOL-Library.Sublist"
begin

text \<open>
  What the periodic task does to the contacts and the records of the node (\<open>miniDHT::periodic\<close>,
  \<open>Sources/miniDHT.cpp\<close>).
\<close>

section \<open>The loop\<close>

lemma subseq_erase_at: "subseq (erase_at i xs) xs"
  by (metis erase_at_def append_take_drop_id drop_drop list_emb_append_mono plus_1_eq_Suc
      subseq_drop_many subseq_order.order_refl suffix_drop suffix_imp_subseq)

lemma not_in_erase_at: "x \<in> set xs \<Longrightarrow> x \<notin> set (erase_at i xs) \<Longrightarrow> i < length xs \<and> x = xs ! i"
proof -
  assume x: "x \<in> set xs" "x \<notin> set (erase_at i xs)"
  then have "i < length xs" by (cases "i < length xs") (simp_all add: erase_at_def)
  moreover from this have "set xs = insert (xs ! i) (set (erase_at i xs))"
    using arg_cong [OF erase_at_mset, of i xs set] by (auto simp: erase_at_def)
  ultimately show ?thesis using x by auto
qed

text \<open>The readings of the clock: a turn makes exactly one where it keeps the contact, and none in the last bucket.\<close>

abbreviation reads_from :: "nat \<Rightarrow> (node, 'a) cpp \<Rightarrow> bool" where
  "reads_from n m \<equiv> preserves (\<lambda>s. n \<le> clock_reads s) m"

lemma reads_update_time: "reads_from n (update_time P)" "reads_from n (random_token P)"
  by (auto intro!: preservesI simp: update_time_def random_token_def)

lemma reads_send_to: "reads_from n (send_to P m e)"
proof -
  have "reads_from n (proto_to_endpoint P e)"
    by (rule preservesI) (simp add: proto_to_endpoint_def)
  moreover have "reads_from n (deliver_packet u p i)" for u p i
    by (rule preservesI) (auto simp: deliver_packet_def emit_def cpp_simps split: option.split)
  ultimately show ?thesis unfolding send_to_def swallow_def by (intro preserves_rules)
qed

lemma reads_ping_key: "reads_from n (ping_key P k)"
proof -
  have "reads_from n (send_message P m)" for m
    unfolding send_message_def assert_key_def
    by (intro preserves_rules preservesI) (auto simp: Let_def intro: preservesD [OF reads_send_to])
  moreover have "reads_from n (set_ping_ttl t now)" for t now
    by (rule preservesI) (simp add: set_ping_ttl_def writes_run)
  ultimately show ?thesis
    unfolding ping_key_def send_PING_key_def assert_key_def swallow_def by (intro preserves_rules reads_update_time)
qed

lemma refresh_turn_reads:
  assumes "refresh_turn P i s = (r, s')"
  defines "e \<equiv> entries (contacts s) ! i"
  shows "if fst e = KEY_SIZE then s' = s else clock_reads s < clock_reads s' \<and>
    (silent_for (clock_at P (clock_reads s)) (snd e) \<le> minutes PERIODIC \<longrightarrow> clock_reads s' = Suc (clock_reads s))"
proof (cases "fst e = KEY_SIZE")
  case True
  with assms(1) show ?thesis by (simp add: refresh_turn_def e_def Let_def)
next
  case False
  define s1 where "s1 = s\<lparr>clock_reads := Suc (clock_reads s)\<rparr>"
  have backup: "preserves (\<lambda>s. f (clock_reads s)) (on_backup m)" for f and m :: "(kv_db, 'c) cpp"
    unfolding on_backup_def by (rule preserves_on_part) simp
  obtain stale fresh where run: "refresh_turn P i s =
      (if silent_for (clock_at P (clock_reads s)) (snd e) > minutes PERIODIC then stale s1 else fresh s1)"
    and stale: "reads_from (clock_reads s1) stale" and fresh: "preserves (\<lambda>s. clock_reads s = clock_reads s1) fresh"
  proof (rule that)
    let ?key = "contact_key (snd e)"
    let ?drop = "\<lambda>s1 :: node. let m = erase_at i (entries (contacts s1));
        s2 = s1\<lparr>contacts := (contacts s1)\<lparr>entries := m\<rparr>\<rparr>
      in if m = [] then (Abort Undefined_behaviour, s2) else (Ok 1, s2)"
    let ?stale = "thn (ping_key P ?key) (thn (on_backup (kv_remove (backup_engine P) (backup_other P) ?key)) ?drop)"
    let ?fresh = "thn (on_backup (backup_refresh (kv_find (backup_engine P) (backup_other P))
        (kv_remove (backup_engine P) (backup_other P)) (kv_insert (backup_engine P) (backup_other P))
        ?key (endpoint_to_string (contact_ep (snd e))))) (ret (Suc i))"
    show "refresh_turn P i s =
        (if silent_for (clock_at P (clock_reads s)) (snd e) > minutes PERIODIC then ?stale s1 else ?fresh s1)"
      using False by (simp add: refresh_turn_def Let_def update_time_bnd e_def silent_for_def s1_def)
    have "reads_from (clock_reads s1) ?drop" by (rule preservesI) (simp add: Let_def)
    then show "reads_from (clock_reads s1) ?stale" by (intro preserves_rules reads_ping_key backup)
    show "preserves (\<lambda>s. clock_reads s = clock_reads s1) ?fresh" by (intro preserves_rules backup)
  qed
  show ?thesis
    using False assms(1) preservesD [OF stale, of s1] preservesD [OF fresh, of s1]
    by (auto simp: run s1_def split: if_splits)
qed

text \<open>
  A contact was silent at a reading of the clock that this refresh made, or it was seen fresh at the one
  with the given number.
\<close>

definition found_silent :: "platform \<Rightarrow> nat \<Rightarrow> nat \<Rightarrow> nat \<times> contact_proto \<Rightarrow> bool" where
  "found_silent P from to e \<longleftrightarrow> fst e \<noteq> KEY_SIZE \<and>
     (\<exists>n \<in> {from..<to}. silent_for (clock_at P n) (snd e) > minutes PERIODIC)"

definition found_fresh :: "platform \<Rightarrow> nat \<Rightarrow> nat \<times> contact_proto \<Rightarrow> bool" where
  "found_fresh P n e \<longleftrightarrow> fst e = KEY_SIZE \<or> silent_for (clock_at P n) (snd e) \<le> minutes PERIODIC"

text \<open>How many of the entries the loop reads the clock for.\<close>

definition timed :: "(nat \<times> contact_proto) list \<Rightarrow> nat" where
  "timed es = length (filter (\<lambda>e. fst e \<noteq> KEY_SIZE) es)"

lemma refresh_loop_run:
  assumes "i < length (entries (contacts s))" and "refresh_turn P i s = (r, s1)"
  shows "refresh_loop P i s = (case r of Ok j \<Rightarrow> refresh_loop P j s1 | Throw e \<Rightarrow> (Throw e, s1) | Abort f \<Rightarrow> (Abort f, s1))"
  using assms by (subst refresh_loop.simps) simp

lemma found_silent_mono: "found_silent P a b e \<Longrightarrow> a' \<le> a \<Longrightarrow> b \<le> b' \<Longrightarrow> found_silent P a' b' e"
  unfolding found_silent_def by force

lemma refresh_loop_forgets:
  "subseq (entries (contacts (snd (refresh_loop P i s)))) (entries (contacts s)) \<and>
   clock_reads s \<le> clock_reads (snd (refresh_loop P i s)) \<and>
   (\<forall>e \<in> set (entries (contacts s)). e \<notin> set (entries (contacts (snd (refresh_loop P i s)))) \<longrightarrow>
     found_silent P (clock_reads s) (clock_reads (snd (refresh_loop P i s))) e)"
proof (induction P i s rule: refresh_loop.induct)
  case (1 P i s)
  show ?case
  proof (cases "i < length (entries (contacts s))")
    case False
    then show ?thesis by (subst (1 2 3 4) refresh_loop.simps) simp
  next
    case True
    obtain r s1 where turn: "refresh_turn P i s = (r, s1)" by fastforce
    note reads = refresh_turn_reads [OF turn]
    have here: "subseq (entries (contacts s1)) (entries (contacts s)) \<and> clock_reads s \<le> clock_reads s1 \<and>
        (\<forall>e \<in> set (entries (contacts s)). e \<notin> set (entries (contacts s1)) \<longrightarrow>
          found_silent P (clock_reads s) (clock_reads s1) e)"
    proof (cases rule: refresh_turn_effect [OF turn True])
      case 1
      then show ?thesis using reads by (auto split: if_splits)
    next
      case 2
      then show ?thesis
        using not_in_erase_at [of _ "entries (contacts s)" i] reads
        by (auto simp: subseq_erase_at found_silent_def)
    qed
    show ?thesis
    proof (cases r)
      case (Ok j)
      note IH = "1.IH" [OF True turn [symmetric] Ok]
      have run: "refresh_loop P i s = refresh_loop P j s1" by (simp add: refresh_loop_run [OF True turn] Ok)
      from IH here have "subseq (entries (contacts (snd (refresh_loop P j s1)))) (entries (contacts s))"
        by (meson subseq_order.order_trans)
      then show ?thesis using IH here unfolding run by (meson found_silent_mono order.refl order_trans)
    qed (use here in \<open>simp_all add: refresh_loop_run [OF True turn]\<close>)
  qed
qed

text \<open>
  The pass the loop is in: each contact it has gone by, from the second one on, and the first one too while
  nothing has been erased, was seen fresh at the reading that its turn made.
\<close>

definition passed :: "platform \<Rightarrow> nat \<Rightarrow> nat \<Rightarrow> nat \<Rightarrow> node \<Rightarrow> bool" where
  "passed P len since i s \<longleftrightarrow> (let es = entries (contacts s) in length es \<le> len \<and>
     (\<forall>j < i. 1 \<le> j \<or> length es = len \<longrightarrow>
       since + timed (drop j (take i es)) \<le> clock_reads s \<and>
       found_fresh P (clock_reads s - timed (drop j (take i es))) (es ! j)))"

lemma passed_next:
  assumes "passed P len since i s" and "i < length (entries (contacts s))" and "since \<le> clock_reads s"
    and "entries (contacts s1) = entries (contacts s)"
    and "found_fresh P (clock_reads s) (entries (contacts s) ! i)"
    and "clock_reads s1 = clock_reads s + timed [entries (contacts s) ! i]"
  shows "passed P len since (Suc i) s1"
proof -
  let ?es = "entries (contacts s)"
  have "timed (drop j (take (Suc i) ?es)) = timed (drop j (take i ?es)) + timed [?es ! i]" if "j \<le> i" for j
    using that assms(2) by (simp add: take_Suc_conv_app_nth timed_def)
  then show ?thesis
    using assms by (auto simp: passed_def Let_def less_Suc_eq timed_def)
qed

lemma refresh_loop_ends:
  assumes "refresh_loop P i s = (Ok (), s')" and "passed P len since i s" and "since \<le> clock_reads s"
    and "i \<le> length (entries (contacts s))"
  shows "(entries (contacts s) \<noteq> [] \<longrightarrow> entries (contacts s') \<noteq> []) \<and>
    passed P len since (length (entries (contacts s'))) s'"
  using assms
proof (induction P i s rule: refresh_loop.induct)
  case (1 P i s)
  show ?case
  proof (cases "i < length (entries (contacts s))")
    case False
    with 1(2) have "s' = s" by (subst (asm) refresh_loop.simps) simp
    moreover have "i = length (entries (contacts s))" using 1(5) False by simp
    ultimately show ?thesis using 1(3) by simp
  next
    case True
    obtain r s1 where turn: "refresh_turn P i s = (r, s1)" by fastforce
    with 1(2) True obtain j where j: "r = Ok j" "refresh_loop P j s1 = (Ok (), s')"
      by (auto simp: refresh_loop_run [OF True turn] split: outcome.splits)
    note IH = "1.IH" [OF True turn [symmetric] j]
    note reads = refresh_turn_reads [OF turn]
    have since: "since \<le> clock_reads s1" using reads "1.prems"(3) by (auto split: if_splits)
    show ?thesis
    proof (cases rule: refresh_turn_effect [OF turn True])
      case 1
      from 1(2) [OF j(1)] have next_pos: "j = Suc i" and fresh: "found_fresh P (clock_reads s) (entries (contacts s) ! i)"
        by (auto simp: found_fresh_def)
      have "clock_reads s1 = clock_reads s + timed [entries (contacts s) ! i]"
        using reads fresh by (auto simp: timed_def found_fresh_def split: if_splits)
      from passed_next [OF "1.prems"(2) True "1.prems"(3) 1(1) fresh this] show ?thesis
        using IH since True 1(1) next_pos by simp
    next
      case 2
      from 2(4) [OF j(1)] have "j = 1" "entries (contacts s1) \<noteq> []" by auto
      moreover have "length (entries (contacts s1)) < len"
        using 2(1) True "1.prems"(2) by (auto simp: passed_def Let_def length_erase_at)
      ultimately show ?thesis using IH since by (auto simp: passed_def Let_def Suc_le_eq)
    qed
  qed
qed

section \<open>The backup\<close>

text \<open>
  A contact that is not silent at a reading of the clock and whose key and endpoint the engine can be given.
\<close>

definition to_backup :: "platform \<Rightarrow> nat \<Rightarrow> nat \<times> contact_proto \<Rightarrow> bool" where
  "to_backup P n e \<longleftrightarrow> fst e \<noteq> KEY_SIZE \<and> silent_for (clock_at P n) (snd e) \<le> minutes PERIODIC \<and>
     sql_literal (contact_key (snd e)) \<and> sql_literal (endpoint_to_string (contact_ep (snd e)))"

definition backup_entry :: "nat \<times> contact_proto \<Rightarrow> string \<times> string" where
  "backup_entry e = (contact_key (snd e), endpoint_to_string (contact_ep (snd e)))"

lemma endpoint_text_not_empty: "endpoint_to_string e \<noteq> []"
  by (simp add: endpoint_to_string_def)

lemma refresh_turn_saves:
  assumes "to_backup P (clock_reads s) (entries (contacts s) ! i)" and "kv_ok (backup_engine P) (backup s)"
    and "[] \<notin> ran (kv_map (backup s))"
  shows "\<exists>b. refresh_turn P i s = (Ok (Suc i), s\<lparr>clock_reads := Suc (clock_reads s), backup := b\<rparr>) \<and>
    kv_ok (backup_engine P) b \<and>
    kv_map b = (kv_map (backup s))(fst (backup_entry (entries (contacts s) ! i)) \<mapsto>
      snd (backup_entry (entries (contacts s) ! i)))"
proof -
  let ?e = "entries (contacts s) ! i"
  let ?key = "contact_key (snd ?e)" and ?ep = "endpoint_to_string (contact_ep (snd ?e))"
  have "kv_map (backup s) ?key \<noteq> Some []" using assms(3) by (auto simp: ran_def)
  from kv.refresh_law [OF assms(2) _ _ endpoint_text_not_empty this, where other = "backup_other P"] assms(1)
  obtain b where b: "backup_refresh (kv_find (backup_engine P) (backup_other P))
      (kv_remove (backup_engine P) (backup_other P)) (kv_insert (backup_engine P) (backup_other P)) ?key ?ep
      (backup s) = (Ok (), b)" "kv_ok (backup_engine P) b" "kv_map b = (kv_map (backup s))(?key \<mapsto> ?ep)"
    unfolding to_backup_def by blast
  have "\<not> silent_for (clock_at P (clock_reads s)) (snd ?e) > minutes PERIODIC" "fst ?e \<noteq> KEY_SIZE"
    using assms(1) by (simp_all add: to_backup_def not_less)
  then have "refresh_turn P i s = (Ok (Suc i), s\<lparr>clock_reads := Suc (clock_reads s), backup := b\<rparr>)"
    using b(1) by (simp add: refresh_turn_def Let_def update_time_bnd silent_for_def)
      (simp add: bnd_run ret_run on_backup_def on_part_run)
  with b(2,3) show ?thesis by (auto simp: backup_entry_def)
qed

lemma refresh_loop_saves:
  assumes "\<forall>j < n. to_backup P (clock_reads s + j) (entries (contacts s) ! (i + j))" and "kv_ok (backup_engine P) (backup s)"
    and "[] \<notin> ran (kv_map (backup s))" and "n = length (entries (contacts s)) - i"
  shows "\<exists>s'. refresh_loop P i s = (Ok (), s') \<and> contacts s' = contacts s \<and> kv_ok (backup_engine P) (backup s') \<and>
    kv_map (backup s') = kv_map (backup s) ++ map_of (rev (map backup_entry (drop i (entries (contacts s)))))"
  using assms
proof (induction n arbitrary: i s)
  case 0
  then show ?case by (subst refresh_loop.simps) simp
next
  case (Suc n)
  then have i: "i < length (entries (contacts s))" by simp
  then have split: "drop i (entries (contacts s)) = entries (contacts s) ! i # drop (Suc i) (entries (contacts s))"
    by (rule Cons_nth_drop_Suc [symmetric])
  have "to_backup P (clock_reads s) (entries (contacts s) ! i)" using Suc.prems(1) by (metis add_0_right zero_less_Suc)
  from refresh_turn_saves [OF this Suc.prems(2,3)] obtain b where
    b: "refresh_turn P i s = (Ok (Suc i), s\<lparr>clock_reads := Suc (clock_reads s), backup := b\<rparr>)"
      "kv_ok (backup_engine P) b"
      "kv_map b = (kv_map (backup s))(fst (backup_entry (entries (contacts s) ! i)) \<mapsto>
        snd (backup_entry (entries (contacts s) ! i)))" by blast
  define s1 where "s1 = s\<lparr>clock_reads := Suc (clock_reads s), backup := b\<rparr>"
  have s1: "contacts s1 = contacts s" "backup s1 = b" by (simp_all add: s1_def)
  have rest: "\<forall>j < n. to_backup P (clock_reads s1 + j) (entries (contacts s1) ! (Suc i + j))"
  proof (intro allI impI)
    fix j assume "j < n"
    then show "to_backup P (clock_reads s1 + j) (entries (contacts s1) ! (Suc i + j))"
      using Suc.prems(1) [rule_format, of "Suc j"] by (simp add: s1_def)
  qed
  have "[] \<notin> ran (kv_map b)"
    unfolding b(3) using Suc.prems(3) endpoint_text_not_empty
    by (auto simp: ran_def backup_entry_def split: if_splits)
  moreover have left: "n = length (entries (contacts s1)) - Suc i" using Suc.prems(4) s1(1) by simp
  ultimately obtain s' where s': "refresh_loop P (Suc i) s1 = (Ok (), s')" "contacts s' = contacts s1"
    "kv_ok (backup_engine P) (backup s')"
    "kv_map (backup s') = kv_map (backup s1) ++ map_of (rev (map backup_entry (drop (Suc i) (entries (contacts s1)))))"
    using Suc.IH [OF rest] b(2) s1 by auto
  have "refresh_loop P i s = (Ok (), s')"
    using s'(1) by (subst refresh_loop.simps) (simp add: i b(1) s1_def)
  moreover have "kv_map (backup s') = kv_map (backup s) ++ map_of (rev (map backup_entry (drop i (entries (contacts s)))))"
    unfolding s'(4) s1 b(3) split by (simp add: fun_eq_iff map_add_def split: option.split)
  ultimately show ?case using s'(2,3) unfolding s1(1) by blast
qed

section \<open>An example\<close>

definition demo_table :: bucket where
  "demo_table = (new_bucket ''02'')\<lparr>entries := [(bucket_common (new_bucket ''02'') ''01'',
     \<lparr>contact_key = ''01'', contact_ep = Endpoint ''h'' ''1'', contact_time = Some 0\<rparr>)]\<rparr>"

lemma demo_table_ok: "bucket_ok demo_table"
  by (simp add: bucket_ok_def demo_table_def entry_ok_def new_bucket_def bucket_common_def good_ep_def
      has_time_def mm_count_def BUCKET_SIZE_def)

lemma demo_table_common: "bucket_common (new_bucket ''02'') ''01'' \<noteq> KEY_SIZE"
  using demo_keys_differ common_bits_full_iff [of "string_to_key ''02''" "string_to_key ''01''"]
  by (auto simp: bucket_common_def new_bucket_def KEY_SIZE_def)

lemma demo_backup: "kv_ok demo_engine (backup demo_start)" "kv_map (backup demo_start) = Map.empty"
  by (simp_all add: demo_start_def demo_run_simps kv_ok_def db_ready_def kv_map_def demo_engine_ok [unfolded demo_engine_def])
text \<open>The platform with a clock that stands still.\<close>

definition still_platform :: platform where
  "still_platform = demo_platform\<lparr>clock_at := \<lambda>n. 0\<rparr>"

lemma still_minutes: "minutes PERIODIC = 300000000"
  by (simp add: minutes_id PERIODIC_def)

lemma still_silent: "contact_time c = Some 0 \<Longrightarrow> silent_for (clock_at still_platform n) c = 0"
  by (simp add: silent_for_def time_diff_from still_platform_def get_time_def ticks_def)

lemma demo_table_saves:
  "\<forall>j < length (entries demo_table). to_backup still_platform (k + j) (entries demo_table ! j)"
  using demo_table_common
  by (simp add: demo_table_def to_backup_def still_silent still_minutes sql_literal_def endpoint_to_string_def)

section \<open>Properties\<close>

text \<open>
  C18 (only silent contacts are forgotten): whatever the outcome, the refresh leaves the contacts in
  their order, and each one it removes had been silent for more than \<open>PERIODIC\<close> minutes at a reading of the
  clock that this refresh made.  Where it returns, every contact but the first, and the first one too if
  none was removed, was not silent at the reading that its last turn made: turns are made in the order of
  the table, one reading each, up to the end, and the last bucket has none.  The table is not empty unless
  it was: the contact that would be the last to go makes the loop step back from the end, which is undefined.
\<close>

theorem refresh_forgets_only_silent_contacts:
  assumes "refresh_loop P 0 s = (r, s')"
  defines "es \<equiv> entries (contacts s)" and "es' \<equiv> entries (contacts s')"
  shows "subseq es' es \<and>
    (\<forall>e \<in> set es - set es'. fst e \<noteq> KEY_SIZE \<and>
      (\<exists>n \<in> {clock_reads s..<clock_reads s'}. silent_for (clock_at P n) (snd e) > minutes PERIODIC)) \<and>
    (r = Ok () \<longrightarrow> (es \<noteq> [] \<longrightarrow> es' \<noteq> []) \<and>
      (\<forall>j < length es'. fst (es' ! j) \<noteq> KEY_SIZE \<and> (1 \<le> j \<or> length es' = length es) \<longrightarrow>
        (let turns = length (filter (\<lambda>e. fst e \<noteq> KEY_SIZE) (drop j es')) in
          clock_reads s + turns \<le> clock_reads s' \<and>
          silent_for (clock_at P (clock_reads s' - turns)) (snd (es' ! j)) \<le> minutes PERIODIC)))"
proof -
  have gone: "subseq es' es" "\<forall>e \<in> set es - set es'. found_silent P (clock_reads s) (clock_reads s') e"
    using refresh_loop_forgets [of P 0 s] by (simp_all add: assms)
  have start: "passed P (length es) (clock_reads s) 0 s" by (simp add: passed_def es_def Let_def)
  have "(es \<noteq> [] \<longrightarrow> es' \<noteq> []) \<and> passed P (length es) (clock_reads s) (length es') s'" if "r = Ok ()"
    using refresh_loop_ends [OF _ start order.refl le0, of s'] assms(1) that by (simp add: es_def es'_def)
  with gone show ?thesis
    unfolding found_silent_def passed_def found_fresh_def timed_def Let_def es'_def [symmetric] by auto
qed

text \<open>
  C22 (the backup mirrors the table): where no contact is silent, the refresh leaves the table as it is
  and the backup maps the key of every contact to its endpoint, and every other key as before.
\<close>

theorem backup_mirrors_the_table:
  assumes "bucket_ok (contacts s)"
    and "\<forall>j < length (entries (contacts s)). to_backup P (clock_reads s + j) (entries (contacts s) ! j)"
    and "kv_ok (backup_engine P) (backup s)" and "[] \<notin> ran (kv_map (backup s))"
  shows "\<exists>s'. refresh_loop P 0 s = (Ok (), s') \<and> contacts s' = contacts s \<and>
    (\<forall>k. kv_map (backup s') k = (case contact_map (contacts s) k of
        Some c \<Rightarrow> Some (endpoint_to_string (contact_ep c)) | None \<Rightarrow> kv_map (backup s) k))"
proof -
  let ?es = "entries (contacts s)"
  from refresh_loop_saves [of "length ?es" P s 0, OF _ assms(3,4)] assms(2)
  obtain s' where s': "refresh_loop P 0 s = (Ok (), s')" "contacts s' = contacts s"
    "kv_map (backup s') = kv_map (backup s) ++ map_of (rev (map backup_entry ?es))" by auto
  have dist: "distinct (map fst (map backup_entry ?es))"
    using assms(1) by (simp add: bucket_ok_def backup_entry_def comp_def)
  have "map_of (rev (map backup_entry ?es)) k = map_option (\<lambda>c. endpoint_to_string (contact_ep c)) (contact_map (contacts s) k)" for k
  proof -
    have rev: "map_of (rev (map backup_entry ?es)) = map_of (map backup_entry ?es)"
      using dist by (subst map_of_inject_set) (simp_all add: rev_map [symmetric])
    have "map backup_entry ?es = map (\<lambda>(k, c). (k, endpoint_to_string (contact_ep c)))
        (map (\<lambda>e. (contact_key (snd e), snd e)) ?es)"
      by (simp add: backup_entry_def)
    then show ?thesis unfolding rev contact_map_def contact_map_of_def by (simp only: map_of_map) simp
  qed
  with s' show ?thesis by (auto simp: map_add_def split: option.split)
qed

text \<open>A table of two contacts at a time when the second one has been silent for more than an hour.\<close>

definition late_platform :: platform where
  "late_platform = demo_platform\<lparr>clock_at := \<lambda>n. 4000000000\<rparr>"

definition heard_at :: "string \<Rightarrow> 64 word \<Rightarrow> nat \<times> contact_proto" where
  "heard_at k t = (bucket_common (new_bucket ''02'') ''h'',
     \<lparr>contact_key = k, contact_ep = Endpoint ''h'' ''1'', contact_time = Some t\<rparr>)"

definition late_node :: node where
  "late_node = demo_start\<lparr>contacts := (new_bucket ''02'')\<lparr>entries := [heard_at ''h'' 4000, heard_at ''i'' 0]\<rparr>\<rparr>"

lemma late_silent: "silent_for (clock_at late_platform n) (snd (heard_at k t)) = ticks (4000000000 - sint t * 1000000)"
  by (simp add: silent_for_def time_diff_from late_platform_def get_time_def heard_at_def)

lemma late_common: "bucket_common (new_bucket ''02'') ''i'' = bucket_common (new_bucket ''02'') ''h''"
  "bucket_common (new_bucket ''02'') ''h'' \<noteq> KEY_SIZE"
proof -
  have same: "string_to_key ''h'' = string_to_key ''i''"
    using no_digit_key [of "CHR ''h''"] no_digit_key [of "CHR ''i''"] by simp
  then show "bucket_common (new_bucket ''02'') ''i'' = bucket_common (new_bucket ''02'') ''h''"
    by (simp add: bucket_common_def)
  have "\<not> bit (string_to_key ''h'') 1" and "bit (string_to_key ''02'') 1"
    using read_digest_head [of "''h''"] read_digest_head [of "''02''"]
    by (simp_all add: bit_string_to_key byte_texts)
  then have "string_to_key ''02'' \<noteq> string_to_key ''h''" by metis
  then show "bucket_common (new_bucket ''02'') ''h'' \<noteq> KEY_SIZE"
    using common_bits_full_iff [of "string_to_key ''02''" "string_to_key ''h''"]
    by (simp add: bucket_common_def new_bucket_def KEY_SIZE_def)
qed

lemma late_table_ok: "bucket_ok (contacts late_node)"
  using late_common
  by (simp add: late_node_def demo_start_state bucket_ok_def entry_ok_def heard_at_def good_ep_def has_time_def
      mm_count_def BUCKET_SIZE_def) (simp add: bucket_common_def new_bucket_def)

text \<open>On a platform that finds every name and writes short messages, a ping to a key returns.\<close>

lemma send_to_returns:
  assumes "good_ep epp" and "resolve P (lookups s) epp = Inr uep" and "ip_text uep \<noteq> []"
    and "length (serialize P m) \<le> max_body_length"
  shows "fst (send_to P m epp s) = Ok ()"
proof -
  obtain c where "message_packet (listen_port s) (serialize P m) = Ok c"
    using message_packet_data [OF assms(4)] by blast
  then show ?thesis
    using assms(1-3) by (auto simp: send_to_def good_ep_def bnd_run assert_run swallow_def try_std_run
        proto_to_endpoint_def lift_outcome_run endpoint_to_proto_good reads_run deliver_packet_def emit_def writes_run
        split: option.split)
qed

lemma ping_key_returns:
  assumes "\<And>n e. good_ep e \<Longrightarrow> \<exists>uep. resolve P n e = Inr uep \<and> ip_text uep \<noteq> []"
    and "\<And>m. length (serialize P m) \<le> max_body_length" and "bucket_ok (contacts s)" and "k \<noteq> zero_key_text"
  shows "fst (ping_key P k s) = Ok ()"
proof -
  have "fst (send_message P m s') = Ok () \<or> (\<exists>e. fst (send_message P m s') = Throw (Std_exception e))"
    if "to_id m = k" and "contacts s' = contacts s" for m s'
  proof (cases "find_key (contacts s) k < length (entries (contacts s))")
    case True
    then have "entries (contacts s) ! find_key (contacts s) k \<in> set (entries (contacts s))" by simp
    then have "good_ep (contact_ep (snd (entries (contacts s) ! find_key (contacts s) k)))"
      using assms(3) by (auto simp: bucket_ok_def entry_ok_def)
    with send_to_returns assms(1,2) show ?thesis
      using that assms(4) True by (simp add: send_message_def assert_key_def assert_run bnd_run Let_def) blast
  next
    case False
    then have "find_key (contacts s) k = length (entries (contacts s))"
      using find_key_cases [OF assms(3), of k] by (metis less_irrefl)
    then show ?thesis
      using that assms(4) by (simp add: send_message_def assert_key_def assert_run bnd_run Let_def)
  qed
  moreover define t :: token where "t = random_bitset (random_at P) (random_calls s)"
  moreover define s1 where "s1 = s\<lparr>random_calls := random_calls s + TOKEN_SIZE, clock_reads := Suc (clock_reads s),
      ping_ttl := omap_put t (clock_at P (clock_reads s)) (ping_ttl s)\<rparr>"
  moreover define m where "m = (new_message SEND_PING (node_id s) t)\<lparr>to_id_opt := Some k\<rparr>"
  moreover have "to_id m = k" "contacts s1 = contacts s" by (simp_all add: m_def s1_def to_id_def)
  ultimately have "fst (send_message P m s1) = Ok () \<or> (\<exists>e. fst (send_message P m s1) = Throw (Std_exception e))"
    by blast
  moreover have "ping_key P k s = swallow (send_message P m) s1"
    using assms(4) by (simp add: ping_key_def send_PING_key_def assert_key_def assert_run bnd_run random_token_def
        swallow_def try_std_run update_time_def set_ping_ttl_def writes_run reads_run t_def s1_def m_def)
  ultimately show ?thesis by (cases "send_message P m s1") (auto simp: swallow_def try_std_run ret_run)
qed

lemma refresh_turn_forgets:
  assumes "fst (entries (contacts s) ! i) \<noteq> KEY_SIZE" and "i < length (entries (contacts s))"
    and "silent_for (clock_at P (clock_reads s)) (snd (entries (contacts s) ! i)) > minutes PERIODIC"
    and "\<And>s'. contacts s' = contacts s \<Longrightarrow> fst (ping_key P (contact_key (snd (entries (contacts s) ! i))) s') = Ok ()"
    and "kv_ok (backup_engine P) (backup s)" and "sql_literal (contact_key (snd (entries (contacts s) ! i)))"
    and "1 < length (entries (contacts s))"
  shows "\<exists>s'. refresh_turn P i s = (Ok 1, s') \<and> entries (contacts s') = erase_at i (entries (contacts s))"
proof -
  let ?key = "contact_key (snd (entries (contacts s) ! i))"
  define s1 where "s1 = s\<lparr>clock_reads := Suc (clock_reads s)\<rparr>"
  obtain s2 where s2: "ping_key P ?key s1 = (Ok (), s2)" using assms(4) [of s1] by (cases "ping_key P ?key s1") (simp add: s1_def)
  have "node_core s2 = node_core s1" using core_same [OF core_sends(4) [where P = P and k = ?key], of s1] s2 by simp
  from same_core [OF this] have same: "contacts s2 = contacts s" "backup s2 = backup s" by (simp_all add: s1_def)
  obtain b where b: "kv_remove (backup_engine P) (backup_other P) ?key (backup s) = (Ok (), b)"
    using kv.remove_law [OF assms(5,6)] by blast
  have "erase_at i (entries (contacts s)) \<noteq> []"
    using assms(7) length_erase_at [OF assms(2)] by (metis add.left_neutral diff_is_0_eq less_diff_conv list.size(3) not_less)
  then show ?thesis
    using assms(1,3) s2 same b
    by (simp add: refresh_turn_def Let_def update_time_bnd silent_for_def s1_def [symmetric])
      (simp add: bnd_run on_backup_def on_part_run Let_def)
qed

lemma late_run:
  "\<exists>s'. refresh_loop late_platform 0 late_node = (Ok (), s') \<and> length (entries (contacts s')) = 1"
proof -
  let ?P = late_platform and ?es = "[heard_at ''h'' 4000, heard_at ''i'' 0]"
  have P: "backup_engine ?P = demo_engine" "backup_other ?P = no_text" by (simp_all add: late_platform_def demo_platform_simps)
  have es: "entries (contacts late_node) = ?es" by (simp add: late_node_def)
  have kv: "kv_ok (backup_engine ?P) (backup late_node)" "[] \<notin> ran (kv_map (backup late_node))"
    using demo_backup by (simp_all add: P late_node_def)
  have timed: "fst (heard_at k t) \<noteq> KEY_SIZE" for k t using late_common(2) by (simp add: heard_at_def)
  have "to_backup ?P (clock_reads late_node) (entries (contacts late_node) ! 0)"
    unfolding es using timed by (simp add: to_backup_def late_silent still_minutes ticks_id)
      (simp add: heard_at_def sql_literal_def endpoint_to_string_def)
  from refresh_turn_saves [OF this kv] obtain b where
    b: "refresh_turn ?P 0 late_node = (Ok (Suc 0), late_node\<lparr>clock_reads := Suc (clock_reads late_node), backup := b\<rparr>)"
      "kv_ok (backup_engine ?P) b" by blast
  define s1 where "s1 = late_node\<lparr>clock_reads := Suc (clock_reads late_node), backup := b\<rparr>"
  have s1: "entries (contacts s1) = ?es" "contacts s1 = contacts late_node" "backup s1 = b" by (simp_all add: s1_def es)
  have ping: "fst (ping_key ?P ''i'' s') = Ok ()" if "contacts s' = contacts s1" for s'
  proof (rule ping_key_returns)
    show "\<exists>uep. resolve ?P n e = Inr uep \<and> ip_text uep \<noteq> []" if "good_ep e" for n e
      using that by (simp add: late_platform_def demo_platform_simps good_ep_def)
    show "length (serialize ?P m) \<le> max_body_length" for m
      by (simp add: late_platform_def demo_platform_simps max_body_length_def PACKET_SIZE_def header_length_def)
    show "bucket_ok (contacts s')" using that late_table_ok by (simp add: s1(2))
    have "length zero_key_text = 64" by (simp add: zero_key_text_def length_key_to_string)
    moreover have "length ''i'' \<noteq> 64" by simp
    ultimately show "''i'' \<noteq> zero_key_text" by metis
  qed
  have "silent_for (clock_at ?P n) (snd (heard_at ''i'' 0)) > minutes PERIODIC" for n
    by (simp add: late_silent still_minutes ticks_id)
  with ping timed b(2) obtain s2 where s2: "refresh_turn ?P 1 s1 = (Ok 1, s2)" "entries (contacts s2) = erase_at 1 ?es"
    using refresh_turn_forgets [of s1 1 ?P] by (auto simp: s1 es heard_at_def sql_literal_def)
  have "entries (contacts s2) = [heard_at ''h'' 4000]" by (simp add: s2(2) erase_at_def)
  moreover from this have "refresh_loop ?P 1 s2 = (Ok (), s2)" by (subst refresh_loop.simps) simp
  moreover have "refresh_loop ?P 1 s1 = refresh_loop ?P 1 s2"
    using refresh_loop_run [OF _ s2(1)] by (simp add: s1(1))
  moreover have "refresh_loop ?P 0 late_node = refresh_loop ?P 1 s1"
    using refresh_loop_run [OF _ b(1)] by (simp add: es s1_def)
  ultimately show ?thesis by simp
qed

theorem refresh_forgets_only_silent_contacts_witness:
  "\<exists>s'. refresh_loop late_platform 0 late_node = (Ok (), s') \<and> entries (contacts s') = [heard_at ''h'' 4000]"
proof -
  obtain s' where run: "refresh_loop late_platform 0 late_node = (Ok (), s')" and one: "length (entries (contacts s')) = 1"
    using late_run by blast
  have es: "entries (contacts late_node) = [heard_at ''h'' 4000, heard_at ''i'' 0]" by (simp add: late_node_def)
  note claim = refresh_forgets_only_silent_contacts [OF run, unfolded es]
  have "\<not> silent_for (clock_at late_platform n) (snd (heard_at ''h'' 4000)) > minutes PERIODIC" for n
    by (simp add: late_silent still_minutes ticks_id)
  with claim have "heard_at ''h'' 4000 \<in> set (entries (contacts s'))" by auto
  with one have "entries (contacts s') = [heard_at ''h'' 4000]" by (cases "entries (contacts s')") auto
  with run show ?thesis by blast
qed

theorem backup_mirrors_the_table_witness:
  "\<exists>s'. refresh_loop still_platform 0 (demo_start\<lparr>contacts := demo_table\<rparr>) = (Ok (), s') \<and>
     kv_map (backup s') ''01'' = Some ''h:1''"
proof -
  let ?s = "demo_start\<lparr>contacts := demo_table\<rparr>"
  have "bucket_ok (contacts ?s)" "\<forall>j < length (entries (contacts ?s)). to_backup still_platform (clock_reads ?s + j) (entries (contacts ?s) ! j)"
    "kv_ok (backup_engine still_platform) (backup ?s)" "[] \<notin> ran (kv_map (backup ?s))"
    using demo_table_ok demo_table_saves demo_backup
    by (simp_all add: still_platform_def demo_platform_simps)
  from backup_mirrors_the_table [OF this] obtain s' where
    s': "refresh_loop still_platform 0 ?s = (Ok (), s')"
      "\<forall>k. kv_map (backup s') k = (case contact_map demo_table k of
        Some c \<Rightarrow> Some (endpoint_to_string (contact_ep c)) | None \<Rightarrow> kv_map (backup ?s) k)" by auto
  from s'(2) have "kv_map (backup s') ''01'' = Some ''h:1''"
    by (simp add: contact_map_def contact_map_of_def demo_table_def endpoint_to_string_def)
  with s'(1) show ?thesis by blast
qed

end
