(* ===== verification/Node_Records.thy ===== *)
theory Node_Records
  imports Node_Properties
begin

text \<open>
  The records of the network at one node: what a received store keeps, what a search for a value is
  answered with, and what the answer to the node's own search does (\<open>Sources/miniDHT.cpp\<close>).
\<close>

section \<open>The store of a node\<close>

abbreviation records :: "node \<Rightarrow> store_row list" where
  "records s \<equiv> data_rows (storage s)"

definition storage_ok :: "platform \<Rightarrow> node \<Rightarrow> bool" where
  "storage_ok P s \<longleftrightarrow> data_ok (storage_engine P) (storage s) \<and> 1 \<le> max_records s \<and> max_records s < 2 ^ 31"

lemma storage_ok_calls:
  "storage_ok P s \<Longrightarrow> storage_ok P (s\<lparr>storage := (storage s)\<lparr>calls := n\<rparr>\<rparr>)"
  by (simp add: storage_ok_def data_ok_calls)

lemma node_count_run:
  assumes "storage_ok P s" and "sql_literal k"
  shows "on_storage (data_count (storage_engine P) (storage_other P) k) s =
    (Ok (length (of_key k (records s))), s\<lparr>storage := (storage s)\<lparr>calls := Suc (calls (storage s))\<rparr>\<rparr>)"
  using assms by (simp add: storage_ok_def on_storage_def on_part_run data_count_run of_key_def)

lemma of_key_empty: "of_key k rows = [] \<Longrightarrow> (k, ti) \<notin> (\<lambda>r. fst (snd r)) ` set rows"
  by (auto simp: of_key_def filter_empty_conv)

text \<open>Storing the first record of a key.\<close>

lemma insert_db_first:
  assumes "storage_ok P s" and "sql_literal k" and "sql_literal (title d)" and "of_key k (records s) = []"
  shows "\<exists>st i old. insert_db P k d s = (Ok (), s\<lparr>storage := st\<rparr>) \<and>
    storage_ok P (s\<lparr>storage := st\<rparr>) \<and>
    data_rows st = old @ [(i, (k, title d), (sint (time d), sint (ttl d), data d))] \<and>
    set old \<subseteq> set (records s)"
proof -
  define s1 where "s1 = s\<lparr>storage := (storage s)\<lparr>calls := Suc (calls (storage s))\<rparr>\<rparr>"
  have s1: "storage_ok P s1" "records s1 = records s" "max_records s1 = max_records s"
    using storage_ok_calls [OF assms(1)] by (simp_all add: s1_def)
  have "(k, title d) \<notin> (\<lambda>r. fst (snd r)) ` set (records s1)"
    unfolding s1(2) by (rule of_key_empty [OF assms(4)])
  with s1(1) store.insert_with_room [of "storage_engine P" "storage s1" "max_records s" k "title d"
      "storage_other P" "sint (time d)" "sint (ttl d)" "data d"] assms(2,3)
  obtain st i old where st: "thn (evict (data_size (storage_engine P) (storage_other P))
        (data_remove_oldest (storage_engine P) (storage_other P)) (max_records s))
      (data_insert (storage_engine P) (storage_other P) k (title d) (sint (time d)) (sint (ttl d)) (data d))
      (storage s1) = (Ok (), st)" "data_ok (storage_engine P) st"
    "data_rows st = old @ [(i, (k, title d), (sint (time d), sint (ttl d), data d))]"
    "set old \<subseteq> set (records s1)"
    unfolding storage_ok_def s1(3) by blast
  have "insert_db P k d s = thn (on_storage (evict (data_size (storage_engine P) (storage_other P))
        (data_remove_oldest (storage_engine P) (storage_other P)) (max_records s)))
      (on_storage (data_insert (storage_engine P) (storage_other P) k (title d) (sint (time d)) (sint (ttl d)) (data d))) s1"
    using assms by (simp add: insert_db_def Let_def bnd_run node_count_run s1_def reads_run)
  also have "\<dots> = (Ok (), s1\<lparr>storage := st\<rparr>)"
    using st(1) by (auto simp: bnd_run on_storage_def on_part_run split: prod.splits outcome.splits)
  finally have "insert_db P k d s = (Ok (), s\<lparr>storage := st\<rparr>)" by (simp add: s1_def)
  moreover have "storage_ok P (s\<lparr>storage := st\<rparr>)" using st(2) assms(1) by (simp add: storage_ok_def)
  ultimately show ?thesis using st(3,4) s1(2) by metis
qed

lemma storage_core: "keeps_core (node_core s) m \<Longrightarrow> storage (snd (m s)) = storage s"
  by (rule same_core(4) [OF core_same])

lemma handle_SEND_STORE_storage:
  assumes "storage_ok P s" and "sql_literal (to_id m)" and "sql_literal (title (data_item m))"
    and "of_key (to_id m) (records s) = []"
  shows "\<exists>i old now. records (snd (handle_SEND_STORE P m s)) =
      old @ [(i, (to_id m, title (data_item m)), (now, sint (ttl (data_item m)), data (data_item m)))] \<and>
    set old \<subseteq> set (records s) \<and> storage_ok P (snd (handle_SEND_STORE P m s))"
proof -
  let ?d = "(data_item m)\<lparr>time := word_of_int (to_time_t (clock_at P (clock_reads s)))\<rparr>"
  let ?s = "s\<lparr>clock_reads := Suc (clock_reads s)\<rparr>"
  have pre: "storage_ok P ?s" "sql_literal (title ?d)" "of_key (to_id m) (records ?s) = []"
    using assms by (simp_all add: storage_ok_def)
  from insert_db_first [OF pre(1) assms(2) pre(2,3)] obtain st i old where
    st: "insert_db P (to_id m) ?d ?s = (Ok (), ?s\<lparr>storage := st\<rparr>)" "storage_ok P (?s\<lparr>storage := st\<rparr>)"
      "data_rows st = old @ [(i, (to_id m, title ?d), (sint (time ?d), sint (ttl ?d), data ?d))]"
      "set old \<subseteq> set (records ?s)" by blast
  have run: "handle_SEND_STORE P m s = reply_STORE P (from_id m) (token_of m) ?d (?s\<lparr>storage := st\<rparr>)"
    by (simp add: handle_SEND_STORE_def update_time_bnd Let_def) (simp add: bnd_run st(1))
  have core: "node_core (snd (handle_SEND_STORE P m s)) = node_core (?s\<lparr>storage := st\<rparr>)"
    unfolding run by (rule core_same) (rule core_replies)
  have "storage (snd (handle_SEND_STORE P m s)) = st" and "max_records (snd (handle_SEND_STORE P m s)) = max_records s"
    using same_core(4,8) [OF core] by simp_all
  then show ?thesis using st(2,3,4) by (auto simp: storage_ok_def)
qed

text \<open>What a search for a value is answered with: the records under the key of the one who asks.\<close>

lemma handle_SEND_FIND_VALUE_run:
  assumes "storage_ok P s" and "sql_literal (to_id m)" and "sql_literal (from_id m)"
    and "from_id m \<noteq> zero_key_text" and "of_key (to_id m) (records s) \<noteq> []"
    and "of_key (from_id m) (records s) = []"
  shows "\<exists>st. handle_SEND_FIND_VALUE P m s = (Ok (), s\<lparr>storage := st\<rparr>) \<and> data_rows st = records s"
proof -
  let ?s = "s\<lparr>storage := (storage s)\<lparr>calls := Suc (calls (storage s))\<rparr>\<rparr>"
  have "data_ok (storage_engine P) (storage ?s)"
    using assms(1) storage_ok_calls unfolding storage_ok_def by fastforce
  from data_find_run [OF this assms(3), of "storage_other P" "[]"] assms(6)
  have find: "data_find (storage_engine P) (storage_other P) (from_id m) [] (storage ?s) =
      (Ok [], (storage ?s)\<lparr>calls := Suc (calls (storage ?s))\<rparr>)" by auto
  have "handle_SEND_FIND_VALUE P m s = reply_FIND_VALUE P (from_id m) (token_of m) (hint_of m) ?s"
    using assms(5) by (simp add: handle_SEND_FIND_VALUE_def bnd_run node_count_run [OF assms(1,2)])
  also have "\<dots> = (Ok (), ?s\<lparr>storage := (storage ?s)\<lparr>calls := Suc (calls (storage ?s))\<rparr>\<rparr>)"
    using assms(4) find
    by (simp add: reply_FIND_VALUE_def assert_key_def swallow_def cpp_simps on_storage_def Let_def new_message_def)
  finally show ?thesis by auto
qed

section \<open>Properties\<close>

text \<open>
  C26 (a stored value is not found): a store keeps the record under the key the message is addressed
  to, the node's own, whatever key it is a record of; a search for a value that reaches the node looks
  for records under the node's own key, and answers with the ones under the key of the node that asks.
  So after a first store, a search for its key by a node that has no record under its own key, which
  is every node nobody stored at under that name, is not answered at all.
\<close>

theorem stored_value_is_not_found:
  assumes "storage_ok P s" and "sql_literal (to_id m)" and "sql_literal (title (data_item m))"
    and "of_key (to_id m) (records s) = []"
    and "to_id q = to_id m" and "sql_literal (from_id q)" and "from_id q \<noteq> zero_key_text"
    and "from_id q \<noteq> to_id m" and "of_key (from_id q) (records s) = []"
  defines "s1 \<equiv> snd (handle_SEND_STORE P m s)"
  shows "(\<exists>r. of_key (to_id m) (records s1) = [r] \<and> snd (snd (snd (snd r))) = data (data_item m)) \<and>
    (\<forall>k. k \<noteq> to_id m \<longrightarrow> set (of_key k (records s1)) \<subseteq> set (of_key k (records s))) \<and>
    (\<exists>s2. handle_SEND_FIND_VALUE P q s1 = (Ok (), s2) \<and> outbox s2 = outbox s1 \<and> records s2 = records s1)"
proof -
  from handle_SEND_STORE_storage [OF assms(1-4)] obtain i old now where
    rows: "records s1 = old @ [(i, (to_id m, title (data_item m)), (now, sint (ttl (data_item m)), data (data_item m)))]"
      "set old \<subseteq> set (records s)" "storage_ok P s1" unfolding s1_def by blast
  have sub: "set (of_key k old) \<subseteq> set (of_key k (records s))" for k
    using rows(2) by (auto simp: of_key_def)
  then have "of_key (to_id m) old = []" using assms(4) by (metis set_empty subset_empty)
  then have own: "of_key (to_id m) (records s1) =
      [(i, (to_id m, title (data_item m)), (now, sint (ttl (data_item m)), data (data_item m)))]"
    unfolding rows(1) by (simp add: of_key_def)
  have other: "of_key k (records s1) = of_key k old" if "k \<noteq> to_id m" for k
    using that unfolding rows(1) by (simp add: of_key_def)
  then have "set (of_key k (records s1)) \<subseteq> set (of_key k (records s))" if "k \<noteq> to_id m" for k
    using sub that by metis
  moreover have "of_key (from_id q) (records s1) = []"
    using other [OF assms(8)] sub [of "from_id q"] assms(9) by simp
  with handle_SEND_FIND_VALUE_run [OF rows(3), of q] own assms(2,5-7)
  obtain st where "handle_SEND_FIND_VALUE P q s1 = (Ok (), s1\<lparr>storage := st\<rparr>)" "data_rows st = records s1"
    by auto
  ultimately show ?thesis using own by fastforce
qed

theorem stored_value_is_not_found_witness:
  "\<exists>s m. query_id_opt m = Some ''key'' \<and> length (of_key ''01'' (records (snd (handle_SEND_STORE demo_platform m s)))) = 1 \<and>
     fst (handle_SEND_FIND_VALUE demo_platform ((new_message SEND_FIND_VALUE ''02'' 9)
       \<lparr>to_id_opt := Some ''01'', query_id_opt := Some ''key''\<rparr>) (snd (handle_SEND_STORE demo_platform m s))) = Ok ()"
proof -
  let ?m = "(new_message SEND_STORE ''02'' 8)\<lparr>to_id_opt := Some ''01'', query_id_opt := Some ''key'',
    data_item_opt := Some default_item\<rparr>"
  let ?q = "(new_message SEND_FIND_VALUE ''02'' 9)\<lparr>to_id_opt := Some ''01'', query_id_opt := Some ''key''\<rparr>"
  have rows: "records demo_start = []"
    by (simp add: data_rows_def rows_of_def demo_start_storage)
  then have "storage_ok demo_platform demo_start"
    by (simp add: storage_ok_def demo_platform_simps data_ok_def demo_engine_ok demo_start_storage
        demo_start_state rep_def rows_ok_def data_rows_def)
  moreover have "sql_literal (to_id ?m)" "sql_literal (title (data_item ?m))"
    "of_key (to_id ?m) (records demo_start) = []" "to_id ?q = to_id ?m" "sql_literal (from_id ?q)"
    "from_id ?q \<noteq> zero_key_text" "from_id ?q \<noteq> to_id ?m" "of_key (from_id ?q) (records demo_start) = []"
    by (simp_all add: rows of_key_def new_message_def to_id_def data_item_def default_item_def sql_literal_def
        zero_key_text_def Cons_replicate_eq)
  note stored = stored_value_is_not_found [OF calculation(1) this]
  then have "length (of_key ''01'' (records (snd (handle_SEND_STORE demo_platform ?m demo_start)))) = 1 \<and>
      fst (handle_SEND_FIND_VALUE demo_platform ?q (snd (handle_SEND_STORE demo_platform ?m demo_start))) = Ok ()"
    by (auto simp: to_id_def)
  then show ?thesis by (intro exI [of _ demo_start] exI [of _ ?m]) simp
qed

text \<open>
  A value is delivered once: the answer to a search for a value calls the callback of the search
  with the items of the message and forgets the search; a second answer with its token changes
  nothing.  A callback that throws keeps the search.
\<close>

lemma value_is_delivered_once:
  assumes "map_of (searches s) (token_of m) = Some x" and "value_callback x = Some c"
  shows "handle_REPLY_FIND_VALUE P m s =
      (case run_value_callback P c (data_item_list m) of
        None \<Rightarrow> (Ok (), s\<lparr>callbacks := callbacks s @ [Values c (data_item_list m)],
                         searches := omap_erase (token_of m) (searches s)\<rparr>)
      | Some e \<Rightarrow> (Throw e, s\<lparr>callbacks := callbacks s @ [Values c (data_item_list m)]\<rparr>)) \<and>
    (\<forall>s' m'. handle_REPLY_FIND_VALUE P m s = (Ok (), s') \<and> token_of m' = token_of m \<longrightarrow>
      handle_REPLY_FIND_VALUE P m' s' = (Ok (), s'))"
proof -
  have run: "handle_REPLY_FIND_VALUE P m s =
      (case run_value_callback P c (data_item_list m) of
        None \<Rightarrow> (Ok (), s\<lparr>callbacks := callbacks s @ [Values c (data_item_list m)],
                         searches := omap_erase (token_of m) (searches s)\<rparr>)
      | Some e \<Rightarrow> (Throw e, s\<lparr>callbacks := callbacks s @ [Values c (data_item_list m)]\<rparr>))"
    using assms
    by (simp add: handle_REPLY_FIND_VALUE_def call_value_callback_def erase_search_def cpp_simps split: option.split)
  have "handle_REPLY_FIND_VALUE P m' s' = (Ok (), s')"
    if "handle_REPLY_FIND_VALUE P m s = (Ok (), s')" and "token_of m' = token_of m" for s' m'
  proof -
    have "map_of (searches s') (token_of m') = None"
      using that run by (auto split: option.splits)
    then show ?thesis by (simp add: handle_REPLY_FIND_VALUE_def cpp_simps)
  qed
  with run show ?thesis by blast
qed

lemma value_is_delivered_once_example:
  "callbacks (snd (handle_REPLY_FIND_VALUE demo_platform (new_message REPLY_FIND_VALUE ''02'' 7)
     (demo_start\<lparr>searches := [(7, (new_search 0 ''g'' ''h'' VALUE_SEARCH)\<lparr>value_callback := Some 5\<rparr>)]\<rparr>))) =
   [Values 5 []]"
proof -
  let ?s = "demo_start\<lparr>searches := [(7, (new_search 0 ''g'' ''h'' VALUE_SEARCH)\<lparr>value_callback := Some 5\<rparr>)]\<rparr>"
  let ?m = "new_message REPLY_FIND_VALUE ''02'' 7"
  have "map_of (searches ?s) (token_of ?m) = Some ((new_search 0 ''g'' ''h'' VALUE_SEARCH)\<lparr>value_callback := Some 5\<rparr>)"
    by (simp add: new_message_def)
  from conjunct1 [OF value_is_delivered_once [OF this, of 5 demo_platform]] show ?thesis
    by (simp add: demo_platform_def demo_start_state new_message_def)
qed

end
