(* ===== verification/Node_Expiry.thy ===== *)
theory Node_Expiry
  imports Node_Records
begin

text \<open>
  What the third part of the periodic task does to the records of a node: those whose time is over are
  removed, the others are stored again in the network and kept.
\<close>

section \<open>Lemmas\<close>

definition row_header :: "store_row \<Rightarrow> data_item_header" where
  "row_header r = triple_header (triple r)"

definition expired :: "int \<Rightarrow> data_item_header \<Rightarrow> bool" where
  "expired now dh \<longleftrightarrow> time_diff now (from_time_t (h_time dh)) > seconds (h_ttl dh)"

text \<open>
  The time of a record is over, in the numbers of the record; and its times fit into the microseconds of a
  \<open>time_duration\<close>, as they do up to some 292000 years.
\<close>

definition over :: "int \<Rightarrow> data_item_header \<Rightarrow> bool" where
  "over now dh \<longleftrightarrow> now - h_time dh * 1000000 > h_ttl dh * 1000000"

definition age_fits :: "int \<Rightarrow> data_item_header \<Rightarrow> bool" where
  "age_fits now dh \<longleftrightarrow> \<bar>now - h_time dh * 1000000\<bar> < 2 ^ 63"

definition times_fit :: "int \<Rightarrow> data_item_header \<Rightarrow> bool" where
  "times_fit now dh \<longleftrightarrow> age_fits now dh \<and> \<bar>h_ttl dh * 1000000\<bar> < 2 ^ 63"

lemma expired_over: "times_fit now dh \<Longrightarrow> expired now dh \<longleftrightarrow> over now dh"
  by (simp add: times_fit_def age_fits_def expired_def over_def time_diff_from seconds_def ticks_small)

text \<open>The longest time to live a record can have is minus one second.\<close>

lemma expired_longest:
  assumes "age_fits now dh" and "h_time dh * 1000000 \<le> now" and "h_ttl dh = 2 ^ 63 - 1"
  shows "expired now dh"
proof -
  have "seconds (h_ttl dh) = - 1000000" by (simp add: assms(3) seconds_def ticks_def)
  moreover have "time_diff now (from_time_t (h_time dh)) = now - h_time dh * 1000000"
    using assms(1) by (simp add: age_fits_def time_diff_from ticks_small)
  ultimately show ?thesis using assms(2) by (simp add: expired_def)
qed

lemma row_header_key: "h_key (row_header r) = fst (fst (snd r))" "h_title (row_header r) = snd (fst (snd r))"
  by (simp_all add: row_header_def triple_header_def triple_def header_of_def time_of_def item_of_def)

lemma records_facts:
  assumes "storage_ok P s" and "r \<in> set (records s)"
  shows "sql_literal (fst (fst (snd r)))" "sql_literal (snd (fst (snd r)))"
    "filter (\<lambda>q. fst (snd q) \<noteq> fst (snd r)) (records s) = filter (\<lambda>q. q \<noteq> r) (records s)"
proof -
  have "data_ok (storage_engine P) (storage s)" using assms(1) by (simp add: storage_ok_def)
  from data_ok_parts(5) [OF this] have rows: "rows_ok (next_id (tables (storage s))) (records s)" .
  then show "sql_literal (fst (fst (snd r)))" "sql_literal (snd (fst (snd r)))"
    using assms(2) by (simp_all add: rows_ok_def)
  have "distinct (map (\<lambda>q. fst (snd q)) (records s))" using rows by (simp add: rows_ok_def)
  then have "q = r" if "q \<in> set (records s)" and "fst (snd q) = fst (snd r)" for q
    using that assms(2) by (auto simp: distinct_map inj_on_def)
  then show "filter (\<lambda>q. fst (snd q) \<noteq> fst (snd r)) (records s) = filter (\<lambda>q. q \<noteq> r) (records s)"
    by (intro filter_cong) auto
qed

lemma records_distinct: "storage_ok P s \<Longrightarrow> distinct (records s)"
  using data_ok_parts(5) [of "storage_engine P" "storage s"]
  by (auto simp: storage_ok_def rows_ok_def simp: distinct_map)

lemma clean_expired:
  assumes "storage_ok P s" and "\<not> giant_lock s" and "r \<in> set (records s)" and "expired now (row_header r)"
  shows "\<exists>s'. clean_record P now (row_header r) s = (Ok (), s') \<and> storage_ok P s' \<and> \<not> giant_lock s' \<and>
    records s' = filter (\<lambda>q. q \<noteq> r) (records s)"
proof -
  define s1 where "s1 = s\<lparr>giant_lock := True\<rparr>"
  note facts = records_facts [OF assms(1,3)]
  have ok: "data_ok (storage_engine P) (storage s)" using assms(1) by (simp add: storage_ok_def)
  obtain st where st: "data_remove (storage_engine P) (storage_other P) (fst (fst (snd r))) (snd (fst (snd r))) (storage s) = (Ok (), st)"
    "data_ok (storage_engine P) st" "data_rows st = filter (\<lambda>q. fst (snd q) \<noteq> fst (snd r)) (records s)"
    using data_remove_run [OF ok facts(1,2)] by (metis prod.collapse)
  have "clean_record P now (row_header r) s = (Ok (), s\<lparr>storage := st\<rparr>)"
    using assms(2,4) st(1)
    by (simp add: clean_record_def Let_def expired_def row_header_key scoped_def lock_giant_def unlock_giant_def
        on_storage_def on_part_run)
  then show ?thesis using st(2,3) facts(3) assms(1,2) by (simp add: storage_ok_def)
qed

lemma clean_fresh:
  assumes "storage_ok P s" and "r \<in> set (records s)" and "\<not> expired now (row_header r)"
    and "clean_record P now (row_header r) s = (q, s')"
  shows "storage_ok P s' \<and> records s' = records s"
proof -
  let ?body = "bnd (on_storage (data_find_one (storage_engine P) (storage_other P) (fst (fst (snd r))) (snd (fst (snd r))) default_item))
    (\<lambda>item. iterativeStore_nolock P (fst (fst (snd r)))
      (item\<lparr>ttl := ttl item - word_of_int (time_diff now (from_time_t (h_time (row_header r))) sdiv 1000000)\<rparr>))"
  note facts = records_facts [OF assms(1,2)]
  have ok: "data_ok (storage_engine P) (storage s)" using assms(1) by (simp add: storage_ok_def)
  have run: "scoped ?body s = (q, s')"
    using assms(3,4) by (simp add: clean_record_def Let_def expired_def row_header_key)
  show ?thesis
  proof (cases "giant_lock s")
    case True
    then show ?thesis using run assms(1) by (auto simp: scoped_def lock_giant_def)
  next
    case False
    define s1 where "s1 = s\<lparr>giant_lock := True\<rparr>"
    define s2 where "s2 = s1\<lparr>storage := (storage s)\<lparr>calls := Suc (calls (storage s))\<rparr>\<rparr>"
    obtain item where "on_storage (data_find_one (storage_engine P) (storage_other P) (fst (fst (snd r))) (snd (fst (snd r))) default_item) s1 =
        (Ok item, s2)"
      using data_find_one_run [OF ok facts(1,2) assms(2), of "storage_other P" default_item]
      by (simp add: on_storage_def on_part_run s1_def s2_def)
    then have body: "?body s1 = iterativeStore_nolock P (fst (fst (snd r)))
        (item\<lparr>ttl := ttl item - word_of_int (time_diff now (from_time_t (h_time (row_header r))) sdiv 1000000)\<rparr>) s2"
      by (simp add: bnd_run)
    obtain u t where ut: "?body s1 = (u, t)" by fastforce
    with body have run2: "iterativeStore_nolock P (fst (fst (snd r)))
        (item\<lparr>ttl := ttl item - word_of_int (time_diff now (from_time_t (h_time (row_header r))) sdiv 1000000)\<rparr>) s2 = (u, t)"
      by simp
    have "storage (snd (iterativeStore_nolock P (fst (fst (snd r)))
        (item\<lparr>ttl := ttl item - word_of_int (time_diff now (from_time_t (h_time (row_header r))) sdiv 1000000)\<rparr>) s2)) = storage s2 \<and>
      max_records (snd (iterativeStore_nolock P (fst (fst (snd r)))
        (item\<lparr>ttl := ttl item - word_of_int (time_diff now (from_time_t (h_time (row_header r))) sdiv 1000000)\<rparr>) s2)) = max_records s2"
      by (rule preservesD [OF stored.ok_lookups(1)]) simp
    then have "storage t = storage s2 \<and> max_records t = max_records s2" by (simp only: run2 snd_conv)
    with ut have t: "?body s1 = (u, t)" "storage t = storage s2" "max_records t = max_records s2" by simp_all
    have "storage s' = storage t \<and> max_records s' = max_records t"
      using run False t(1) unfolding scoped_def lock_giant_def unlock_giant_def
      by (auto simp: s1_def [symmetric] split: outcome.splits if_splits)
    with t assms(1) show ?thesis by (simp add: storage_ok_def s2_def s1_def data_ok_calls)
  qed
qed

text \<open>The loop over headers of records of the store.\<close>

lemma kept_clean: "kept unlocked (clean_record P now dh)"
  by (auto simp: clean_record_def Let_def intro: kept_scoped)

lemma clean_loop:
  "storage_ok P s \<Longrightarrow> \<not> giant_lock s \<Longrightarrow> distinct rs \<Longrightarrow> set rs \<subseteq> set (records s) \<Longrightarrow>
    for_each (clean_record P now) (map row_header rs) s = (q, s') \<Longrightarrow>
    \<exists>D. D \<subseteq> {r \<in> set rs. expired now (row_header r)} \<and> storage_ok P s' \<and>
      records s' = filter (\<lambda>r. r \<notin> D) (records s) \<and>
      (q = Ok () \<longrightarrow> D = {r \<in> set rs. expired now (row_header r)}) \<and>
      ((\<forall>r \<in> set rs. expired now (row_header r)) \<longrightarrow> q = Ok ())"
proof (induction rs arbitrary: s)
  case Nil
  then show ?case by (intro exI [of _ "{}"]) (auto simp: ret_run)
next
  case (Cons r rs)
  then have r: "r \<in> set (records s)" "r \<notin> set rs" by simp_all
  show ?case
  proof (cases "expired now (row_header r)")
    case True
    obtain s1 where s1: "clean_record P now (row_header r) s = (Ok (), s1)" "storage_ok P s1" "\<not> giant_lock s1"
      "records s1 = filter (\<lambda>q. q \<noteq> r) (records s)"
      using clean_expired [OF Cons.prems(1,2) r(1) True] by blast
    have "set rs \<subseteq> set (records s1)" using Cons.prems(4) r(2) s1(4) by auto
    moreover have "for_each (clean_record P now) (map row_header rs) s1 = (q, s')"
      using Cons.prems(5) s1(1) by (simp add: bnd_run)
    ultimately obtain D where D: "D \<subseteq> {r \<in> set rs. expired now (row_header r)}" "storage_ok P s'"
      "records s' = filter (\<lambda>r. r \<notin> D) (records s1)" "q = Ok () \<longrightarrow> D = {r \<in> set rs. expired now (row_header r)}"
      "(\<forall>r \<in> set rs. expired now (row_header r)) \<longrightarrow> q = Ok ()"
      using Cons.IH [OF s1(2,3)] Cons.prems(3) by auto
    show ?thesis
      by (rule exI [of _ "insert r D"]) (use D s1(4) True in \<open>auto intro: filter_cong\<close>)
  next
    case False
    obtain u s1 where s1: "clean_record P now (row_header r) s = (u, s1)" by fastforce
    note keep = clean_fresh [OF Cons.prems(1) r(1) False s1]
    have same: "\<exists>D. D \<subseteq> {x \<in> set (r # rs). expired now (row_header x)} \<and> storage_ok P s' \<and>
        records s' = filter (\<lambda>x. x \<notin> D) (records s) \<and>
        (q = Ok () \<longrightarrow> D = {x \<in> set (r # rs). expired now (row_header x)}) \<and>
        ((\<forall>x \<in> set (r # rs). expired now (row_header x)) \<longrightarrow> q = Ok ())"
      if "q \<noteq> Ok ()" and "s' = s1"
      by (rule exI [of _ "{}"]) (use that keep False in auto)
    show ?thesis
    proof (cases u)
      case (Ok v)
      have "\<not> giant_lock s1"
        using keptD [of unlocked "clean_record P now (row_header r)" s u s1] kept_clean Cons.prems(2) s1 Ok by blast
      moreover have "for_each (clean_record P now) (map row_header rs) s1 = (q, s')"
        using Cons.prems(5) s1(1) Ok by (simp add: bnd_run)
      ultimately obtain D where "D \<subseteq> {r \<in> set rs. expired now (row_header r)}" "storage_ok P s'"
        "records s' = filter (\<lambda>r. r \<notin> D) (records s1)" "q = Ok () \<longrightarrow> D = {r \<in> set rs. expired now (row_header r)}"
        using Cons.IH [of s1] Cons.prems(3,4) keep by auto
      then show ?thesis using keep False by (intro exI [of _ D]) auto
    next
      case (Throw e)
      then show ?thesis using Cons.prems(5) s1 by (intro same) (auto simp: bnd_run)
    next
      case (Abort f)
      then show ?thesis using Cons.prems(5) s1 by (intro same) (auto simp: bnd_run)
    qed
  qed
qed

lemma list_headers_locked:
  assumes "storage_ok P s" and "\<not> giant_lock s"
  shows "\<exists>rs. scoped (on_storage (data_list_headers (storage_engine P) (storage_other P) [])) s =
      (Ok (map row_header rs), s\<lparr>storage := (storage s)\<lparr>calls := Suc (calls (storage s))\<rparr>\<rparr>) \<and>
    mset rs = mset (records s)"
proof -
  have ok: "data_ok (storage_engine P) (storage s)" using assms(1) by (simp add: storage_ok_def)
  from data_list_headers_run [OF ok, of "storage_other P" "[]"] obtain hs where
    hs: "data_list_headers (storage_engine P) (storage_other P) [] (storage s) =
      (Ok hs, (storage s)\<lparr>calls := Suc (calls (storage s))\<rparr>)" "mset hs = mset (map row_header (records s))"
    unfolding row_header_def append_Nil by blast
  from mset_map_listed [OF hs(2)] obtain rs where rs: "mset rs = mset (records s)" "hs = map row_header rs" by blast
  have "scoped (on_storage (data_list_headers (storage_engine P) (storage_other P) [])) s =
      (Ok hs, s\<lparr>storage := (storage s)\<lparr>calls := Suc (calls (storage s))\<rparr>\<rparr>)"
    using assms(2) hs(1) by (simp add: scoped_def lock_giant_def unlock_giant_def on_storage_def on_part_run)
  with rs show ?thesis by blast
qed

lemma rethrow_keeps_storage:
  assumes "try_std (\<lambda>_. (u, s2)) unlock_and_rethrow s = (q, s')"
  shows "storage s' = storage s2" "max_records s' = max_records s2" "q = Ok () \<longleftrightarrow> u = Ok ()"
  using assms
  by (auto simp: unlock_and_rethrow_def unlock_giant_def cpp_simps split: outcome.splits exn.splits if_splits)

text \<open>What the part of the task that goes through the records does, in the arithmetic of the code.\<close>

lemma periodic_records_run:
  assumes "storage_ok P s" and "\<not> giant_lock s" and "periodic_records P s = (q, s')"
  defines "now \<equiv> clock_at P (clock_reads s)"
  shows "storage_ok P s' \<and> (\<exists>D \<subseteq> {r \<in> set (records s). expired now (row_header r)}.
      records s' = filter (\<lambda>r. r \<notin> D) (records s) \<and>
      (q = Ok () \<longrightarrow> D = {r \<in> set (records s). expired now (row_header r)})) \<and>
    ((\<forall>r \<in> set (records s). expired now (row_header r)) \<longrightarrow> q = Ok ())"
proof -
  obtain rs where rs: "scoped (on_storage (data_list_headers (storage_engine P) (storage_other P) [])) s =
      (Ok (map row_header rs), s\<lparr>storage := (storage s)\<lparr>calls := Suc (calls (storage s))\<rparr>\<rparr>)"
    "mset rs = mset (records s)"
    using list_headers_locked [OF assms(1,2)] by blast
  define s1 where "s1 = s\<lparr>storage := (storage s)\<lparr>calls := Suc (calls (storage s))\<rparr>, clock_reads := Suc (clock_reads s)\<rparr>"
  obtain u s2 where loop: "for_each (clean_record P (clock_at P (clock_reads s))) (map row_header rs) s1 = (u, s2)"
    by fastforce
  have run: "periodic_records P s = try_std (\<lambda>_. (u, s2)) unlock_and_rethrow s"
    by (simp add: periodic_records_def try_std_run bnd_run rs(1) update_time_def loop [unfolded s1_def])
  have s1: "storage_ok P s1" "\<not> giant_lock s1" "records s1 = records s"
    using assms(1,2) by (simp_all add: s1_def storage_ok_def data_ok_calls)
  have same: "distinct rs" "set rs = set (records s)"
    using records_distinct [OF assms(1)] rs(2) by (metis mset_eq_imp_distinct_iff, metis set_mset_mset)
  then have "set rs \<subseteq> set (records s1)" by (simp add: s1(3))
  from clean_loop [OF s1(1,2) same(1) this loop] obtain D where
    D: "D \<subseteq> {r \<in> set (records s). expired now (row_header r)}" "storage_ok P s2" "records s2 = filter (\<lambda>r. r \<notin> D) (records s)"
      "u = Ok () \<longrightarrow> D = {r \<in> set (records s). expired now (row_header r)}"
      "(\<forall>r \<in> set (records s). expired now (row_header r)) \<longrightarrow> u = Ok ()"
    unfolding same(2) s1(3) now_def by blast
  note kept = rethrow_keeps_storage [OF assms(3) [unfolded run]]
  show ?thesis
    unfolding kept(1,3) using D kept(1,2) by (intro conjI bexI exI [of _ D]) (simp_all add: storage_ok_def)
qed

section \<open>Properties\<close>

text \<open>
  C24 (expired records are removed): the part of the periodic task that goes through the records, run on
  a store in order, changes no record.  Of the records whose times fit into a \<open>time_duration\<close> it removes
  none whose time is not over, and, if it returns, each one whose time is over; it does return when all
  are such.  When storing a fresh record again in the network throws, some of the expired ones may be left.
  The time to live is what a peer wrote into its message: with the longest one the microseconds wrap around
  to minus a second, and the record is removed at once.
\<close>

theorem expired_records_are_removed:
  assumes "storage_ok P s" and "\<not> giant_lock s"
  defines "now \<equiv> clock_at P (clock_reads s)"
  shows "case periodic_records P s of (q, s') \<Rightarrow> storage_ok P s' \<and>
    (\<exists>D. records s' = filter (\<lambda>r. r \<notin> D) (records s)) \<and>
    (\<forall>r \<in> set (records s). times_fit now (row_header r) \<longrightarrow>
      (\<not> over now (row_header r) \<longrightarrow> r \<in> set (records s')) \<and>
      (q = Ok () \<and> over now (row_header r) \<longrightarrow> r \<notin> set (records s'))) \<and>
    ((\<forall>r \<in> set (records s). times_fit now (row_header r) \<and> over now (row_header r)) \<longrightarrow> q = Ok ()) \<and>
    (\<forall>r \<in> set (records s). q = Ok () \<and> h_ttl (row_header r) = 2 ^ 63 - 1 \<and> age_fits now (row_header r) \<and>
      h_time (row_header r) * 1000000 \<le> now \<longrightarrow> r \<notin> set (records s'))"
proof -
  obtain q s' where out: "periodic_records P s = (q, s')" by fastforce
  from periodic_records_run [OF assms(1,2) out] obtain D where
    D: "D \<subseteq> {r \<in> set (records s). expired now (row_header r)}" "records s' = filter (\<lambda>r. r \<notin> D) (records s)"
      "q = Ok () \<longrightarrow> D = {r \<in> set (records s). expired now (row_header r)}" "storage_ok P s'"
      "(\<forall>r \<in> set (records s). expired now (row_header r)) \<longrightarrow> q = Ok ()"
    unfolding now_def by blast
  then show ?thesis
    unfolding out prod.case by (auto simp: expired_over expired_longest)
qed

text \<open>A store of one record that was written at the start of time and lives for an hour.\<close>

definition hour_store :: node where
  "hour_store = demo_start\<lparr>storage := (storage demo_start)\<lparr>tables := (tables (storage demo_start))
     \<lparr>header_rows := [(1, ''key'', ''name'')], time_rows := [(1, 0, 3600)], item_rows := [(1, ''data'')],
      next_id := 2\<rparr>\<rparr>\<rparr>"

definition hour_record :: store_row where
  "hour_record = (1, (''key'', ''name''), (0, 3600, ''data''))"

lemma hour_facts:
  "records hour_store = [hour_record]" "\<not> giant_lock hour_store"
  "storage_ok (demo_platform\<lparr>clock_at := c\<rparr>) hour_store"
  "h_time (row_header hour_record) = 0" "h_ttl (row_header hour_record) = 3600"
proof -
  show rows: "records hour_store = [hour_record]"
    by (simp add: hour_store_def hour_record_def data_rows_def rows_of_def)
  show "\<not> giant_lock hour_store" by (simp add: hour_store_def demo_start_state)
  have "db_ready (storage hour_store)" "all_tables (tables (storage hour_store))"
    using demo_start_storage by (simp_all add: hour_store_def db_ready_def all_tables_def)
  then show "storage_ok (demo_platform\<lparr>clock_at := c\<rparr>) hour_store"
    by (simp add: storage_ok_def demo_platform_simps data_ok_def demo_engine_ok hour_store_def demo_start_state rep_def
        rows_ok_def rows_of_def header_of_def time_of_def item_of_def sql_literal_def)
  show "h_time (row_header hour_record) = 0" "h_ttl (row_header hour_record) = 3600"
    by (simp_all add: hour_record_def row_header_def triple_header_def triple_def header_of_def time_of_def item_of_def)
qed

theorem expired_records_are_removed_witness:
  "records (snd (periodic_records (demo_platform\<lparr>clock_at := \<lambda>n. 4000000000\<rparr>) hour_store)) = [] \<and>
   records (snd (periodic_records (demo_platform\<lparr>clock_at := \<lambda>n. 3000000000\<rparr>) hour_store)) = [hour_record]"
proof -
  let ?P = "\<lambda>t. demo_platform\<lparr>clock_at := \<lambda>n. t\<rparr>"
  have times: "times_fit t (row_header hour_record)" "over t (row_header hour_record) \<longleftrightarrow> 3600000000 < t"
    if "0 \<le> t" "t < 2 ^ 63" for t
    using that by (simp_all add: times_fit_def age_fits_def over_def hour_facts)
  have sub: "\<exists>D. records (snd (periodic_records (?P t) hour_store)) = filter (\<lambda>r. r \<notin> D) [hour_record]" for t
    using expired_records_are_removed [OF hour_facts(3,2), of "\<lambda>n. t"] by (simp add: split_beta hour_facts)
  have "hour_record \<notin> set (records (snd (periodic_records (?P 4000000000) hour_store)))"
    using expired_records_are_removed [OF hour_facts(3,2), of "\<lambda>n. 4000000000"] times [of 4000000000]
    by (simp add: split_beta hour_facts)
  moreover have "hour_record \<in> set (records (snd (periodic_records (?P 3000000000) hour_store)))"
    using expired_records_are_removed [OF hour_facts(3,2), of "\<lambda>n. 3000000000"] times [of 3000000000]
    by (simp add: split_beta hour_facts)
  ultimately show ?thesis using sub [of 4000000000] sub [of 3000000000] by (auto split: if_splits)
qed

end
