(* ===== verification/Node_Routes.thy ===== *)
theory Node_Routes
  imports Node_Properties
begin

text \<open>
  Whom a search reaches: the messages a node sends when it starts a search and when one is answered,
  and the contacts they go to.
\<close>

section \<open>What a search sends\<close>

text \<open>The messages of a search for \<open>k\<close>: pings, and those that ask or store under \<open>k\<close>.\<close>

definition about :: "key_text \<Rightarrow> message_proto \<Rightarrow> bool" where
  "about k m \<longleftrightarrow> type_of m = SEND_PING \<or> query_id_opt m = Some k"

text \<open>
  A computation that keeps a statement about the node whatever message about \<open>k\<close> it sends: the laws
  name what a search writes besides.
\<close>

named_theorems route_rules "computations that only send messages about a key"

locale message_frame =
  fixes P :: platform and k :: key_text and inv :: "node \<Rightarrow> bool"
  assumes inv_message: "about k m \<Longrightarrow> preserves inv (send_message P m)"
    and inv_notes: "inv s \<Longrightarrow> inv (s\<lparr>ping_ttl := a, store_check_val := b, searches := c, callbacks := d\<rparr>)"
    and inv_counters: "inv s \<Longrightarrow> inv (s\<lparr>clock_reads := i, random_calls := j\<rparr>)"
    and inv_lock: "inv s \<Longrightarrow> inv (s\<lparr>giant_lock := l\<rparr>)"
    and inv_near: "inv s \<Longrightarrow> inv (s\<lparr>contacts := snd (bucket_build_proximity x (contacts s))\<rparr>)"
begin

lemma inv_note:
  assumes "inv s"
  shows "inv (s\<lparr>ping_ttl := a\<rparr>)" "inv (s\<lparr>store_check_val := b\<rparr>)" "inv (s\<lparr>searches := c\<rparr>)" "inv (s\<lparr>callbacks := d\<rparr>)"
    "inv (s\<lparr>clock_reads := i\<rparr>)" "inv (s\<lparr>random_calls := j\<rparr>)"
  using inv_notes [OF assms, where a = a and b = "store_check_val s" and c = "searches s" and d = "callbacks s"]
    inv_notes [OF assms, where a = "ping_ttl s" and b = b and c = "searches s" and d = "callbacks s"]
    inv_notes [OF assms, where a = "ping_ttl s" and b = "store_check_val s" and c = c and d = "callbacks s"]
    inv_notes [OF assms, where a = "ping_ttl s" and b = "store_check_val s" and c = "searches s" and d = d]
    inv_counters [OF assms, where i = i and j = "random_calls s"] inv_counters [OF assms, where i = "clock_reads s" and j = j]
  by simp_all

lemma route_notes [route_rules]:
  "preserves inv (update_time P)" "preserves inv (random_token P)" "preserves inv (set_ping_ttl t n)"
  "preserves inv (erase_search t)" "preserves inv (put_search t x)" "preserves inv (assert_key j)"
  "preserves inv (writes (\<lambda>s. s\<lparr>store_check_val := f s\<rparr>))" "preserves inv (writes (\<lambda>s. s\<lparr>callbacks := g s\<rparr>))"
  "preserves inv (on_search t m)"
  by (auto intro!: preservesI inv_note simp: update_time_def random_token_def set_ping_ttl_def erase_search_def
      put_search_def assert_key_def on_search_def cpp_simps split: option.split prod.split)

lemma route_swallow [route_rules]: "preserves inv m \<Longrightarrow> preserves inv (swallow m)"
  unfolding swallow_def by (intro preserves_rules)

lemma route_sends [route_rules]:
  "preserves inv (send_PING_key P j t)" "preserves inv (ping_key P j)" "preserves inv (send_STORE P j k d t)"
  "preserves inv (send_FIND_NODE P j k t)" "preserves inv (send_FIND_VALUE P j k t h)"
proof -
  have ping: "preserves inv (send_PING_key P j t)" for t
    unfolding send_PING_key_def
    by (intro route_rules preserves_rules inv_message) (simp add: about_def new_message_def)
  then show "preserves inv (send_PING_key P j t)" .
  show "preserves inv (ping_key P j)" unfolding ping_key_def by (intro route_rules preserves_rules ping)
  show "preserves inv (send_STORE P j k d t)" "preserves inv (send_FIND_NODE P j k t)"
    "preserves inv (send_FIND_VALUE P j k t h)"
    unfolding send_STORE_def send_FIND_NODE_def send_FIND_VALUE_def
    by (intro route_rules preserves_rules inv_message; simp add: about_def)+
qed

lemma route_query_nodes [route_rules]: "(\<And>j. preserves inv (send j)) \<Longrightarrow> preserves inv (query_nodes send t n)"
  by (induction n) (auto intro!: route_rules preserves_rules)

lemma route_call_node_callback [route_rules]: "preserves inv (call_node_callback P t)"
  unfolding call_node_callback_def
  by (auto split: option.split intro!: route_rules preserves_rules)

lemma route_store_turn: "preserves inv (store_turn P t k)"
  unfolding store_turn_def by (intro route_rules preserves_rules)

lemma route_replyIterative [route_rules]: "preserves inv (replyIterative P lc t k)"
  unfolding replyIterative_def replyIterativeNodeSearch_def replyIterativeValueSearch_def
    replyIterativeStoreSearch_def
  by (auto split: search_type_t.split intro!: route_rules preserves_rules preserves_store_loop route_store_turn)

lemma route_ping_all [route_rules]: "preserves inv (ping_all P cs)"
  by (induction cs) (auto intro!: route_rules preserves_rules)

lemma route_startNodeLookup [route_rules]: "preserves inv (startNodeLookup P t k)"
proof -
  have "preserves inv (on_contacts (bucket_build_proximity k))"
    unfolding on_contacts_def by (rule preserves_on_part) (rule inv_near)
  then show ?thesis
    unfolding startNodeLookup_def by (intro route_rules preserves_rules) (auto intro: preservesI)
qed

text \<open>The lock around a search.\<close>

lemma route_locked:
  assumes "preserves inv m"
  shows "preserves inv (locked_try m)"
proof -
  have unlock: "preserves inv unlock_giant"
    by (rule preservesI) (simp add: unlock_giant_def inv_lock)
  then have "preserves inv (try_std m unlock_and_rethrow)"
    unfolding unlock_and_rethrow_def by (intro preserves_rules assms)
  then show ?thesis unfolding locked_try_def by (rule preserves_scoped) (rule inv_lock)
qed

text \<open>What starts a search and what goes on with one.\<close>

lemma route_searches:
  "preserves inv (iterativeStore_nolock P k d)" "preserves inv (iterativeFindNode_nolock P k)"
  "preserves inv (iterativeFindValue P k c h)"
proof -
  show "preserves inv (iterativeStore_nolock P k d)" "preserves inv (iterativeFindNode_nolock P k)"
    unfolding iterativeStore_nolock_def iterativeFindNode_nolock_def by (intro route_rules preserves_rules)+
  have "preserves inv (bnd (random_token P) (\<lambda>t. bnd (reads node_id) (\<lambda>me. bnd (update_time P) (\<lambda>now.
      thn (put_search t ((new_search now me k VALUE_SEARCH)\<lparr>value_callback := c, hint := h\<rparr>)) (startNodeLookup P t k)))))"
    by (intro route_rules preserves_rules)
  then show "preserves inv (iterativeFindValue P k c h)"
    unfolding iterativeFindValue_def by (rule route_locked)
qed

lemma route_answer:
  assumes "to_id m = k"
  shows "preserves inv (handle_REPLY_FIND_NODE P m)"
  unfolding handle_REPLY_FIND_NODE_def assms
  by (auto split: option.split intro!: route_rules preserves_rules)

end

section \<open>To whom\<close>

text \<open>
  Every packet in \<open>es\<close> carries a message about \<open>k\<close> to the key of an entry of the table, on a session
  made for, or mapped to, what its endpoint resolves to; no other session is made.
\<close>

definition sent_to_known :: "platform \<Rightarrow> key_text \<Rightarrow> node \<Rightarrow> net_event list \<Rightarrow> bool" where
  "sent_to_known P k s es \<longleftrightarrow>
     (\<forall>j p. Deliver j p \<in> set es \<longrightarrow> (\<exists>m e n u. about k m \<and> e \<in> set (entries (contacts s)) \<and>
        contact_key (snd e) = to_id m \<and> message_packet (listen_port s) (serialize P m) = Ok p \<and>
        resolve P n (contact_ep (snd e)) = Inr u \<and>
        (Connect j u \<in> set es \<or> (\<exists>ep. endpoint_to_proto u = Ok ep \<and> map_of (sessions s) ep = Some j)))) \<and>
     (\<forall>j u. Connect j u \<in> set es \<longrightarrow> (\<exists>p. Deliver j p \<in> set es))"

definition routed :: "platform \<Rightarrow> key_text \<Rightarrow> node \<Rightarrow> node \<Rightarrow> bool" where
  "routed P k s0 s \<longleftrightarrow> bucket_ok (contacts s) \<and> entries (contacts s) = entries (contacts s0) \<and>
     sessions s = sessions s0 \<and> listen_port s = listen_port s0 \<and>
     (\<exists>es. outbox s = outbox s0 @ es \<and> sent_to_known P k s0 es)"

lemma sent_to_known_Nil [simp]: "sent_to_known P k s []"
  by (simp add: sent_to_known_def)

lemma sent_to_known_append: "sent_to_known P k s es \<Longrightarrow> sent_to_known P k s es' \<Longrightarrow> sent_to_known P k s (es @ es')"
  unfolding sent_to_known_def by (simp add: Un_def) blast

lemma routed_refl: "bucket_ok (contacts s) \<Longrightarrow> routed P k s s"
  by (simp add: routed_def)

lemma routed_outbox:
  assumes "routed P k s0 s" and "sent_to_known P k s0 es"
  shows "routed P k s0 (s\<lparr>outbox := outbox s @ es\<rparr>)"
  using assms sent_to_known_append [of P k s0 _ es] by (fastforce simp: routed_def)

lemma routed_counters [simp]:
  "routed P k s0 (s\<lparr>lookups := n\<rparr>) = routed P k s0 s" "routed P k s0 (s\<lparr>next_session := j\<rparr>) = routed P k s0 s"
  by (simp_all add: routed_def)

lemma sent_to_known_new:
  assumes "about k m" and "e \<in> set (entries (contacts s))" and "contact_key (snd e) = to_id m"
    and "message_packet (listen_port s) (serialize P m) = Ok p" and "resolve P n (contact_ep (snd e)) = Inr u"
  shows "sent_to_known P k s [Connect j u, Deliver j p]"
    and "endpoint_to_proto u = Ok ep \<Longrightarrow> map_of (sessions s) ep = Some i \<Longrightarrow> sent_to_known P k s [Deliver i p]"
proof -
  show "sent_to_known P k s [Connect j u, Deliver j p]"
    unfolding sent_to_known_def using assms
    by (intro conjI allI impI) (intro exI [of _ m] exI [of _ e] exI [of _ n] exI [of _ u], auto)
  show "sent_to_known P k s [Deliver i p]" if "endpoint_to_proto u = Ok ep" and "map_of (sessions s) ep = Some i"
    unfolding sent_to_known_def using assms that
    by (intro conjI allI impI) (intro exI [of _ m] exI [of _ e] exI [of _ n] exI [of _ u], auto)
qed

lemma routed_send_to:
  assumes "about k m" and "e \<in> set (entries (contacts s0))" and "contact_key (snd e) = to_id m"
  shows "preserves (routed P k s0) (send_to P m (contact_ep (snd e)))"
proof (rule preservesI)
  fix s assume s: "routed P k s0 s"
  then have same: "sessions s = sessions s0" "listen_port s = listen_port s0" by (simp_all add: routed_def)
  note new = sent_to_known_new [OF assms, of P]
  have out: "routed P k s0 (s\<lparr>lookups := n, outbox := outbox s @ es\<rparr>)" if "sent_to_known P k s0 es" for n es
    using routed_outbox [of P k s0 "s\<lparr>lookups := n\<rparr>" es] s that by simp
  show "routed P k s0 (snd (send_to P m (contact_ep (snd e)) s))"
  proof (cases "resolve P (lookups s) (contact_ep (snd e))")
    case (Inl err)
    then show ?thesis using s
      by (simp add: send_to_def swallow_def proto_to_endpoint_def cpp_simps)
  next
    case (Inr u)
    show ?thesis
      using s new(1) [OF _ Inr] new(2) [OF _ Inr] out
      by (auto simp: send_to_def swallow_def proto_to_endpoint_def deliver_packet_def emit_def cpp_simps Inr same
          split: outcome.split exn.split option.split)
  qed
qed

lemma routed_message:
  assumes "about k m"
  shows "preserves (routed P k s0) (send_message P m)"
proof (rule preservesI)
  fix s assume s: "routed P k s0 s"
  then have b: "bucket_ok (contacts s)" "entries (contacts s) = entries (contacts s0)" by (simp_all add: routed_def)
  show "routed P k s0 (snd (send_message P m s))"
  proof (cases "find_key (contacts s) (to_id m) = length (entries (contacts s))")
    case True
    with s show ?thesis by (simp add: send_message_def assert_key_def cpp_simps Let_def)
  next
    case False
    define e where "e = entries (contacts s) ! find_key (contacts s) (to_id m)"
    have "e \<in> set (entries (contacts s0)) \<and> contact_key (snd e) = to_id m"
      by (rule find_key_cases [OF b(1), of "to_id m"]) (use False b(2) e_def in auto)
    then have "routed P k s0 (snd (send_to P m (contact_ep (snd e)) s))"
      using preservesD [OF routed_send_to [OF assms] s] by blast
    with False s show ?thesis by (simp add: send_message_def assert_key_def cpp_simps Let_def e_def [symmetric])
  qed
qed

interpretation route: message_frame P k "routed P k s0" for P k s0
  by unfold_locales (auto simp: routed_message routed_def build_proximity_ok build_proximity_keeps)

lemma sent_to_nobody:
  assumes "entries (contacts s) = []" and "sent_to_known P k s es"
  shows "es = []"
proof -
  have none: "Deliver j p \<notin> set es" for j p using assms by (simp add: sent_to_known_def)
  then have "Connect j u \<notin> set es" for j u using assms(2) by (auto simp: sent_to_known_def)
  with none have "ev \<notin> set es" for ev by (cases ev) simp_all
  then show ?thesis by (metis list.set_intros(1) neq_Nil_conv)
qed

text \<open>A step to a state with the same contacts, that sent nothing else.\<close>

definition stays_known :: "platform \<Rightarrow> key_text \<Rightarrow> node \<Rightarrow> node \<Rightarrow> bool" where
  "stays_known P k s s' \<longleftrightarrow> entries (contacts s') = entries (contacts s) \<and>
     (\<exists>es. outbox s' = outbox s @ es \<and> sent_to_known P k s es)"

lemma routed_step:
  assumes "node_ok s" and "preserves (routed P k s) m"
  shows "stays_known P k s (snd (m s))"
  using preservesD [OF assms(2) routed_refl] assms(1) by (auto simp: routed_def stays_known_def node_ok_def)

section \<open>Properties\<close>

text \<open>
  C25 (a search stays among the contacts of the node): starting a search of any of the three kinds and
  going on with one after an answer leave the table as it is and send packets to contacts in it only: a contact that an answer names
  and the table does not have is not even pinged.  After an answer, the pings apart, the node asks and
  stores under the key the answer is addressed to, its own, and not under the one it searches.
\<close>

theorem searches_reach_known_contacts_only:
  assumes "node_ok s"
  shows "stays_known P (to_id m) s (snd (handle_REPLY_FIND_NODE P m s)) \<and>
    stays_known P k s (snd (iterativeStore_nolock P k d s)) \<and>
    stays_known P k s (snd (iterativeFindNode_nolock P k s)) \<and>
    stays_known P k s (snd (iterativeFindValue P k c h s))"
  by (intro conjI routed_step [OF assms] route.route_answer [OF refl] route.route_searches)

theorem searches_reach_known_contacts_only_witness:
  "\<exists>s. node_ok s \<and> map_of (searches s) 7 = Some (new_search 0 ''01'' ''03'' NODE_SEARCH) \<and>
     outbox (snd (handle_REPLY_FIND_NODE demo_platform
       ((new_message REPLY_FIND_NODE ''02'' 7)\<lparr>to_id_opt := Some ''01'', contact_list := [demo_contact ''03'']\<rparr>) s)) = outbox s"
proof -
  define s where "s = demo_start\<lparr>searches := omap_put 7 (new_search 0 ''01'' ''03'' NODE_SEARCH) (searches demo_start)\<rparr>"
  have ok: "node_ok s" unfolding s_def
    by (intro ok.inv_put_search reachable_ok [OF demo_start_reachable]) simp
  let ?m = "(new_message REPLY_FIND_NODE ''02'' 7)\<lparr>to_id_opt := Some ''01'', contact_list := [demo_contact ''03'']\<rparr>"
  have "entries (contacts s) = []" by (simp add: s_def demo_start_state new_bucket_def)
  moreover have "stays_known demo_platform (to_id ?m) s (snd (handle_REPLY_FIND_NODE demo_platform ?m s))"
    using searches_reach_known_contacts_only [OF ok] by blast
  ultimately have "outbox (snd (handle_REPLY_FIND_NODE demo_platform ?m s)) = outbox s"
    using sent_to_nobody [of s] unfolding stays_known_def by auto
  moreover have "map_of (searches s) 7 = Some (new_search 0 ''01'' ''03'' NODE_SEARCH)"
    by (simp add: s_def demo_start_state)
  ultimately show ?thesis using ok by blast
qed

end
