(* ===== verification/Node_Sender.thy ===== *)
theory Node_Sender
  imports Node_Properties
begin

text \<open>
  What a node sends: whatever it receives and does, each packet is that of a message with its own key and
  has its own listening port, and these never change.
\<close>

section \<open>Packets in the name of a node\<close>

definition genuine :: "platform \<Rightarrow> key_text \<Rightarrow> 16 word \<Rightarrow> packet \<Rightarrow> bool" where
  "genuine P me lp p \<longleftrightarrow> (\<exists>m. from_id m = me \<and> message_packet lp (serialize P m) = Ok p)"

definition signed :: "platform \<Rightarrow> key_text \<Rightarrow> 16 word \<Rightarrow> node \<Rightarrow> bool" where
  "signed P me lp s \<longleftrightarrow> node_id s = me \<and> listen_port s = lp \<and>
     (\<forall>j p. Deliver j p \<in> set (outbox s) \<longrightarrow> genuine P me lp p)"

lemma signed_frame [simp]:
  "signed P me lp (s\<lparr>ping_ttl := pt\<rparr>) = signed P me lp s" "signed P me lp (s\<lparr>store_check_val := sv\<rparr>) = signed P me lp s"
  "signed P me lp (s\<lparr>clock_reads := n\<rparr>) = signed P me lp s" "signed P me lp (s\<lparr>random_calls := n\<rparr>) = signed P me lp s"
  "signed P me lp (s\<lparr>callbacks := cs\<rparr>) = signed P me lp s" "signed P me lp (s\<lparr>contacts := b\<rparr>) = signed P me lp s"
  "signed P me lp (s\<lparr>searches := ss\<rparr>) = signed P me lp s" "signed P me lp (s\<lparr>storage := d\<rparr>) = signed P me lp s"
  "signed P me lp (s\<lparr>sender_endpoint := u\<rparr>) = signed P me lp s" "signed P me lp (s\<lparr>giant_lock := l\<rparr>) = signed P me lp s"
  "signed P me lp (s\<lparr>backup := db\<rparr>) = signed P me lp s" "signed P me lp (s\<lparr>max_records := mx\<rparr>) = signed P me lp s"
  "signed P me lp (s\<lparr>timer := tm\<rparr>) = signed P me lp s" "signed P me lp (s\<lparr>sessions := es\<rparr>) = signed P me lp s"
  "signed P me lp (s\<lparr>lookups := n\<rparr>) = signed P me lp s" "signed P me lp (s\<lparr>next_session := n\<rparr>) = signed P me lp s"
  by (simp_all add: signed_def)

text \<open>A message with the key of the node, sent to an endpoint or to a contact.\<close>

lemma signed_deliver:
  assumes "signed P me lp s" and "from_id m = me" and "message_packet lp (serialize P m) = Ok p"
  shows "signed P me lp (s\<lparr>outbox := outbox s @ [Connect j u, Deliver j p]\<rparr>)"
    and "signed P me lp (s\<lparr>outbox := outbox s @ [Deliver j p]\<rparr>)"
  using assms by (auto simp: signed_def genuine_def)

lemma signed_send_to:
  assumes "signed P me lp s" and "from_id m = me"
  shows "signed P me lp (snd (send_to P m e s))"
proof -
  have lp: "listen_port s = lp" using assms(1) by (simp add: signed_def)
  have out: "signed P me lp (s\<lparr>lookups := n, outbox := outbox s @ [Connect j u, Deliver j p]\<rparr>)"
    "signed P me lp (s\<lparr>lookups := n, outbox := outbox s @ [Deliver j p]\<rparr>)"
    if "message_packet lp (serialize P m) = Ok p" for n j u p
    using signed_deliver [of P me lp "s\<lparr>lookups := n\<rparr>" m p j, OF _ assms(2) that] assms(1) by simp_all
  show ?thesis
    using assms(1) out
    by (auto simp: send_to_def swallow_def proto_to_endpoint_def deliver_packet_def emit_def cpp_simps lp
        split: outcome.split exn.split option.split sum.split)
qed

lemma signed_send_message:
  assumes "signed P me lp s" and "from_id m = me"
  shows "signed P me lp (snd (send_message P m s))"
  using assms(1) signed_send_to [OF assms]
  by (simp add: send_message_def assert_key_def cpp_simps Let_def)

interpretation signed: public_frame P "signed P me lp" for P me lp
proof unfold_locales
  fix s and m :: message_proto and e assume s: "signed P me lp s" and m: "from_id m = node_id s"
  with s have "from_id m = me" by (simp add: signed_def)
  with s show "signed P me lp (snd (send_message P m s))" "signed P me lp (snd (send_to P m e s))"
    by (rule signed_send_message signed_send_to)+
qed simp_all

interpretation signed: node_table_frame P "signed P me lp" for P me lp
  by unfold_locales simp_all

lemma signed_receive: "preserves (signed P me lp) (handle_receive P ep body)"
  by (rule signed.ok_receiving) (rule signed.ok_receive_body)

lemma signed_start: "signed P (key_to_string k) p (snd (start_node P k path p mx))"
  by (rule signed.ok_start_node) (simp add: signed_def new_node_def)

end
