(* ===== verification/Node_Provenance.thy ===== *)
theory Node_Provenance
  imports Node_Properties
begin

text \<open>
  Where the contacts of a node come from: the runs of a node with the messages it received, and the
  invariant that each contact of its table was introduced by a message of its own.
\<close>

section \<open>Runs with their messages\<close>

text \<open>A message that was received: from where, its bytes, and whether a ping with its token was waiting.\<close>

type_synonym hearing = "tcp_endpoint \<times> string \<times> bool"

definition hearing_of :: "platform \<Rightarrow> tcp_endpoint \<Rightarrow> string \<Rightarrow> node \<Rightarrow> hearing" where
  "hearing_of P ep body s = (ep, body, map_of (ping_ttl s) (token_of (parse P body)) \<noteq> None)"

text \<open>
  What may introduce its sender, under the key the message names and with the endpoint it came from: a
  request, or the answer to a ping that is waited for.
\<close>

fun introduces :: "platform \<Rightarrow> hearing \<Rightarrow> key_text \<times> endpoint_proto \<Rightarrow> bool" where
  "introduces P (ep, body, waited) (k, epp) \<longleftrightarrow>
     (is_request (type_of (parse P body)) \<or> type_of (parse P body) = REPLY_PING \<and> waited) \<and>
     k = from_id (parse P body) \<and> endpoint_to_proto ep = Ok epp"

inductive heard_run :: "platform \<Rightarrow> hearing list \<Rightarrow> node \<Rightarrow> bool" for P where
  start: "fst (start_node P k path p mx) = Ok () \<Longrightarrow> heard_run P [] (snd (start_node P k path p mx))"
| receive: "heard_run P tr s \<Longrightarrow> heard_run P (tr @ [hearing_of P ep body s]) (snd (handle_receive P ep body s))"
| own: "heard_run P tr s \<Longrightarrow> own_step P s s' \<Longrightarrow> heard_run P tr s'"

lemma heard_run_reachable: "heard_run P tr s \<Longrightarrow> reachable P s"
  by (induction rule: heard_run.induct) (auto intro: reachable.intros node_step.intros)

lemma reachable_heard_run: "reachable P s \<Longrightarrow> \<exists>tr. heard_run P tr s"
proof (induction rule: reachable.induct)
  case (step s s')
  from step.hyps(2) step.IH show ?case by (cases rule: node_step.cases) (auto intro: heard_run.intros)
qed (auto intro: heard_run.intros)

section \<open>The invariant\<close>

text \<open>Every contact of the table is one that \<open>T\<close> allows.\<close>

definition known :: "(key_text \<times> endpoint_proto \<Rightarrow> bool) \<Rightarrow> bucket \<Rightarrow> bool" where
  "known T b \<longleftrightarrow> (\<forall>e \<in> set (entries b). T (contact_key (snd e), contact_ep (snd e)))"

lemma known_entries: "known T b \<Longrightarrow> set (entries b') \<subseteq> set (entries b) \<Longrightarrow> known T b'"
  by (auto simp: known_def)

lemma known_weaken: "known T b \<Longrightarrow> (\<And>c. T c \<Longrightarrow> T' c) \<Longrightarrow> known T' b"
  by (simp add: known_def)

text \<open>Adding a contact brings in that contact only; the other operations bring in none.\<close>

lemma known_add:
  assumes "bucket_ok b" and "known T b" and "T (k, ep)"
  shows "known T (snd (add_contact r now k ep b))"
  using assms(1)
proof (cases rule: add_contact_cases [of b k r now ep])
  case (new m)
  then show ?thesis using assms make_room_ok(2) [OF assms(1) new(4)] by (auto simp: known_def)
next
  case (update i)
  have "e \<in> set (entries b) \<or> e = (fst (entries b ! i), \<lparr>contact_key = k, contact_ep = ep,
      contact_time = Some (word_of_int (to_time_t now))\<rparr>)"
    if "e \<in> set (entries (snd (add_contact r now k ep b)))" for e
    using that set_update_subset_insert [of "entries b" i] by (auto simp: update(6))
  with assms(2,3) show ?thesis by (force simp: known_def)
qed (use assms in \<open>simp_all add: known_def\<close>)

lemma known_remove: "known T b \<Longrightarrow> known T (snd (remove_contact ep b))"
proof -
  assume k: "known T b"
  have "set (erase_at i m) \<subseteq> set (entries b)" if "set m \<subseteq> set (entries b)" for m i
    using that set_erase_at_subset [of i m] by blast
  from remove_loop_keeps [where Q = "\<lambda>m. set m \<subseteq> set (entries b)", OF this, of "entries b" ep 0]
  have "set (entries (snd (remove_contact ep b))) \<subseteq> set (entries b)"
    by (cases "remove_loop ep 0 (entries b)") (simp add: remove_contact_def)
  with k show ?thesis by (rule known_entries)
qed

lemma known_erase: "known T b \<Longrightarrow> known T (b\<lparr>entries := erase_at i (entries b)\<rparr>)"
  by (erule known_entries) (simp add: set_erase_at_subset)

lemma known_build_proximity: "known T (snd (bucket_build_proximity k b)) = known T b"
  by (simp add: known_def build_proximity_keeps)

interpretation contacts_known: core_frame "\<lambda>s. known T (contacts s)" for T
proof unfold_locales
  show "known T (contacts s) = known T (contacts s')" if "node_core s = node_core s'" for s s'
    using same_core(2) [OF that] by simp
qed

interpretation contacts_known: public_frame P "\<lambda>s. known T (contacts s)" for P T
  by (unfold_locales; (erule contacts_known.core_laws)?) (simp_all add: known_build_proximity known_remove known_erase)

text \<open>The endpoint of the message that is handled stays what it is.\<close>

interpretation sender_kept: core_frame "\<lambda>s. sender_endpoint s = u" for u
proof unfold_locales
  show "(sender_endpoint s = u) = (sender_endpoint s' = u)" if "node_core s = node_core s'" for s s'
    using arg_cong [OF that, of sender_endpoint] by simp
qed

interpretation sender_kept: node_frame P "\<lambda>s. sender_endpoint s = u" for P u
  by (unfold_locales; (erule sender_kept.core_laws)?) simp_all

text \<open>
  While the message from \<open>u\<close> is handled: the invariant of the node, contacts that \<open>T\<close> allows, the endpoint
  of the sender.
\<close>

definition hears :: "(key_text \<times> endpoint_proto \<Rightarrow> bool) \<Rightarrow> tcp_endpoint \<Rightarrow> node \<Rightarrow> bool" where
  "hears T u s \<longleftrightarrow> node_ok s \<and> known T (contacts s) \<and> sender_endpoint s = u"

lemma hears_parts:
  assumes "preserves node_ok m" and "preserves (\<lambda>s. known T (contacts s)) m" and "preserves (\<lambda>s. sender_endpoint s = u) m"
  shows "preserves (hears T u) m"
  using assms by (simp add: preserves_def hears_def)

lemma hears_add:
  assumes "T (k, epp)"
  shows "preserves (hears T u) (add_contact_now P k epp)"
proof (rule preservesI)
  fix s assume s: "hears T u s"
  then have b: "bucket_ok (contacts s)" "known T (contacts s)" by (simp_all add: hears_def node_ok_def)
  have "node_ok (snd (add_contact_now P k epp s))"
    using preservesD [OF ok.ok_add_contact_now] s by (simp add: hears_def)
  moreover have "sender_endpoint (snd (add_contact_now P k epp s)) = u"
    using s by (simp add: hears_def add_contact_now_def update_time_bnd Node.on_contacts_def on_part_run split: prod.split)
  moreover have "known T (contacts (snd (add_contact_now P k epp s)))"
    using known_add [of _ T k epp, OF b] assms b(2)
    by (simp add: add_contact_now_def update_time_bnd Node.on_contacts_def on_part_run split: prod.split) (metis snd_conv)
  ultimately show "hears T u (snd (add_contact_now P k epp s))" by (simp add: hears_def)
qed

lemma hears_message:
  assumes "type_of m \<noteq> REPLY_PING"
  shows "preserves (hears T u) (handle_message P m)"
proof (rule hears_parts)
  show "preserves node_ok (handle_message P m)" by (rule ok.ok_handle_message)
  show "preserves (\<lambda>s. known T (contacts s)) (handle_message P m)" "preserves (\<lambda>s. sender_endpoint s = u) (handle_message P m)"
    using assms unfolding handle_message_def
    by (auto split: message_type.split intro: contacts_known.ok_handlers sender_kept.ok_handlers preserves_throw)
qed

lemma hears_reply_ping:
  assumes "endpoint_to_proto u = Ok epp" and "T (from_id m, epp)"
  shows "preserves (hears T u) (handle_REPLY_PING P m)"
proof -
  have enter: "preserves (hears T u) (bnd (reads sender_endpoint) (\<lambda>sep. bnd (lift_outcome (endpoint_to_proto sep))
      (\<lambda>epp. add_contact_now P (from_id m) epp)))"
    using preservesD [OF hears_add [of T "from_id m" epp, OF assms(2)]] assms(1)
    by (intro preservesI) (simp add: bnd_run reads_run lift_outcome_run hears_def)
  have time: "preserves (hears T u) (update_time P)"
    by (rule hears_parts) (rule ok.ok_update_time contacts_known.ok_update_time sender_kept.ok_update_time)+
  have ttl: "preserves (hears T u) (writes (\<lambda>s. s\<lparr>ping_ttl := f s\<rparr>))" for f
    by (rule hears_parts) (rule ok.ok_writes_counters contacts_known.ok_writes_counters sender_kept.ok_writes_counters)+
  show ?thesis
    unfolding handle_REPLY_PING_def Let_def
    by (auto split: option.split intro!: preserves_rules enter time ttl)
qed

text \<open>A received message changes the contacts only while it is handled.\<close>

lemma receive_contacts:
  "contacts (snd (handle_receive P ep body s)) =
    (if giant_lock s then contacts s else contacts (snd (receive_body P ep body (s\<lparr>giant_lock := True\<rparr>))))"
proof (cases "giant_lock s")
  case False
  obtain r s' where run: "receive_body P ep body (s\<lparr>giant_lock := True\<rparr>) = (r, s')" by fastforce
  have "contacts (snd (thn unlock_giant (throw_exn e) t)) = contacts t" for e and t
    by (simp add: bnd_run unlock_giant_def throw_run)
  with False run show ?thesis
    by (auto simp: handle_receive_def scoped_def lock_giant_def unlock_giant_def try_std_run bnd_run throw_run
        split: outcome.split exn.split sum.split)
qed (simp add: handle_receive_def scoped_def lock_giant_def)

lemma receive_known:
  assumes "node_ok s" and "known T (contacts s)"
    and "\<And>c. T c \<Longrightarrow> T' c" and "\<And>c. introduces P (hearing_of P ep body s) c \<Longrightarrow> T' c"
  shows "known T' (contacts (snd (handle_receive P ep body s)))"
proof -
  define m where "m = parse P body"
  define s2 where "s2 = s\<lparr>giant_lock := True, sender_endpoint := ep\<rparr>"
  have s2: "hears T' ep s2" "ping_ttl s2 = ping_ttl s"
    using assms(1) known_weaken [OF assms(2), of T'] assms(3) by (simp_all add: hears_def s2_def node_ok_def)
  have same: "known T' (contacts s)" using known_weaken [OF assms(2), of T'] assms(3) by simp
  have msg: "known T' (contacts (snd (handle_message_from P m epp s2)))" if ep: "endpoint_to_proto ep = Ok epp" for epp
  proof -
    have intro: "T' (from_id m, epp)"
      if "is_request (type_of m) \<or> type_of m = REPLY_PING \<and> map_of (ping_ttl s) (token_of m) \<noteq> None"
      by (rule assms(4)) (use that ep in \<open>simp add: hearing_of_def m_def\<close>)
    consider (request) "is_request (type_of m)" | (pong) "type_of m = REPLY_PING" "map_of (ping_ttl s) (token_of m) \<noteq> None"
      | (unasked) "type_of m = REPLY_PING" "map_of (ping_ttl s) (token_of m) = None"
      | (other) "\<not> is_request (type_of m)" "type_of m \<noteq> REPLY_PING" by blast
    then have "hears T' ep (snd (handle_message_from P m epp s2))"
    proof cases
      case request
      then have "type_of m \<noteq> REPLY_PING" by (auto simp: is_request_def)
      from preservesD [OF preserves_bnd [OF hears_add [of T' "from_id m" epp, OF intro] hears_message [OF this]] s2(1)] request
      show ?thesis by (simp add: handle_message_from_def)
    next
      case pong
      from preservesD [OF hears_reply_ping [OF ep, of T' m, OF intro] s2(1)] pong show ?thesis
        by (simp add: handle_message_from_def is_request_def is_reply_def handle_message_def)
    next
      case unasked
      then show ?thesis
        using s2 by (simp add: handle_message_from_def is_request_def is_reply_def reply_ping_unknown)
    next
      case other
      from preservesD [OF hears_message [OF other(2)] s2(1)] other(1) s2(1) show ?thesis
        by (simp add: handle_message_from_def throw_run)
    qed
    then show ?thesis by (simp add: hears_def)
  qed
  have "receive_body P ep body (s\<lparr>giant_lock := True\<rparr>) =
      bnd (lift_outcome (endpoint_to_proto ep)) (handle_message_from P m) s2"
    by (simp add: receive_body_def bnd_run [of "writes f" for f] writes_run s2_def m_def)
  then have "known T' (contacts (snd (receive_body P ep body (s\<lparr>giant_lock := True\<rparr>))))"
    using msg same by (cases "endpoint_to_proto ep") (simp_all add: bnd_run lift_outcome_run s2_def)
  then show ?thesis using same by (simp add: receive_contacts)
qed

section \<open>Properties\<close>

text \<open>
  C8 (a contact is one the node has heard from): in every state of every run, each contact of the table
  was introduced by a message of the run itself: a request, or the answer to a ping the node was waiting
  for, which named the key of the contact and came from its endpoint.  So no peer can put another into
  the table of a node, whatever contacts its answers list.
\<close>

theorem contacts_were_heard_from:
  assumes "heard_run P tr s" and "e \<in> set (entries (contacts s))"
  shows "\<exists>hr \<in> set tr. introduces P hr (contact_key (snd e), contact_ep (snd e))"
proof -
  have "known (\<lambda>c. \<exists>hr \<in> set tr. introduces P hr c) (contacts s)"
    using assms(1)
  proof (induction rule: heard_run.induct)
    case (start k path p mx)
    show ?case by (rule contacts_known.ok_start_node) (simp add: new_node_def new_bucket_def known_def)
  next
    case (receive tr s ep body)
    from receive_known [OF reachable_ok [OF heard_run_reachable [OF receive.hyps]] receive.IH] show ?case by auto
  next
    case (own tr s s')
    from contacts_known.ok_own_step [OF own.hyps(2) own.IH] show ?case .
  qed
  with assms(2) show ?thesis by (simp add: known_def)
qed

text \<open>A node that has just started hears a ping.\<close>

lemma first_contact:
  assumes "k \<noteq> lk" and "good_ep ep"
  shows "entries (snd (add_contact r now k ep (new_bucket lk))) \<noteq> []"
  using new_bucket_ok [of lk]
proof (cases rule: add_contact_cases [of "new_bucket lk" k r now ep])
  case (undefined)
  then show ?thesis by (simp add: make_room_def new_bucket_def mm_count_def BUCKET_SIZE_def)
next
  case (new m)
  have "mm_insert i c m \<noteq> []" for i c using set_mm_insert [of i c m] by (metis empty_set insert_not_empty)
  with new show ?thesis by simp
qed (use assms in \<open>simp_all add: new_bucket_def\<close>)

theorem contacts_were_heard_from_witness:
  "\<exists>e. e \<in> set (entries (contacts (snd (handle_receive demo_platform demo_peer ''ping'' demo_start)))) \<and>
     introduces demo_platform (hearing_of demo_platform demo_peer ''ping'' demo_start) (contact_key (snd e), contact_ep (snd e))"
proof -
  let ?s = "snd (handle_receive demo_platform demo_peer ''ping'' demo_start)"
  have run: "heard_run demo_platform ([] @ [hearing_of demo_platform demo_peer ''ping'' demo_start]) ?s"
    unfolding demo_start_def by (intro heard_run.receive heard_run.start demo_start_runs)
  define s2 where "s2 = demo_start\<lparr>giant_lock := True, sender_endpoint := demo_peer\<rparr>"
  define m where "m = new_message SEND_PING ''02'' 7"
  have "type_of m \<noteq> REPLY_PING" by (simp add: m_def new_message_def)
  then have "entries (contacts (snd (handle_message demo_platform m t))) = entries (contacts t)" for t
    by (rule handlers_keep_entries)
  then have "entries (contacts (snd (thn (add_contact_now demo_platform ''02'' epp) (handle_message demo_platform m) s2))) =
      entries (contacts (snd (add_contact_now demo_platform ''02'' epp s2)))" for epp
    by (rule snd_thn_frame [where f = "\<lambda>s. entries (contacts s)"])
  moreover have "endpoint_to_proto demo_peer = Ok (Endpoint ''h'' (show_nat 80))"
    by (simp add: endpoint_to_proto_good demo_peer_def)
  moreover have "is_request (type_of m)" "from_id m = ''02''" "parse demo_platform ''ping'' = m"
    by (simp_all add: m_def new_message_def is_request_def demo_platform_simps demo_parse_def)
  ultimately have "entries (contacts ?s) = entries (snd (add_contact True (int (clock_reads s2)) ''02'' (Endpoint ''h'' (show_nat 80)) (contacts s2)))"
    by (simp add: receive_contacts demo_start_state receive_body_def bnd_run [of "writes f" for f] bnd_run [of "lift_outcome r" for r]
        writes_run lift_outcome_run handle_message_from_def add_contact_now_entries demo_platform_simps flip: s2_def)
  moreover have "contacts s2 = new_bucket (key_to_string 1)" by (simp add: s2_def demo_start_state)
  moreover have "''02'' \<noteq> key_to_string 1" by code_simp
  ultimately have "entries (contacts ?s) \<noteq> []" using first_contact by (simp add: good_ep_def)
  then obtain e where "e \<in> set (entries (contacts ?s))" by (cases "entries (contacts ?s)") auto
  with contacts_were_heard_from [OF run this] show ?thesis by (intro exI [of _ e]) simp
qed

end
