(* ===== verification/Session.thy ===== *)
theory Session
  imports Packet
begin

text \<open>
  The sessions of a node with its peers: class \<open>session\<close> of \<open>Sources/miniDHT_session.h\<close>, the map from
  endpoints to session pointers they share with the node, and the part of \<open>Sources/miniDHT.cpp\<close> that
  makes sessions.  A session is an object with a count of references that deletes itself; here the
  objects are numbered, a deleted one is no longer there, and using it is undefined.
\<close>

section \<open>State\<close>

text \<open>What a session asked of the network and waits for.\<close>

datatype io_op = Await_connect | Await_header | Await_body nat | Await_write packet

text \<open>
  \<open>awaiting\<close> are the operations whose handler will be called.  Two fields are for the statements
  only: \<open>read_over\<close> says that reading or connecting failed, \<open>written\<close> lists the packets that were
  written.
\<close>

record peer_session =
  remote_ep :: tcp_endpoint
  read_msg :: packet
  write_msgs :: "packet list"
  connected :: bool
  ref_count :: int
  local_lock :: bool
  awaiting :: "io_op list"
  read_over :: bool
  written :: "packet list"

definition no_endpoint :: tcp_endpoint where
  "no_endpoint = \<lparr>ip_text = ''0.0.0.0'', ip_port = 0\<rparr>"

definition new_session :: peer_session where
  "new_session = \<lparr>remote_ep = no_endpoint, read_msg = empty_packet, write_msgs = [], connected = False,
     ref_count = 1, local_lock = False, awaiting = [], read_over = False, written = []\<rparr>"

text \<open>
  The objects that exist, by number; the map of the node; the session that waits for the next peer to
  accept; what the callbacks see.
\<close>

record 'n hub =
  live :: "(nat \<times> peer_session) list"
  session_map :: "(endpoint_proto \<times> nat) list"
  acceptor :: "nat option"
  next_object :: nat
  orphans :: "io_op list"
  app :: 'n

text \<open>
  The two callbacks: what they do to the state of the node, and the packets they send, in order.
\<close>

record 'n hub_env =
  got_message :: "tcp_endpoint \<Rightarrow> packet \<Rightarrow> 'n \<Rightarrow> unit outcome \<times> 'n \<times> (tcp_endpoint \<times> packet) list"
  got_disconnected :: "tcp_endpoint \<Rightarrow> 'n \<Rightarrow> unit outcome \<times> 'n"

section \<open>Objects\<close>

definition access :: "nat \<Rightarrow> (peer_session, 'a) cpp \<Rightarrow> ('n hub, 'a) cpp" where
  "access i m = (\<lambda>h. case map_of (live h) i of
       None \<Rightarrow> (Abort Undefined_behaviour, h)
     | Some x \<Rightarrow> (case m x of (r, x') \<Rightarrow> (r, h\<lparr>live := omap_put i x' (live h)\<rparr>)))"

definition lock_local :: "(peer_session, unit) cpp" where
  "lock_local = (\<lambda>x. if local_lock x then (Abort Deadlock, x) else (Ok (), x\<lparr>local_lock := True\<rparr>))"

definition unlock_local :: "(peer_session, unit) cpp" where
  "unlock_local = (\<lambda>x. if local_lock x then (Ok (), x\<lparr>local_lock := False\<rparr>)
                      else (Abort Undefined_behaviour, x))"

definition scoped_local :: "(peer_session, 'a) cpp \<Rightarrow> (peer_session, 'a) cpp" where
  "scoped_local m =
     thn lock_local (\<lambda>x. case m x of
       (Ok a, x') \<Rightarrow> thn unlock_local (ret a) x'
     | (Throw e, x') \<Rightarrow> thn unlock_local (throw_exn e) x'
     | (Abort f, x') \<Rightarrow> (Abort f, x'))"

definition add_ref :: "int \<Rightarrow> (peer_session, unit) cpp" where
  "add_ref n = writes (\<lambda>x. x\<lparr>ref_count := ref_count x + n\<rparr>)"

definition await :: "io_op \<Rightarrow> (peer_session, unit) cpp" where
  "await op = writes (\<lambda>x. x\<lparr>awaiting := awaiting x @ [op]\<rparr>)"

section \<open>The public functions\<close>

text \<open>\<open>rem\<close> is what \<open>socket_.remote_endpoint()\<close> gives, or the message of the exception it throws.\<close>

definition read_remote :: "string + tcp_endpoint \<Rightarrow> (peer_session, tcp_endpoint) cpp" where
  "read_remote rem = lift_outcome (case rem of Inl msg \<Rightarrow> Throw (Std_exception msg) | Inr ep \<Rightarrow> Ok ep)"

definition start :: "string + tcp_endpoint \<Rightarrow> (peer_session, unit) cpp" where
  "start rem = scoped_local (
     bnd (reads connected) (\<lambda>c.
     thn (when_cpp (\<not> c) (bnd (read_remote rem) (\<lambda>ep. writes (\<lambda>x. x\<lparr>remote_ep := ep\<rparr>))))
    (thn (add_ref 1)
         (await Await_header))))"

definition connect :: "tcp_endpoint \<Rightarrow> (peer_session, unit) cpp" where
  "connect ep = scoped_local (
     thn (writes (\<lambda>x. x\<lparr>connected := True, remote_ep := ep\<rparr>))
    (thn (add_ref 1)
         (await Await_connect)))"

definition write_front :: "(peer_session, unit) cpp" where
  "write_front = (\<lambda>x. case write_msgs x of
       [] \<Rightarrow> (Abort Undefined_behaviour, x)
     | p # ps \<Rightarrow> thn (add_ref 1) (await (Await_write p)) x)"

definition deliver :: "packet \<Rightarrow> (peer_session, unit) cpp" where
  "deliver msg = scoped_local (
     bnd (reads (\<lambda>x. write_msgs x \<noteq> [])) (\<lambda>write_in_progress.
     bnd (lift_outcome (copy_packet msg)) (\<lambda>copy.
     thn (writes (\<lambda>x. x\<lparr>write_msgs := write_msgs x @ [copy]\<rparr>))
         (when_cpp (\<not> write_in_progress) write_front))))"

section \<open>The handlers\<close>

text \<open>
  \<open>release\<close>: the last reference erases whatever session the map has for the endpoint of this one, and
  deletes the object.
\<close>

definition erase_endpoint :: "tcp_endpoint \<Rightarrow> ('n hub, unit) cpp" where
  "erase_endpoint ep =
     bnd (lift_outcome (endpoint_to_proto ep)) (\<lambda>epp.
       writes (\<lambda>h. h\<lparr>session_map := omap_erase epp (session_map h)\<rparr>))"

definition delete_object :: "nat \<Rightarrow> ('n hub, unit) cpp" where
  "delete_object i = (\<lambda>h. case map_of (live h) i of
       None \<Rightarrow> (Abort Undefined_behaviour, h)
     | Some x \<Rightarrow> (Ok (), h\<lparr>live := omap_erase i (live h), orphans := orphans h @ awaiting x\<rparr>))"

definition release :: "nat \<Rightarrow> ('n hub, unit) cpp" where
  "release i =
     thn (access i (thn lock_local (add_ref (- 1))))
    (bnd (access i (reads ref_count)) (\<lambda>n.
       if n \<le> 0 then
         bnd (access i (reads remote_ep)) (\<lambda>ep.
         thn (erase_endpoint ep)
        (thn (access i unlock_local)
             (delete_object i)))
       else access i unlock_local))"

text \<open>The end of the reading side, for the statements.\<close>

definition note_read_over :: "nat \<Rightarrow> ('n hub, unit) cpp" where
  "note_read_over i = access i (writes (\<lambda>x. x\<lparr>read_over := True\<rparr>))"

definition handle_connect :: "nat \<Rightarrow> bool \<Rightarrow> string + tcp_endpoint \<Rightarrow> ('n hub, unit) cpp" where
  "handle_connect i error rem =
     thn (access i (thn lock_local (add_ref (- 1))))
    (thn (access i unlock_local)
      (if \<not> error then access i (start rem)
       else thn (note_read_over i) (release i)))"

text \<open>The map after a header: this session is the one of its endpoint.\<close>

definition register :: "nat \<Rightarrow> endpoint_proto \<Rightarrow> ('n hub, unit) cpp" where
  "register i epp = writes (\<lambda>h. case map_of (session_map h) epp of
       None \<Rightarrow> h\<lparr>session_map := omap_put epp i (session_map h)\<rparr>
     | Some j \<Rightarrow>
         if j \<noteq> i then h\<lparr>session_map := omap_put epp i (omap_erase epp (session_map h))\<rparr> else h)"

text \<open>The bytes a read leaves in \<open>read_msg_\<close>, and what \<open>decode_header\<close> makes of them.\<close>

definition fill_at :: "nat \<Rightarrow> string \<Rightarrow> packet \<Rightarrow> packet" where
  "fill_at pos bytes m = m\<lparr>packet_data :=
     take pos (packet_data m) @ map Some bytes @ drop (pos + length bytes) (packet_data m)\<rparr>"

definition on_read_msg :: "(packet, 'a) cpp \<Rightarrow> (peer_session, 'a) cpp" where
  "on_read_msg m = on_part read_msg (\<lambda>p x. x\<lparr>read_msg := p\<rparr>) m"

definition own_endpoint :: "string + tcp_endpoint \<Rightarrow> (peer_session, unit) cpp" where
  "own_endpoint rem =
     bnd (reads connected) (\<lambda>c. when_cpp (\<not> c)
       (bnd (read_remote rem) (\<lambda>r. writes (\<lambda>x. x\<lparr>remote_ep :=
          \<lparr>ip_text = ip_text r, ip_port = packet_port (read_msg x)\<rparr>\<rparr>))))"

definition handle_read_header ::
  "'n hub_env \<Rightarrow> nat \<Rightarrow> bool \<Rightarrow> string + tcp_endpoint \<Rightarrow> ('n hub, unit) cpp" where
  "handle_read_header E i error rem =
     thn (access i (thn lock_local (add_ref (- 1))))
    (try_std
      (bnd (if error then ret False else access i (on_read_msg decode_header)) (\<lambda>good.
         if good then
           thn (access i (own_endpoint rem))
          (bnd (access i (reads remote_ep)) (\<lambda>ep.
           bnd (lift_outcome (endpoint_to_proto ep)) (\<lambda>epp.
           thn (register i epp)
          (thn (access i (thn (add_ref 1)
                  (bnd (reads (\<lambda>x. body_size (read_msg x))) (\<lambda>n. await (Await_body n)))))
               (access i unlock_local)))))
         else throw_exn (Std_exception ''Error in handle_read_header : '')))
      (\<lambda>_.
         thn (access i unlock_local)
        (bnd (access i (reads remote_ep)) (\<lambda>ep.
         thn (\<lambda>h. case got_disconnected E ep (app h) of (r, n) \<Rightarrow> (r, h\<lparr>app := n\<rparr>))
        (thn (note_read_over i)
             (release i))))))"

text \<open>
  What the node sends, from a callback or by itself: to the session the map has for the endpoint, or
  to a new one that is told to connect.
\<close>

definition make_session :: "('n hub, nat) cpp" where
  "make_session = (\<lambda>h. (Ok (next_object h),
     h\<lparr>live := omap_put (next_object h) new_session (live h), next_object := Suc (next_object h)\<rparr>))"

definition hub_send :: "tcp_endpoint \<Rightarrow> packet \<Rightarrow> ('n hub, unit) cpp" where
  "hub_send uep msg =
     bnd (lift_outcome (endpoint_to_proto uep)) (\<lambda>epp.
     bnd (reads (\<lambda>h. map_of (session_map h) epp)) (\<lambda>ite.
       case ite of
         None \<Rightarrow> bnd make_session (\<lambda>i. thn (access i (connect uep)) (access i (deliver msg)))
       | Some i \<Rightarrow> access i (deliver msg)))"

definition handle_read_body :: "'n hub_env \<Rightarrow> nat \<Rightarrow> bool \<Rightarrow> ('n hub, unit) cpp" where
  "handle_read_body E i error =
     thn (access i (thn lock_local (add_ref (- 1))))
    (if \<not> error then
       thn (access i unlock_local)
      (bnd (access i (reads (\<lambda>x. (remote_ep x, read_msg x)))) (\<lambda>(ep, m).
       bnd (\<lambda>h. case got_message E ep m (app h) of (r, n, out) \<Rightarrow> (Ok (r, out), h\<lparr>app := n\<rparr>)) (\<lambda>(r, out).
       thn (for_each (\<lambda>(uep, msg). hub_send uep msg) out)
      (thn (lift_outcome r)
      (thn (access i lock_local)
      (thn (access i (thn (add_ref 1) (await Await_header)))
           (access i unlock_local)))))))
     else
       thn (access i unlock_local)
      (thn (note_read_over i)
           (release i)))"

definition pop_front :: "(peer_session, unit) cpp" where
  "pop_front = (\<lambda>x. case write_msgs x of
       [] \<Rightarrow> (Abort Undefined_behaviour, x)
     | p # ps \<Rightarrow> (Ok (), x\<lparr>write_msgs := ps, written := written x @ [p]\<rparr>))"

definition handle_write :: "nat \<Rightarrow> bool \<Rightarrow> ('n hub, unit) cpp" where
  "handle_write i error =
     thn (access i (thn lock_local (add_ref (- 1))))
    (if \<not> error then
       thn (access i pop_front)
      (thn (access i (bnd (reads (\<lambda>x. write_msgs x \<noteq> [])) (\<lambda>more. when_cpp more write_front)))
           (access i unlock_local))
     else
       thn (access i unlock_local)
           (release i))"

section \<open>Accepting\<close>

definition start_accept :: "('n hub, unit) cpp" where
  "start_accept = bnd make_session (\<lambda>i. writes (\<lambda>h. h\<lparr>acceptor := Some i\<rparr>))"

text \<open>
  The \<open>catch\<close> of \<open>handle_accept\<close> unlocks the lock of the node, which the block it has left has
  released already.
\<close>

definition handle_accept :: "nat \<Rightarrow> bool \<Rightarrow> string + tcp_endpoint \<Rightarrow> ('n hub, unit) cpp" where
  "handle_accept i error rem = try_std
     (thn (when_cpp (\<not> error) (access i (start rem))) start_accept)
     (\<lambda>_. abort Undefined_behaviour)"

section \<open>Events\<close>

text \<open>
  What happens to the sessions: a peer is accepted or accepting fails, the node sends a packet, an
  operation ends, with an error or with the bytes it read.  An event that cannot happen, since no
  session awaits it, does nothing.
\<close>

datatype hub_event =
    Accepted bool "string + tcp_endpoint"
  | Send tcp_endpoint packet
  | Connect_done nat bool "string + tcp_endpoint"
  | Header_done nat bool string "string + tcp_endpoint"
  | Body_done nat bool string
  | Write_done nat bool

definition awaits :: "nat \<Rightarrow> (io_op \<Rightarrow> bool) \<Rightarrow> 'n hub \<Rightarrow> bool" where
  "awaits i p h \<longleftrightarrow> (case map_of (live h) i of None \<Rightarrow> False | Some x \<Rightarrow> (\<exists>op \<in> set (awaiting x). p op))"

definition done_op :: "nat \<Rightarrow> (io_op \<Rightarrow> bool) \<Rightarrow> ('n hub, unit) cpp" where
  "done_op i p = access i (writes (\<lambda>x. x\<lparr>awaiting := filter (\<lambda>op. \<not> p op) (awaiting x)\<rparr>))"

definition fill_read_msg :: "nat \<Rightarrow> nat \<Rightarrow> bool \<Rightarrow> string \<Rightarrow> ('n hub, unit) cpp" where
  "fill_read_msg i pos error bytes =
     when_cpp (\<not> error) (access i (on_read_msg (writes (fill_at pos bytes))))"

definition is_body :: "io_op \<Rightarrow> bool" where "is_body op \<longleftrightarrow> (\<exists>n. op = Await_body n)"
definition is_write :: "io_op \<Rightarrow> bool" where "is_write op \<longleftrightarrow> (\<exists>p. op = Await_write p)"

lemma is_op_simps [simp]:
  "is_body (Await_body n)" "\<not> is_body (Await_write p)" "\<not> is_body Await_header" "\<not> is_body Await_connect"
  "is_write (Await_write p)" "\<not> is_write (Await_body n)" "\<not> is_write Await_header" "\<not> is_write Await_connect"
  by (simp_all add: is_body_def is_write_def)

fun handle_event :: "'n hub_env \<Rightarrow> hub_event \<Rightarrow> ('n hub, unit) cpp" where
  "handle_event E (Accepted error rem) = (\<lambda>h. case acceptor h of
       None \<Rightarrow> (Ok (), h) | Some i \<Rightarrow> handle_accept i error rem h)"
| "handle_event E (Send uep msg) = hub_send uep msg"
| "handle_event E (Connect_done i error rem) = (\<lambda>h.
     if awaits i (\<lambda>op. op = Await_connect) h
     then thn (done_op i (\<lambda>op. op = Await_connect)) (handle_connect i error rem) h else (Ok (), h))"
| "handle_event E (Header_done i error bytes rem) = (\<lambda>h.
     if awaits i (\<lambda>op. op = Await_header) h \<and> (error \<or> length bytes = header_length)
     then thn (done_op i (\<lambda>op. op = Await_header))
       (thn (fill_read_msg i 0 error bytes) (handle_read_header E i error rem)) h else (Ok (), h))"
| "handle_event E (Body_done i error bytes) = (\<lambda>h.
     if awaits i (\<lambda>op. is_body op \<and> (error \<or> op = Await_body (length bytes))) h
     then thn (done_op i is_body)
       (thn (fill_read_msg i header_length error bytes) (handle_read_body E i error)) h else (Ok (), h))"
| "handle_event E (Write_done i error) = (\<lambda>h.
     if awaits i is_write h then thn (done_op i is_write) (handle_write i error) h else (Ok (), h))"

text \<open>The hub of a node that has just started to accept.\<close>

definition fresh_hub :: "'n \<Rightarrow> 'n hub" where
  "fresh_hub n = snd (start_accept \<lparr>live = [], session_map = [], acceptor = None, next_object = 0,
     orphans = [], app = n\<rparr>)"

end
