(* ===== verification/Session_Invariant.thy ===== *)
theory Session_Invariant
  imports Session
begin

text \<open>
  What the sessions keep, whatever the peers and the network do: the count of references is right, no
  operation outlives its session, and packets are written in the order they were delivered.
\<close>

section \<open>The invariant\<close>

definition reading :: "peer_session \<Rightarrow> io_op list" where
  "reading x = filter (\<lambda>op. \<not> is_write op) (awaiting x)"

definition writing :: "peer_session \<Rightarrow> io_op list" where
  "writing x = filter is_write (awaiting x)"

text \<open>A write has failed: packets wait, none is being written, and none ever will be.\<close>

definition write_over :: "peer_session \<Rightarrow> bool" where
  "write_over x \<longleftrightarrow> writing x = [] \<and> write_msgs x \<noteq> []"

text \<open>
  One reference is the session's own, until reading or writing is over; the others are those of the
  operations.  At most one read and one write are awaited, the write is that of the first packet in
  the queue.
\<close>

definition session_ok :: "peer_session \<Rightarrow> bool" where
  "session_ok x \<longleftrightarrow> \<not> local_lock x \<and>
     ref_count x = 1 + int (length (awaiting x)) - of_bool (read_over x) - of_bool (write_over x) \<and>
     length (reading x) \<le> 1 \<and> (read_over x \<longrightarrow> reading x = []) \<and>
     (writing x \<noteq> [] \<longrightarrow> write_msgs x \<noteq> [] \<and> writing x = [Await_write (hd (write_msgs x))]) \<and>
     \<not> (read_over x \<and> write_over x)"

definition idle :: "peer_session \<Rightarrow> bool" where
  "idle x \<longleftrightarrow> reading x = [] \<and> \<not> read_over x"

definition hub_ok :: "'n hub \<Rightarrow> bool" where
  "hub_ok h \<longleftrightarrow> omap_ok (live h) \<and> (\<forall>e \<in> set (live h). fst e < next_object h \<and> session_ok (snd e)) \<and>
     (\<forall>e \<in> set (session_map h). snd e < next_object h) \<and> orphans h = [] \<and>
     (\<forall>i. acceptor h = Some i \<longrightarrow> (\<exists>x. map_of (live h) i = Some x \<and> idle x \<and> writing x = [] \<and> write_msgs x = []) \<and>
        i \<notin> snd ` set (session_map h))"

section \<open>Running on one object\<close>

lemma access_run:
  "map_of (live h) i = Some x \<Longrightarrow> access i m h = (fst (m x), h\<lparr>live := omap_put i (snd (m x)) (live h)\<rparr>)"
  by (simp add: access_def split: prod.split)

text \<open>\<open>at i x h\<close>: the hub with the object \<open>i\<close> in the state \<open>x\<close>.\<close>

definition at :: "nat \<Rightarrow> peer_session \<Rightarrow> 'n hub \<Rightarrow> 'n hub" where
  "at i x h = h\<lparr>live := omap_put i x (live h)\<rparr>"

lemma at_simps [simp]:
  "live (at i x h) = omap_put i x (live h)" "session_map (at i x h) = session_map h"
  "acceptor (at i x h) = acceptor h" "next_object (at i x h) = next_object h"
  "orphans (at i x h) = orphans h" "app (at i x h) = app h" "at i y (at i x h) = at i y h"
  by (simp_all add: at_def)

lemma access_at [simp]: "access i m (at i x h) = (fst (m x), at i (snd (m x)) h)"
  by (simp add: access_def at_def split: prod.split)

lemma at_app [simp]: "(at i x h)\<lparr>app := n\<rparr> = at i x (h\<lparr>app := n\<rparr>)"
  by (simp add: at_def)

lemma at_same: "omap_ok (live h) \<Longrightarrow> map_of (live h) i = Some x \<Longrightarrow> h = at i x h"
  by (simp add: at_def omap_put_same)

lemma awaits_at:
  assumes "omap_ok (live h)" and "awaits i p h"
  obtains x op where "h = at i x h" and "map_of (live h) i = Some x" and "op \<in> set (awaiting x)" and "p op"
proof -
  from assms(2) obtain x op where x: "map_of (live h) i = Some x" "op \<in> set (awaiting x)" "p op"
    by (auto simp: awaits_def split: option.splits)
  then show ?thesis using that at_same [OF assms(1) x(1)] by blast
qed

lemma erase_endpoint_at: "erase_endpoint ep (at i x h) = (case endpoint_to_proto ep of
     Ok epp \<Rightarrow> (Ok (), at i x (h\<lparr>session_map := omap_erase epp (session_map h)\<rparr>))
   | Throw e \<Rightarrow> (Throw e, at i x h) | Abort f \<Rightarrow> (Abort f, at i x h))"
  by (simp add: erase_endpoint_def bnd_run lift_outcome_run writes_run at_def split: outcome.split)

lemma delete_object_at: "delete_object i (at i x h) =
    (Ok (), h\<lparr>live := omap_erase i (live h), orphans := orphans h @ awaiting x\<rparr>)"
  by (simp add: delete_object_def at_def)

lemma release_at:
  assumes "\<not> local_lock x"
  shows "release i (at i x h) =
    (if 1 < ref_count x then (Ok (), at i (x\<lparr>ref_count := ref_count x - 1\<rparr>) h)
     else case endpoint_to_proto (remote_ep x) of
       Ok epp \<Rightarrow> (Ok (), h\<lparr>live := omap_erase i (live h), session_map := omap_erase epp (session_map h),
         orphans := orphans h @ awaiting x\<rparr>)
     | Throw e \<Rightarrow> (Throw e, at i (x\<lparr>ref_count := ref_count x - 1, local_lock := True\<rparr>) h)
     | Abort f \<Rightarrow> (Abort f, at i (x\<lparr>ref_count := ref_count x - 1, local_lock := True\<rparr>) h))"
  using assms
  by (cases x) (simp add: release_def bnd_run lock_local_def unlock_local_def add_ref_def writes_run reads_run
      erase_endpoint_at delete_object_at split: outcome.split)

section \<open>What keeps a session in order\<close>

lemma awaiting_length: "length (awaiting x) = length (reading x) + length (writing x)"
  using sum_length_filter_compl [of is_write "awaiting x"] by (simp add: reading_def writing_def)

lemma session_ok_new: "session_ok new_session" "idle new_session" "writing new_session = []" "write_msgs new_session = []"
  by (simp_all add: session_ok_def new_session_def reading_def writing_def write_over_def idle_def)

text \<open>Fields the invariant does not speak of.\<close>

lemma ops_frame [simp]:
  "reading (x\<lparr>ref_count := n\<rparr>) = reading x" "writing (x\<lparr>ref_count := n\<rparr>) = writing x"
  "reading (x\<lparr>local_lock := l\<rparr>) = reading x" "writing (x\<lparr>local_lock := l\<rparr>) = writing x"
  "reading (x\<lparr>read_over := b\<rparr>) = reading x" "writing (x\<lparr>read_over := b\<rparr>) = writing x"
  "reading (x\<lparr>write_msgs := ps\<rparr>) = reading x" "writing (x\<lparr>write_msgs := ps\<rparr>) = writing x"
  by (simp_all add: reading_def writing_def)

lemma session_ok_frame [simp]:
  "session_ok (x\<lparr>remote_ep := e\<rparr>) = session_ok x" "session_ok (x\<lparr>read_msg := m\<rparr>) = session_ok x"
  "session_ok (x\<lparr>connected := c\<rparr>) = session_ok x" "session_ok (x\<lparr>written := ps\<rparr>) = session_ok x"
  "idle (x\<lparr>remote_ep := e\<rparr>) = idle x" "idle (x\<lparr>read_msg := m\<rparr>) = idle x"
  "idle (x\<lparr>connected := c\<rparr>) = idle x" "idle (x\<lparr>written := ps\<rparr>) = idle x"
  "idle (x\<lparr>write_msgs := ps\<rparr>) = idle x"
  "writing (x\<lparr>remote_ep := e\<rparr>) = writing x" "writing (x\<lparr>read_msg := m\<rparr>) = writing x"
  "writing (x\<lparr>connected := c\<rparr>) = writing x"
  by (simp_all add: session_ok_def idle_def reading_def writing_def write_over_def)

text \<open>A read ends: the session is idle, in order, with one reference and one operation less.\<close>

lemma read_done:
  assumes "session_ok x" and "op \<in> set (awaiting x)" and "\<not> is_write op" and "p op"
    and "\<And>op. p op \<Longrightarrow> \<not> is_write op"
  defines "y \<equiv> x\<lparr>awaiting := filter (\<lambda>op. \<not> p op) (awaiting x), ref_count := ref_count x - 1\<rparr>"
  shows "session_ok y" and "idle y" and "writing y = writing x"
proof -
  have "op \<in> set (reading x)" using assms(2,3) by (simp add: reading_def)
  with assms(1) have r: "reading x = [op]" and ro: "\<not> read_over x"
    by (auto simp: session_ok_def le_Suc_eq length_Suc_conv)
  have ry: "reading y = []"
  proof -
    have "reading y = filter (\<lambda>op. \<not> p op) (reading x)"
      by (simp add: reading_def y_def conj_commute)
    then show ?thesis using r assms(4) by simp
  qed
  show w: "writing y = writing x"
    using assms(5) by (auto simp: writing_def y_def intro: filter_cong)
  show "idle y" using ry ro by (simp add: idle_def y_def)
  have "length (awaiting x) = Suc (length (awaiting y))"
    using awaiting_length [of x] awaiting_length [of y] r ry w by simp
  then show "session_ok y"
    using assms(1) ry w ro by (simp add: session_ok_def write_over_def y_def)
qed

lemma session_okI:
  assumes "session_ok x" and "local_lock y = local_lock x" and "read_over y = read_over x"
    and "ref_count y - ref_count x = int (length (awaiting y)) - int (length (awaiting x)) +
      of_bool (write_over x) - of_bool (write_over y)"
    and "length (reading y) \<le> 1" and "read_over y \<longrightarrow> reading y = [] \<and> \<not> write_over y"
    and "writing y \<noteq> [] \<longrightarrow> write_msgs y \<noteq> [] \<and> writing y = [Await_write (hd (write_msgs y))]"
  shows "session_ok y"
  using assms by (simp add: session_ok_def)

lemma read_begin:
  assumes "session_ok x" and "idle x" and "\<not> is_write op"
  defines "y \<equiv> x\<lparr>ref_count := ref_count x + 1, awaiting := awaiting x @ [op]\<rparr>"
  shows "session_ok y"
proof (rule session_okI [OF assms(1)])
  have r: "reading y = [op]" and w: "writing y = writing x"
    using assms(2,3) by (simp_all add: reading_def writing_def idle_def y_def)
  have wo: "write_over y = write_over x" using w by (simp add: write_over_def y_def)
  show "ref_count y - ref_count x = int (length (awaiting y)) - int (length (awaiting x)) +
      of_bool (write_over x) - of_bool (write_over y)"
    unfolding wo by (simp add: y_def)
  show "writing y \<noteq> [] \<longrightarrow> write_msgs y \<noteq> [] \<and> writing y = [Await_write (hd (write_msgs y))]"
    using assms(1) unfolding w by (simp add: session_ok_def y_def)
  show "length (reading y) \<le> 1" "read_over y \<longrightarrow> reading y = [] \<and> \<not> write_over y"
    using r assms(2) by (simp_all add: idle_def y_def)
qed (simp_all add: y_def)

lemma write_begin:
  assumes "session_ok x" and "writing x = []" and "write_msgs x = []"
  shows "session_ok (x\<lparr>write_msgs := p # ps, ref_count := ref_count x + 1, awaiting := awaiting x @ [Await_write p]\<rparr>)"
proof -
  define y where "y = x\<lparr>write_msgs := p # ps, ref_count := ref_count x + 1, awaiting := awaiting x @ [Await_write p]\<rparr>"
  have r: "reading y = reading x" and w: "writing y = [Await_write p]" and q: "write_msgs y = p # ps"
    using assms(2) by (simp_all add: reading_def writing_def y_def)
  have wo: "\<not> write_over y" "\<not> write_over x" using w assms(3) by (simp_all add: write_over_def)
  have "session_ok y"
  proof (rule session_okI [OF assms(1)])
    show "ref_count y - ref_count x = int (length (awaiting y)) - int (length (awaiting x)) +
        of_bool (write_over x) - of_bool (write_over y)"
      using wo by (simp add: y_def)
    show "length (reading y) \<le> 1" "read_over y \<longrightarrow> reading y = [] \<and> \<not> write_over y"
      using assms(1) wo r by (simp_all add: session_ok_def) (simp add: y_def)
    show "writing y \<noteq> [] \<longrightarrow> write_msgs y \<noteq> [] \<and> writing y = [Await_write (hd (write_msgs y))]"
      using w q by simp
  qed (simp_all add: y_def)
  then show ?thesis by (simp add: y_def)
qed

lemma write_queue:
  assumes "session_ok x" and "write_msgs x \<noteq> []"
  shows "session_ok (x\<lparr>write_msgs := write_msgs x @ [p]\<rparr>)"
proof -
  define y where "y = x\<lparr>write_msgs := write_msgs x @ [p]\<rparr>"
  have r: "reading y = reading x" and w: "writing y = writing x" and q: "hd (write_msgs y) = hd (write_msgs x)"
    using assms(2) by (simp_all add: reading_def writing_def y_def)
  have wo: "write_over y = write_over x" using w assms(2) by (simp add: write_over_def y_def)
  have "session_ok y"
  proof (rule session_okI [OF assms(1)])
    show "ref_count y - ref_count x = int (length (awaiting y)) - int (length (awaiting x)) +
        of_bool (write_over x) - of_bool (write_over y)"
      unfolding wo by (simp add: y_def)
    show "length (reading y) \<le> 1" "read_over y \<longrightarrow> reading y = [] \<and> \<not> write_over y"
      using assms(1) wo r by (simp_all add: session_ok_def) (simp add: y_def)
    show "writing y \<noteq> [] \<longrightarrow> write_msgs y \<noteq> [] \<and> writing y = [Await_write (hd (write_msgs y))]"
      using assms(1) unfolding w q by (simp add: session_ok_def y_def)
  qed (simp_all add: y_def)
  then show ?thesis by (simp add: y_def)
qed

text \<open>A write ends: one reference and one operation less, and the first packet leaves the queue.\<close>

lemma write_done:
  assumes "session_ok x" and "op \<in> set (awaiting x)" and "is_write op"
  defines "aw \<equiv> filter (\<lambda>op. \<not> is_write op) (awaiting x)"
  obtains p ps where "write_msgs x = p # ps" and "op = Await_write p" and "writing x = [op]"
    and "session_ok (x\<lparr>write_msgs := [], awaiting := aw, ref_count := ref_count x - 1\<rparr>)"
    and "ref_count x - 1 = 1 + int (length aw) - of_bool (read_over x)"
proof -
  have "op \<in> set (writing x)" using assms(2,3) by (simp add: writing_def)
  with assms(1) have w: "writing x = [op]" "op = Await_write (hd (write_msgs x))" "write_msgs x \<noteq> []"
    by (auto simp: session_ok_def split: if_splits)
  then obtain p ps where "write_msgs x = p # ps" by (auto simp: neq_Nil_conv)
  have len: "length (awaiting x) = Suc (length aw)"
    using awaiting_length [of x] w(1) by (simp add: aw_def reading_def)
  have y: "reading (x\<lparr>write_msgs := [], awaiting := aw, ref_count := ref_count x - 1\<rparr>) = reading x"
    "writing (x\<lparr>write_msgs := [], awaiting := aw, ref_count := ref_count x - 1\<rparr>) = []"
    by (simp_all add: reading_def writing_def aw_def)
  have "ref_count x - 1 = 1 + int (length aw) - of_bool (read_over x)"
    using assms(1) w(1) len by (simp add: session_ok_def write_over_def)
  moreover from this have "session_ok (x\<lparr>write_msgs := [], awaiting := aw, ref_count := ref_count x - 1\<rparr>)"
    using assms(1) y by (simp add: session_ok_def write_over_def)
  ultimately show ?thesis using that w \<open>write_msgs x = p # ps\<close> by auto
qed

section \<open>The functions on one session\<close>

lemma scoped_local_run:
  assumes "\<not> local_lock x" and "\<And>y. local_lock (snd (m y)) = local_lock y"
  shows "scoped_local m x = (case m (x\<lparr>local_lock := True\<rparr>) of
    (Ok a, y) \<Rightarrow> (Ok a, y\<lparr>local_lock := False\<rparr>) | (Throw e, y) \<Rightarrow> (Throw e, y\<lparr>local_lock := False\<rparr>)
  | (Abort f, y) \<Rightarrow> (Abort f, y))"
proof -
  obtain r y where run: "m (x\<lparr>local_lock := True\<rparr>) = (r, y)" by fastforce
  then have "local_lock y" using assms(2) [of "x\<lparr>local_lock := True\<rparr>"] by simp
  with assms(1) run show ?thesis
    by (simp add: scoped_local_def bnd_run lock_local_def unlock_local_def ret_run throw_run split: outcome.split)
qed

lemma start_run:
  assumes "\<not> local_lock x"
  shows "start rem x = (if connected x
      then (Ok (), x\<lparr>ref_count := ref_count x + 1, awaiting := awaiting x @ [Await_header]\<rparr>)
      else case rem of Inl msg \<Rightarrow> (Throw (Std_exception msg), x)
        | Inr ep \<Rightarrow> (Ok (), x\<lparr>remote_ep := ep, ref_count := ref_count x + 1, awaiting := awaiting x @ [Await_header]\<rparr>))"
  using assms unfolding start_def
  by (cases x, subst scoped_local_run)
    (auto simp: cpp_simps add_ref_def await_def read_remote_def split: sum.split)

lemma connect_run:
  assumes "\<not> local_lock x"
  shows "connect ep x = (Ok (), x\<lparr>connected := True, remote_ep := ep, ref_count := ref_count x + 1,
    awaiting := awaiting x @ [Await_connect]\<rparr>)"
  using assms unfolding connect_def
  by (cases x, subst scoped_local_run) (auto simp: cpp_simps add_ref_def await_def)

lemma deliver_run:
  assumes "\<not> local_lock x" and "copy_packet msg = Ok c"
  shows "deliver msg x = (Ok (), if write_msgs x \<noteq> [] then x\<lparr>write_msgs := write_msgs x @ [c]\<rparr>
    else x\<lparr>write_msgs := [c], ref_count := ref_count x + 1, awaiting := awaiting x @ [Await_write c]\<rparr>)"
  using assms unfolding deliver_def
  by (cases x, subst scoped_local_run)
    (auto simp: cpp_simps add_ref_def await_def write_front_def split: list.split)

lemma copy_packet_outcome: "\<exists>f. copy_packet msg = Abort f \<or> (\<exists>c. copy_packet msg = Ok c)"
  by (auto simp: copy_packet_def Let_def write_at_def)

lemma deliver_fails: "copy_packet msg = Abort f \<Longrightarrow> \<not> local_lock x \<Longrightarrow> fst (deliver msg x) = Abort f"
  unfolding deliver_def by (subst scoped_local_run) (auto simp: cpp_simps add_ref_def await_def write_front_def split: list.split)

lemma deliver_keeps:
  assumes "session_ok x" and "deliver msg x = (r, y)" and "\<And>f. r \<noteq> Abort f"
  shows "r = Ok ()" and "session_ok y" and "reading y = reading x" and "read_over y = read_over x"
proof -
  have free: "\<not> local_lock x" using assms(1) by (simp add: session_ok_def)
  obtain c where c: "copy_packet msg = Ok c"
    using copy_packet_outcome [of msg] deliver_fails [OF _ free, of msg] assms(2,3) by fastforce
  note run = deliver_run [OF free c] assms(2)
  show "r = Ok ()" "reading y = reading x" "read_over y = read_over x"
    using run by (auto simp: reading_def split: if_splits)
  show "session_ok y"
  proof (cases "write_msgs x = []")
    case True
    then have "writing x = []" using assms(1) by (auto simp: session_ok_def)
    from write_begin [OF assms(1) this True, of c "[]"] run True show ?thesis by simp
  next
    case False
    from write_queue [OF assms(1) False, of c] run False show ?thesis by simp
  qed
qed

section \<open>What keeps the hub in order\<close>

lemma hub_okD:
  assumes "hub_ok h"
  shows "omap_ok (live h)" and "orphans h = []"
    and "\<And>i x. map_of (live h) i = Some x \<Longrightarrow> i < next_object h \<and> session_ok x"
    and "\<And>e i. (e, i) \<in> set (session_map h) \<Longrightarrow> i < next_object h"
    and "\<And>i. acceptor h = Some i \<Longrightarrow> \<exists>x. map_of (live h) i = Some x \<and> idle x \<and> writing x = [] \<and> write_msgs x = []"
    and "\<And>i e. acceptor h = Some i \<Longrightarrow> (e, i) \<notin> set (session_map h)"
proof -
  show "omap_ok (live h)" "orphans h = []" using assms by (simp_all add: hub_ok_def)
  show "i < next_object h \<and> session_ok x" if "map_of (live h) i = Some x" for i x
    using assms map_of_SomeD [OF that] unfolding hub_ok_def by fastforce
  show "i < next_object h" if "(e, i) \<in> set (session_map h)" for e i
    using assms that unfolding hub_ok_def by fastforce
  show "\<exists>x. map_of (live h) i = Some x \<and> idle x \<and> writing x = [] \<and> write_msgs x = []"
    if "acceptor h = Some i" for i
    using assms that unfolding hub_ok_def by blast
  show "(e, i) \<notin> set (session_map h)" if "acceptor h = Some i" for i e
    using assms that unfolding hub_ok_def by force
qed

lemma hub_ok_at:
  assumes "hub_ok h" and "map_of (live h) i = Some x" and "session_ok y" and "acceptor h \<noteq> Some i"
  shows "hub_ok (at i y h)"
  using assms hub_okD(1,3) [OF assms(1)] unfolding hub_ok_def by (auto simp: set_omap_put)

lemma hub_ok_delete:
  assumes "hub_ok h" and "acceptor h \<noteq> Some i" and "ops = []"
  shows "hub_ok (h\<lparr>live := omap_erase i (live h), session_map := omap_erase epp (session_map h),
    orphans := orphans h @ ops\<rparr>)"
  using assms unfolding hub_ok_def by auto

lemma hub_ok_map:
  assumes "hub_ok h" and "i < next_object h" and "acceptor h \<noteq> Some i"
    and "set m \<subseteq> insert (e, i) (set (session_map h))"
  shows "hub_ok (h\<lparr>session_map := m\<rparr>)"
proof -
  have sub: "snd ` set m \<subseteq> insert i (snd ` set (session_map h))" using assms(4) by fastforce
  have "\<forall>e \<in> set m. snd e < next_object h"
  proof
    fix e assume "e \<in> set m"
    with sub have "snd e = i \<or> snd e \<in> snd ` set (session_map h)" by auto
    then show "snd e < next_object h"
      using assms(2) hub_okD(4) [OF assms(1)] by auto
  qed
  moreover have "i' \<notin> snd ` set m" if "acceptor h = Some i'" for i'
    using that sub assms(3) hub_okD(6) [OF assms(1) that] by auto
  ultimately show ?thesis using assms(1) by (simp add: hub_ok_def)
qed

lemma hub_ok_app [simp]: "hub_ok (h\<lparr>app := n\<rparr>) = hub_ok h"
  by (simp add: hub_ok_def)

lemma acceptor_old: "hub_ok h \<Longrightarrow> acceptor h \<noteq> Some (next_object h)"
  using hub_okD(3,5) by fastforce

lemma not_live_next: "hub_ok h \<Longrightarrow> map_of (live h) (next_object h) = None"
  using hub_okD(3) [of h "next_object h"] by (cases "map_of (live h) (next_object h)") auto

lemma hub_ok_new:
  assumes "hub_ok h" and "session_ok y"
  shows "hub_ok (at (next_object h) y (h\<lparr>next_object := Suc (next_object h)\<rparr>))"
proof -
  let ?h = "at (next_object h) y (h\<lparr>next_object := Suc (next_object h)\<rparr>)"
  have "fst e < next_object ?h \<and> session_ok (snd e)" if "e \<in> set (live ?h)" for e
    using that assms hub_okD(1,3) [OF assms(1)] unfolding hub_ok_def by (auto simp: set_omap_put)
  moreover have "\<forall>e \<in> set (session_map h). snd e < Suc (next_object h)"
    using hub_okD(4) [OF assms(1)] by (auto intro: less_SucI)
  ultimately show ?thesis
    using assms(1) acceptor_old [OF assms(1)] unfolding hub_ok_def by auto
qed

text \<open>A session that is not waiting for a read, as during its callback.\<close>

definition quiet :: "nat \<Rightarrow> 'n hub \<Rightarrow> bool" where
  "quiet i h \<longleftrightarrow> (\<exists>x. map_of (live h) i = Some x \<and> idle x) \<and> acceptor h \<noteq> Some i"

lemma hub_send_keeps:
  assumes "hub_ok h" and "hub_send uep msg h = (r, h')" and "\<And>f. r \<noteq> Abort f"
  shows "r = Ok ()" and "hub_ok h'" and "quiet i h \<Longrightarrow> quiet i h'"
proof -
  obtain epp where epp: "endpoint_to_proto uep = Ok epp"
    using assms(2,3) by (auto simp: hub_send_def endpoint_to_proto_def Let_def bnd_run lift_outcome_run split: if_splits)
  have "r = Ok () \<and> hub_ok h' \<and> (quiet i h \<longrightarrow> quiet i h')"
  proof (cases "map_of (session_map h) epp")
    case None
    let ?i = "next_object h"
    define y where "y = snd (connect uep new_session)"
    have free: "\<not> local_lock new_session" by (simp add: new_session_def)
    have conn: "connect uep new_session = (Ok (), y)" by (simp add: y_def connect_run [OF free])
    have y: "session_ok y"
      using read_begin [of "new_session\<lparr>connected := True, remote_ep := uep\<rparr>" Await_connect] session_ok_new
      by (simp add: y_def connect_run [OF free])
    obtain q z where z: "deliver msg y = (q, z)" by fastforce
    define h0 where "h0 = h\<lparr>next_object := Suc ?i\<rparr>"
    have "hub_send uep msg h = (q, at ?i z h0)"
      using epp None z by (simp add: hub_send_def make_session_def bnd_run lift_outcome_run reads_run at_def [symmetric]
          conn h0_def [symmetric]) (simp add: at_def h0_def access_def conn z)
    with assms(2) have h': "r = q" "h' = at ?i z h0" by simp_all
    note keeps = deliver_keeps [OF y z] 
    have "session_ok z" "r = Ok ()" using keeps assms(3) h'(1) by blast+
    moreover have "quiet i h'" if "quiet i h"
    proof -
      have "i \<noteq> ?i" using that not_live_next [OF assms(1)] by (auto simp: quiet_def)
      with that show ?thesis by (simp add: quiet_def h'(2) h0_def)
    qed
    ultimately show ?thesis using hub_ok_new [OF assms(1)] by (simp add: h'(2) h0_def)
  next
    case (Some j)
    then have j: "(epp, j) \<in> set (session_map h)" by (rule map_of_SomeD)
    then have na: "acceptor h \<noteq> Some j" using hub_okD(6) [OF assms(1)] by blast
    show ?thesis
    proof (cases "map_of (live h) j")
      case None
      then have "r = Abort Undefined_behaviour"
        using assms(2) epp Some by (simp add: hub_send_def bnd_run lift_outcome_run reads_run access_def)
      with assms(3) show ?thesis by blast
    next
      case live: (Some x)
      obtain q z where z: "deliver msg x = (q, z)" by fastforce
      have h: "r = q" "h' = at j z h"
        using assms(2) epp Some live z by (simp_all add: hub_send_def bnd_run lift_outcome_run reads_run access_run at_def)
      have x: "session_ok x" using hub_okD(3) [OF assms(1) live] by simp
      note keeps = deliver_keeps [OF x z]
      have "r = Ok ()" "session_ok z" "idle z = idle x" using keeps assms(3) h(1) by (auto simp: idle_def)
      with hub_ok_at [OF assms(1) live _ na] h(2) live na show ?thesis by (auto simp: quiet_def)
    qed
  qed
  then show "r = Ok ()" "hub_ok h'" "quiet i h \<Longrightarrow> quiet i h'" by auto
qed

section \<open>The handlers\<close>

lemma done_op_at: "done_op i p (at i x h) = (Ok (), at i (x\<lparr>awaiting := filter (\<lambda>op. \<not> p op) (awaiting x)\<rparr>) h)"
  by (simp add: done_op_def writes_run)

lemma fill_read_msg_at: "\<exists>m. fill_read_msg i pos error bytes (at i x h) = (Ok (), at i (x\<lparr>read_msg := m\<rparr>) h)"
proof (cases error)
  case True
  then show ?thesis by (intro exI [of _ "read_msg x"]) (simp add: fill_read_msg_def when_run)
next
  case False
  then show ?thesis
    by (intro exI [of _ "fill_at pos bytes (read_msg x)"])
      (simp add: fill_read_msg_def when_run on_read_msg_def on_part_run writes_run)
qed

text \<open>The entry of every handler: lock, and one reference less.\<close>

lemma enter_at:
  "\<not> local_lock x \<Longrightarrow> access i (thn lock_local (add_ref (- 1))) (at i x h) =
     (Ok (), at i (x\<lparr>local_lock := True, ref_count := ref_count x - 1\<rparr>) h)"
  by (simp add: bnd_run lock_local_def add_ref_def writes_run)

lemma unlock_at:
  "local_lock x \<Longrightarrow> access i unlock_local (at i x h) = (Ok (), at i (x\<lparr>local_lock := False\<rparr>) h)"
  by (simp add: unlock_local_def)

lemma enter_leave:
  assumes "\<not> local_lock x"
  shows "thn (access i (thn lock_local (add_ref (- 1)))) (thn (access i unlock_local) k) (at i x h) =
    k (at i (x\<lparr>ref_count := ref_count x - 1\<rparr>) h)"
  using assms by (cases x) (simp add: bnd_run lock_local_def unlock_local_def add_ref_def writes_run)

lemma release_keeps:
  assumes "hub_ok h" and "map_of (live h) i = Some z" and "acceptor h \<noteq> Some i" and "\<not> local_lock x"
    and "1 < ref_count x \<Longrightarrow> session_ok (x\<lparr>ref_count := ref_count x - 1\<rparr>)"
    and "\<not> 1 < ref_count x \<Longrightarrow> awaiting x = []"
    and "release i (at i x h) = (r, h')" and "\<And>f. r \<noteq> Abort f"
  shows "hub_ok h'"
proof (cases "1 < ref_count x")
  case True
  with assms(4,7) have "h' = at i (x\<lparr>ref_count := ref_count x - 1\<rparr>) h" by (simp add: release_at)
  with hub_ok_at [OF assms(1,2) assms(5) [OF True] assms(3)] show ?thesis by simp
next
  case False
  have "\<exists>epp. endpoint_to_proto (remote_ep x) = Ok epp"
    using assms(4,7,8) False by (auto simp: release_at endpoint_to_proto_def Let_def split: if_splits)
  with assms(4,7) False obtain epp where "h' = h\<lparr>live := omap_erase i (live h),
      session_map := omap_erase epp (session_map h), orphans := orphans h @ awaiting x\<rparr>"
    by (auto simp: release_at)
  with hub_ok_delete [OF assms(1,3) assms(6) [OF False]] show ?thesis by simp
qed

text \<open>The end of the reading side of a session that is otherwise in order.\<close>

lemma read_over_keeps:
  assumes "hub_ok h" and "map_of (live h) i = Some z" and "acceptor h \<noteq> Some i"
    and "session_ok x" and "idle x"
    and "thn (note_read_over i) (release i) (at i x h) = (r, h')" and "\<And>f. r \<noteq> Abort f"
  shows "hub_ok h'"
proof -
  define y where "y = x\<lparr>read_over := True\<rparr>"
  have run: "release i (at i y h) = (r, h')"
    using assms(6) by (simp add: note_read_over_def bnd_run writes_run y_def)
  have aw: "length (awaiting x) = length (writing x)" using awaiting_length [of x] assms(5) by (simp add: idle_def)
  have w: "length (writing x) \<le> 1" using assms(4) by (cases "writing x = []") (auto simp: session_ok_def)
  have ref: "ref_count x = 1 + int (length (writing x)) - of_bool (write_over x)" "\<not> local_lock x"
    using assms(4,5) aw by (simp_all add: session_ok_def idle_def)
  show ?thesis
  proof (rule release_keeps [OF assms(1-3) _ _ _ run assms(7)])
    show "\<not> local_lock y" using ref(2) by (simp add: y_def)
    show "awaiting y = []" if "\<not> 1 < ref_count y"
      using that ref(1) aw by (cases "writing x") (simp_all add: y_def write_over_def)
    show "session_ok (y\<lparr>ref_count := ref_count y - 1\<rparr>)" if "1 < ref_count y"
    proof -
      have nw: "writing x \<noteq> []" using that ref(1) by (cases "write_over x") (auto simp: y_def)
      then have "\<not> write_over x" by (simp add: write_over_def)
      moreover have "length (writing x) = 1" using nw w by (cases "writing x") auto
      ultimately show ?thesis
        using assms(4,5) nw aw ref by (simp add: session_ok_def idle_def y_def write_over_def)
    qed
  qed
qed

lemma handle_write_ok_run:
  assumes "\<not> local_lock y" and "write_msgs y = p # ps"
  shows "handle_write i False (at i y h) = (Ok (), at i (if ps = []
      then y\<lparr>ref_count := ref_count y - 1, write_msgs := [], written := written y @ [p]\<rparr>
      else y\<lparr>write_msgs := ps, awaiting := awaiting y @ [Await_write (hd ps)], written := written y @ [p]\<rparr>) h)"
  using assms
  by (cases y, cases ps) (simp_all add: handle_write_def bnd_run lock_local_def unlock_local_def pop_front_def reads_run
      when_run write_front_def add_ref_def await_def writes_run ret_run)

text \<open>A write has ended: the next one begins, or the session gives up its reference.\<close>

lemma write_passed_ok:
  assumes "session_ok (x\<lparr>write_msgs := [], awaiting := aw, ref_count := ref_count x - 1\<rparr>)"
    and "filter is_write aw = []" and "y = x\<lparr>awaiting := aw\<rparr>"
  shows "session_ok (if ps = [] then y\<lparr>ref_count := ref_count y - 1, write_msgs := [], written := written y @ [p]\<rparr>
    else y\<lparr>write_msgs := ps, awaiting := awaiting y @ [Await_write (hd ps)], written := written y @ [p]\<rparr>)"
proof (cases ps)
  case Nil
  have "y\<lparr>ref_count := ref_count y - 1, write_msgs := [], written := written y @ [p]\<rparr> =
      x\<lparr>write_msgs := [], awaiting := aw, ref_count := ref_count x - 1\<rparr>\<lparr>written := written x @ [p]\<rparr>"
    by (cases x) (simp add: assms(3))
  with Nil assms(1) show ?thesis by simp
next
  case (Cons q qs)
  let ?e = "x\<lparr>write_msgs := [], awaiting := aw, ref_count := ref_count x - 1\<rparr>"
  have "writing ?e = []" using assms(2) by (simp add: writing_def)
  from write_begin [OF assms(1) this, of q qs] have "session_ok
      (?e\<lparr>write_msgs := ps, ref_count := ref_count x, awaiting := aw @ [Await_write q], written := written x @ [p]\<rparr>)"
    by (simp add: Cons)
  moreover have "y\<lparr>write_msgs := ps, awaiting := awaiting y @ [Await_write (hd ps)], written := written y @ [p]\<rparr> =
      ?e\<lparr>write_msgs := ps, ref_count := ref_count x, awaiting := aw @ [Await_write q], written := written x @ [p]\<rparr>"
    by (cases x) (simp add: Cons assms(3))
  ultimately show ?thesis using Cons by simp
qed

lemma write_failed_keeps:
  assumes "hub_ok h" and "map_of (live h) i = Some x" and "acceptor h \<noteq> Some i" and "write_msgs x \<noteq> []"
    and "ref_count x - 1 = 1 + int (length aw) - of_bool (read_over x)" and "aw = filter (\<lambda>op. \<not> is_write op) (awaiting x)"
    and "release i (at i (x\<lparr>awaiting := aw, ref_count := ref_count x - 1\<rparr>) h) = (r, h')" and "\<And>f. r \<noteq> Abort f"
  shows "hub_ok h'"
proof -
  let ?z = "x\<lparr>awaiting := aw, ref_count := ref_count x - 1\<rparr>"
  have ok: "session_ok x" using hub_okD(3) [OF assms(1,2)] by simp
  then have ro: "read_over x \<longrightarrow> aw = []" by (auto simp: session_ok_def assms(6) reading_def)
  show ?thesis
  proof (rule release_keeps [OF assms(1-3) _ _ _ assms(7,8)])
    show "\<not> local_lock ?z" using ok by (simp add: session_ok_def)
    show "awaiting ?z = []" if "\<not> 1 < ref_count ?z"
      using that assms(5) ro by (cases "read_over x") simp_all
    show "session_ok (?z\<lparr>ref_count := ref_count ?z - 1\<rparr>)" if busy: "1 < ref_count ?z"
    proof -
      have nro: "\<not> read_over x" using busy assms(5) ro by (cases "read_over x") simp_all
      define z where "z = ?z\<lparr>ref_count := ref_count ?z - 1\<rparr>"
      have z: "reading z = reading x" "writing z = []" "awaiting z = aw" "ref_count z = ref_count x - 2"
        "local_lock z = local_lock x" "read_over z = read_over x" "write_msgs z = write_msgs x"
        by (simp_all add: z_def assms(6) reading_def writing_def)
      have "session_ok z" using ok assms(4,5) nro by (simp add: session_ok_def write_over_def z)
      then show ?thesis by (simp add: z_def)
    qed
  qed
qed

lemma write_event_keeps:
  assumes "hub_ok h" and "awaits i is_write h"
    and "thn (done_op i is_write) (handle_write i error) h = (r, h')" and "\<And>f. r \<noteq> Abort f"
  shows "hub_ok h'"
proof -
  obtain x op where x: "h = at i x h" "map_of (live h) i = Some x" "op \<in> set (awaiting x)" "is_write op"
    by (rule awaits_at [OF hub_okD(1) [OF assms(1)] assms(2)])
  have ok: "session_ok x" using hub_okD(3) [OF assms(1) x(2)] by simp
  define aw where "aw = filter (\<lambda>op. \<not> is_write op) (awaiting x)"
  define y where "y = x\<lparr>awaiting := aw\<rparr>"
  obtain p ps where w: "write_msgs x = p # ps" "op = Await_write p" "writing x = [op]"
    "session_ok (x\<lparr>write_msgs := [], awaiting := aw, ref_count := ref_count x - 1\<rparr>)"
    "ref_count x - 1 = 1 + int (length aw) - of_bool (read_over x)"
    using write_done [OF ok x(3,4)] unfolding aw_def by metis
  have free: "\<not> local_lock y" using ok by (simp add: session_ok_def y_def)
  have na: "acceptor h \<noteq> Some i" using hub_okD(5) [OF assms(1)] x(2) w(3) by force
  have run: "handle_write i error (at i y h) = (r, h')"
    using assms(3) x(1) done_op_at [of i is_write x h] by (simp add: bnd_run y_def aw_def)
  show ?thesis
  proof (cases error)
    case False
    have "filter is_write aw = []" by (simp add: aw_def)
    from write_passed_ok [OF w(4) this y_def, of ps p] show ?thesis
      using hub_ok_at [OF assms(1) x(2) _ na] run False handle_write_ok_run [OF free, of p ps i h] w(1)
      by (simp add: y_def split: if_splits)
  next
    case True
    have "release i (at i (y\<lparr>ref_count := ref_count y - 1\<rparr>) h) = (r, h')"
      using run True by (simp add: handle_write_def enter_leave [OF free])
    then have rel: "release i (at i (x\<lparr>awaiting := aw, ref_count := ref_count x - 1\<rparr>) h) = (r, h')" by (simp add: y_def)
    show ?thesis by (rule write_failed_keeps [OF assms(1) x(2) na _ w(5) aw_def rel assms(4)]) (simp add: w(1))
  qed
qed

text \<open>
  A session in the handler of a read or a connection: the operation has ended, its reference is given up,
  and no read is pending.
\<close>

lemma read_ended:
  assumes "hub_ok h" and "map_of (live h) i = Some x" and "op \<in> set (awaiting x)" and "p op"
    and "\<And>op. p op \<Longrightarrow> \<not> is_write op"
    and "y = x\<lparr>awaiting := filter (\<lambda>op. \<not> p op) (awaiting x), ref_count := ref_count x - 1\<rparr>"
  shows "session_ok y" and "idle y" and "\<not> local_lock y" and "acceptor h \<noteq> Some i"
proof -
  have ok: "session_ok x" using hub_okD(3) [OF assms(1,2)] by simp
  have nw: "\<not> is_write op" by (rule assms(5) [OF assms(4)])
  show "session_ok y" "idle y" using read_done [where p = p, OF ok assms(3) nw assms(4,5)] by (simp_all add: assms(6))
  show "\<not> local_lock y" using ok by (simp add: assms(6) session_ok_def)
  show "acceptor h \<noteq> Some i"
    using hub_okD(5) [OF assms(1)] assms(2,3) nw by (force simp: idle_def reading_def filter_empty_conv)
qed

lemma connect_event_keeps:
  assumes "hub_ok h" and "awaits i (\<lambda>op. op = Await_connect) h"
    and "thn (done_op i (\<lambda>op. op = Await_connect)) (handle_connect i error rem) h = (r, h')" and "\<And>f. r \<noteq> Abort f"
  shows "hub_ok h'"
proof -
  obtain x where x: "h = at i x h" "map_of (live h) i = Some x" "Await_connect \<in> set (awaiting x)"
    using awaits_at [OF hub_okD(1) [OF assms(1)] assms(2)] by metis
  have ok: "session_ok x" using hub_okD(3) [OF assms(1) x(2)] by simp
  define y where "y = x\<lparr>awaiting := filter (\<lambda>op. op \<noteq> Await_connect) (awaiting x), ref_count := ref_count x - 1\<rparr>"
  have y: "session_ok y" "idle y" "\<not> local_lock y" and na: "acceptor h \<noteq> Some i"
    using read_ended [where p = "\<lambda>op. op = Await_connect", OF assms(1) x(2,3) refl _ y_def] by simp_all
  have run: "(if \<not> error then access i (start rem) else thn (note_read_over i) (release i)) (at i y h) = (r, h')"
  proof -
    have "\<not> local_lock (x\<lparr>awaiting := filter (\<lambda>op. op \<noteq> Await_connect) (awaiting x)\<rparr>)"
      using ok by (simp add: session_ok_def)
    with assms(3) show ?thesis
      unfolding handle_connect_def
      by (subst (asm) x(1)) (simp add: bnd_run [of "done_op i p" for p] done_op_at y_def enter_leave)
  qed
  show ?thesis
  proof (cases error)
    case True
    with run show ?thesis using read_over_keeps [OF assms(1) x(2) na y(1,2)] assms(4) by simp
  next
    case False
    then have h': "r = fst (start rem y)" "h' = at i (snd (start rem y)) h" using run by simp_all
    have "session_ok (snd (start rem y))"
      using read_begin [OF y(1,2), of Await_header] y read_begin [of "y\<lparr>remote_ep := ep\<rparr>" Await_header for ep]
      by (auto simp: start_run [OF y(3)] split: sum.split)
    with hub_ok_at [OF assms(1) x(2) _ na] h' show ?thesis by simp
  qed
qed

text \<open>How the handler of a header ends.\<close>

lemma strncat_no_throw: "strncat_from n b \<noteq> Throw e"
proof -
  have "map_outcome f q = Throw e \<longleftrightarrow> q = Throw e" for f :: "string \<Rightarrow> string" and q by (cases q) auto
  then show ?thesis by (induction n b rule: strncat_from.induct) auto
qed

lemma decode_header_no_throw: "fst (decode_header m) \<noteq> Throw e"
  by (auto simp: decode_header_def Let_def strncat_no_throw atoi_def split: outcome.splits)

lemma own_endpoint_run: "own_endpoint rem x = (if connected x then (Ok (), x)
    else case rem of Inl msg \<Rightarrow> (Throw (Std_exception msg), x)
      | Inr r \<Rightarrow> (Ok (), x\<lparr>remote_ep := \<lparr>ip_text = ip_text r, ip_port = packet_port (read_msg x)\<rparr>\<rparr>))"
  by (simp add: own_endpoint_def cpp_simps read_remote_def split: sum.split)

text \<open>
  The first part of the handler of a header, up to the map: it changes what was read and the endpoint,
  and gives the endpoint to register, or fails.
\<close>

definition check_header :: "nat \<Rightarrow> bool \<Rightarrow> string + tcp_endpoint \<Rightarrow> ('n hub, endpoint_proto) cpp" where
  "check_header i error rem =
     bnd (if error then ret False else access i (on_read_msg decode_header)) (\<lambda>good.
       if good then
         thn (access i (own_endpoint rem))
        (bnd (access i (reads remote_ep)) (\<lambda>ep. lift_outcome (endpoint_to_proto ep)))
       else throw_exn (Std_exception ''Error in handle_read_header : ''))"

definition end_header :: "nat \<Rightarrow> endpoint_proto \<Rightarrow> ('n hub, unit) cpp" where
  "end_header i epp =
     thn (register i epp)
    (thn (access i (thn (add_ref 1)
            (bnd (reads (\<lambda>x. body_size (read_msg x))) (\<lambda>n. await (Await_body n)))))
         (access i unlock_local))"

lemma bnd_throw: "bnd (throw_exn e) k = throw_exn e"
  by (rule ext) (simp add: bnd_run throw_run)

lemma header_parts:
  "(bnd (check_header i error rem) (end_header i) :: ('n hub, unit) cpp) =
      bnd (if error then ret False else access i (on_read_msg decode_header)) (\<lambda>good.
         if good then
           thn (access i (own_endpoint rem))
          (bnd (access i (reads remote_ep)) (\<lambda>ep.
           bnd (lift_outcome (endpoint_to_proto ep)) (\<lambda>epp.
           thn (register i epp)
          (thn (access i (thn (add_ref 1)
                  (bnd (reads (\<lambda>x. body_size (read_msg x))) (\<lambda>n. await (Await_body n)))))
               (access i unlock_local)))))
         else throw_exn (Std_exception ''Error in handle_read_header : ''))"
  unfolding check_header_def end_header_def bnd_assoc
  by (intro arg_cong2 [where f = bnd] refl ext) (simp add: bnd_assoc bnd_throw)

lemma handle_read_header_alt:
  fixes E :: "'n hub_env"
  shows "handle_read_header E i error rem =
    thn (access i (thn lock_local (add_ref (- 1))))
   (try_std (bnd (check_header i error rem) (end_header i))
      (\<lambda>_.
         thn (access i unlock_local)
        (bnd (access i (reads remote_ep)) (\<lambda>ep.
         thn (\<lambda>h. case got_disconnected E ep (app h) of (r, n) \<Rightarrow> (r, h\<lparr>app := n\<rparr>))
        (thn (note_read_over i)
             (release i))))))"
  unfolding handle_read_header_def header_parts ..

lemma check_header_at:
  obtains (abort) f h' where "check_header i error rem (at i x h) = (Abort f, h')"
  | (good) m ep epp where "check_header i error rem (at i x h) = (Ok epp, at i (x\<lparr>read_msg := m, remote_ep := ep\<rparr>) h)"
  | (bad) m ep msg where "check_header i error rem (at i x h) =
      (Throw (Std_exception msg), at i (x\<lparr>read_msg := m, remote_ep := ep\<rparr>) h)"
proof (cases error)
  case True
  show ?thesis
    by (rule bad [of "''Error in handle_read_header : ''" "remote_ep x" "read_msg x"])
      (simp add: check_header_def True bnd_run ret_run throw_run)
next
  case False
  obtain r m where dec: "decode_header (read_msg x) = (r, m)" by fastforce
  define y where "y = x\<lparr>read_msg := m\<rparr>"
  have d: "on_read_msg decode_header x = (r, y)"
    by (simp add: on_read_msg_def on_part_run dec y_def)
  show ?thesis
  proof (cases r)
    case (Abort f)
    show ?thesis by (rule abort) (simp add: check_header_def False bnd_run d Abort)
  next
    case (Throw e)
    then show ?thesis using decode_header_no_throw [of "read_msg x" e] dec by simp
  next
    case (Ok ok)
    have y: "y = x\<lparr>read_msg := m, remote_ep := remote_ep x\<rparr>" by (cases x) (simp add: y_def)
    show ?thesis
    proof (cases ok)
      case bad: False
      show ?thesis
        by (rule that(3) [of "''Error in handle_read_header : ''" "remote_ep x" m])
          (simp only: y [symmetric], simp add: check_header_def False bnd_run d Ok bad throw_run)
    next
      case True
      obtain q z where own: "own_endpoint rem y = (q, z)" by fastforce
      then have q: "q = Ok () \<or> (\<exists>msg. q = Throw (Std_exception msg))"
        and "z = y \<or> (\<exists>ep. z = y\<lparr>remote_ep := ep\<rparr>)"
        by (auto simp: own_endpoint_run split: if_splits sum.splits)
      then obtain ep where z: "z = x\<lparr>read_msg := m, remote_ep := ep\<rparr>"
        using y by (metis y_def)
      have run: "check_header i error rem (at i x h) = (case q of
          Ok _ \<Rightarrow> (endpoint_to_proto (remote_ep z), at i z h) | Throw e \<Rightarrow> (Throw e, at i z h) | Abort f \<Rightarrow> (Abort f, at i z h))"
        by (simp add: check_header_def False bnd_run d Ok True own reads_run lift_outcome_run split: outcome.split)
      from q show ?thesis
      proof
        assume "q = Ok ()"
        with run z show ?thesis
          by (cases "endpoint_to_proto (remote_ep z)") (auto simp: endpoint_to_proto_def Let_def intro: abort good split: if_splits)
      next
        assume "\<exists>msg. q = Throw (Std_exception msg)"
        with run z bad show ?thesis by auto
      qed
    qed
  qed
qed

lemma end_header_at:
  assumes "local_lock y"
  shows "\<exists>m. end_header i epp (at i y h) = (Ok (), at i (y\<lparr>local_lock := False, ref_count := ref_count y + 1,
      awaiting := awaiting y @ [Await_body (body_size (read_msg y))]\<rparr>) (h\<lparr>session_map := m\<rparr>)) \<and>
    set m \<subseteq> insert (epp, i) (set (session_map h))"
proof -
  obtain m where m: "register i epp (at i y h) = (Ok (), at i y (h\<lparr>session_map := m\<rparr>))"
    "set m \<subseteq> insert (epp, i) (set (session_map h))"
  proof (cases "map_of (session_map h) epp")
    case None
    then show ?thesis
      using that [of "omap_put epp i (session_map h)"] set_omap_put_subset [of epp i "session_map h"]
      by (auto simp: register_def writes_run at_def)
  next
    case (Some j)
    then show ?thesis
      using that [of "omap_put epp i (omap_erase epp (session_map h))"] that [of "session_map h"]
        set_omap_put_subset [of epp i "omap_erase epp (session_map h)"]
      by (cases "j = i") (auto simp: register_def writes_run at_def)
  qed
  have "end_header i epp (at i y h) = (Ok (), at i (y\<lparr>local_lock := False, ref_count := ref_count y + 1,
      awaiting := awaiting y @ [Await_body (body_size (read_msg y))]\<rparr>) (h\<lparr>session_map := m\<rparr>))"
    using assms m(1)
    by (cases y) (simp add: end_header_def bnd_run add_ref_def await_def writes_run reads_run unlock_local_def)
  with m(2) show ?thesis by blast
qed

text \<open>The handler of a header, after the lock has been taken.\<close>

definition header_block :: "'n hub_env \<Rightarrow> nat \<Rightarrow> bool \<Rightarrow> string + tcp_endpoint \<Rightarrow> ('n hub, unit) cpp" where
  "header_block E i error rem = try_std (bnd (check_header i error rem) (end_header i))
     (\<lambda>_. thn (access i unlock_local)
       (bnd (access i (reads remote_ep)) (\<lambda>ep.
        thn (\<lambda>h. case got_disconnected E ep (app h) of (r, n) \<Rightarrow> (r, h\<lparr>app := n\<rparr>))
       (thn (note_read_over i) (release i)))))"

lemma header_event_block:
  assumes "hub_ok h" and "map_of (live h) i = Some x"
  shows "thn (done_op i (\<lambda>op. op = Await_header)) (thn (fill_read_msg i 0 error bytes)
      (handle_read_header E i error rem)) h =
    header_block E i error rem (at i (x\<lparr>awaiting := filter (\<lambda>op. op \<noteq> Await_header) (awaiting x),
      read_msg := if error then read_msg x else fill_at 0 bytes (read_msg x), local_lock := True,
      ref_count := ref_count x - 1\<rparr>) h)"
proof -
  have x: "h = at i x h" by (rule at_same [OF hub_okD(1) [OF assms(1)] assms(2)])
  have free: "\<not> local_lock x" using hub_okD(3) [OF assms] by (simp add: session_ok_def)
  define aw where "aw = filter (\<lambda>op. op \<noteq> Await_header) (awaiting x)"
  define m0 where "m0 = (if error then read_msg x else fill_at 0 bytes (read_msg x))"
  define z where "z = x\<lparr>awaiting := aw, read_msg := m0, local_lock := True, ref_count := ref_count x - 1\<rparr>"
  have "done_op i (\<lambda>op. op = Await_header) h = (Ok (), at i (x\<lparr>awaiting := aw\<rparr>) h)"
    using done_op_at [of i "\<lambda>op. op = Await_header" x h] x [symmetric] by (simp add: aw_def)
  moreover have "fill_read_msg i 0 error bytes (at i (x\<lparr>awaiting := aw\<rparr>) h) = (Ok (), at i (x\<lparr>awaiting := aw, read_msg := m0\<rparr>) h)"
    by (cases x) (simp add: fill_read_msg_def when_run on_read_msg_def on_part_run writes_run m0_def)
  moreover have "access i (thn lock_local (add_ref (- 1))) (at i (x\<lparr>awaiting := aw, read_msg := m0\<rparr>) h) = (Ok (), at i z h)"
    using free by (subst enter_at) (simp_all add: z_def)
  ultimately show ?thesis
    unfolding handle_read_header_alt header_block_def z_def [unfolded aw_def m0_def, symmetric]
    by (simp only: bnd_run [of "done_op i p" for p] bnd_run [of "fill_read_msg i a b c" for a b c]
        bnd_run [of "access i (thn lock_local (add_ref (- 1)))"] prod.case outcome.case)
qed

lemma header_passed_keeps:
  assumes "hub_ok h" and "map_of (live h) i = Some x" and "acceptor h \<noteq> Some i" and "session_ok y" and "idle y"
    and "end_header i epp (at i (y\<lparr>local_lock := True, read_msg := m, remote_ep := ep\<rparr>) h) = (r, h')"
  shows "r = Ok ()" and "hub_ok h'"
proof -
  define z where "z = y\<lparr>local_lock := True, read_msg := m, remote_ep := ep\<rparr>"
  define y2 where "y2 = y\<lparr>read_msg := m, remote_ep := ep\<rparr>"
  have free: "\<not> local_lock y" using assms(4) by (simp add: session_ok_def)
  have "local_lock z" by (simp add: z_def)
  from end_header_at [OF this, of i epp h] obtain mp where e:
    "end_header i epp (at i z h) = (Ok (), at i (z\<lparr>local_lock := False, ref_count := ref_count z + 1,
      awaiting := awaiting z @ [Await_body (body_size (read_msg z))]\<rparr>) (h\<lparr>session_map := mp\<rparr>))"
    "set mp \<subseteq> insert (epp, i) (set (session_map h))" by blast
  have same: "z\<lparr>local_lock := False, ref_count := ref_count z + 1, awaiting := awaiting z @ [Await_body (body_size (read_msg z))]\<rparr> =
      y2\<lparr>ref_count := ref_count y2 + 1, awaiting := awaiting y2 @ [Await_body (body_size m)]\<rparr>"
    using free by (cases y) (simp add: z_def y2_def)
  have "session_ok y2" "idle y2" using assms(4,5) by (simp_all add: y2_def)
  from read_begin [OF this, of "Await_body (body_size m)"]
  have "session_ok (y2\<lparr>ref_count := ref_count y2 + 1, awaiting := awaiting y2 @ [Await_body (body_size m)]\<rparr>)" by simp
  moreover have "i < next_object h" using hub_okD(3) [OF assms(1,2)] by simp
  from hub_ok_map [OF assms(1) this assms(3) e(2)] have "hub_ok (h\<lparr>session_map := mp\<rparr>)" .
  ultimately have "hub_ok (at i (y2\<lparr>ref_count := ref_count y2 + 1, awaiting := awaiting y2 @ [Await_body (body_size m)]\<rparr>)
      (h\<lparr>session_map := mp\<rparr>))" using hub_ok_at [of "h\<lparr>session_map := mp\<rparr>" i x] assms(2,3) by simp
  then show "r = Ok ()" "hub_ok h'" using e(1) assms(6) by (simp_all add: same z_def [symmetric])
qed

lemma header_failed_keeps:
  assumes "hub_ok h" and "map_of (live h) i = Some x" and "acceptor h \<noteq> Some i" and "session_ok y" and "idle y"
    and "thn (access i unlock_local) (bnd (access i (reads remote_ep)) (\<lambda>ep.
        thn (\<lambda>h. case got_disconnected E ep (app h) of (r, n) \<Rightarrow> (r, h\<lparr>app := n\<rparr>))
       (thn (note_read_over i) (release i)))) (at i (y\<lparr>local_lock := True, read_msg := m, remote_ep := ep\<rparr>) h) = (r, h')"
    and "\<And>f. r \<noteq> Abort f"
  shows "hub_ok h'"
proof -
  define y2 where "y2 = y\<lparr>read_msg := m, remote_ep := ep\<rparr>"
  have y2: "session_ok y2" "idle y2" using assms(4,5) by (simp_all add: y2_def)
  have u: "access i unlock_local (at i (y\<lparr>local_lock := True, read_msg := m, remote_ep := ep\<rparr>) h) = (Ok (), at i y2 h)"
    using y2(1) by (cases y) (simp add: unlock_local_def y2_def session_ok_def)
  obtain q n where d: "got_disconnected E ep (app h) = (q, n)" by fastforce
  have run: "(case q of Ok _ \<Rightarrow> thn (note_read_over i) (release i) (at i y2 (h\<lparr>app := n\<rparr>))
      | Throw e \<Rightarrow> (Throw e, at i y2 (h\<lparr>app := n\<rparr>)) | Abort f \<Rightarrow> (Abort f, at i y2 (h\<lparr>app := n\<rparr>))) = (r, h')"
    using assms(6) u d
    by (simp add: bnd_run [of "access i unlock_local"] bnd_run [of "access i (reads remote_ep)"] reads_run)
      (cases q; auto simp: bnd_run y2_def)
  have h1: "hub_ok (h\<lparr>app := n\<rparr>)" "map_of (live (h\<lparr>app := n\<rparr>)) i = Some x" "acceptor (h\<lparr>app := n\<rparr>) \<noteq> Some i"
    using assms(1-3) by simp_all
  show ?thesis
    using run assms(7) read_over_keeps [OF h1 y2] hub_ok_at [OF h1(1,2) y2(1) h1(3)] by (cases q) auto
qed

lemma header_event_keeps:
  assumes "hub_ok h" and "awaits i (\<lambda>op. op = Await_header) h"
    and "thn (done_op i (\<lambda>op. op = Await_header)) (thn (fill_read_msg i 0 error bytes)
      (handle_read_header E i error rem)) h = (r, h')" and "\<And>f. r \<noteq> Abort f"
  shows "hub_ok h'"
proof -
  obtain x where x: "map_of (live h) i = Some x" "Await_header \<in> set (awaiting x)"
    using awaits_at [OF hub_okD(1) [OF assms(1)] assms(2)] by metis
  define y where "y = x\<lparr>awaiting := filter (\<lambda>op. op \<noteq> Await_header) (awaiting x), ref_count := ref_count x - 1\<rparr>"
  have y: "session_ok y" "idle y" and na: "acceptor h \<noteq> Some i"
    using read_ended [where p = "\<lambda>op. op = Await_header", OF assms(1) x refl _ y_def] by simp_all
  define m0 where "m0 = (if error then read_msg x else fill_at 0 bytes (read_msg x))"
  define z where "z = y\<lparr>local_lock := True, read_msg := m0\<rparr>"
  have "x\<lparr>awaiting := filter (\<lambda>op. op \<noteq> Await_header) (awaiting x), read_msg := m0, local_lock := True,
      ref_count := ref_count x - 1\<rparr> = z" by (cases x) (simp add: z_def y_def)
  then have run: "header_block E i error rem (at i z h) = (r, h')"
    using assms(3) header_event_block [OF assms(1) x(1), of error bytes E rem] by (simp add: m0_def)
  have zz: "z\<lparr>read_msg := m, remote_ep := ep\<rparr> = y\<lparr>local_lock := True, read_msg := m, remote_ep := ep\<rparr>" for m ep
    by (simp add: z_def)
  show ?thesis
  proof (cases rule: check_header_at [of i error rem z h])
    case (abort f h2)
    with run assms(4) [of f] show ?thesis by (simp add: header_block_def try_std_run bnd_run)
  next
    case (good m ep epp)
    obtain q h2 where e: "end_header i epp (at i (z\<lparr>read_msg := m, remote_ep := ep\<rparr>) h) = (q, h2)" by fastforce
    note passed = header_passed_keeps [OF assms(1) x(1) na y e [unfolded zz]]
    with run good e show ?thesis by (simp add: header_block_def try_std_run bnd_run [of "check_header i error rem"])
  next
    case (bad m ep msg)
    show ?thesis
      by (rule header_failed_keeps [OF assms(1) x(1) na y _ assms(4)])
        (use run bad in \<open>simp add: header_block_def try_std_run bnd_run [of "check_header i error rem"] zz\<close>)
  qed
qed

lemma hub_sends_keep:
  assumes "hub_ok h" and "for_each (\<lambda>(uep, msg). hub_send uep msg) out h = (r, h')" and "\<And>f. r \<noteq> Abort f"
  shows "r = Ok ()" and "hub_ok h'" and "quiet i h \<Longrightarrow> quiet i h'"
proof -
  have "r = Ok () \<and> hub_ok h' \<and> (quiet i h \<longrightarrow> quiet i h')"
    using assms
  proof (induction out arbitrary: h)
    case Nil
    then show ?case by (auto simp: ret_run)
  next
    case (Cons e out)
    obtain uep msg where e: "e = (uep, msg)" by fastforce
    obtain q h1 where send: "hub_send uep msg h = (q, h1)" by fastforce
    have "q \<noteq> Abort f" for f using Cons.prems(2) Cons.prems(3) [of f] send e by (auto simp: bnd_run)
    note keeps = hub_send_keeps [OF Cons.prems(1) send this]
    have "for_each (\<lambda>(uep, msg). hub_send uep msg) out h1 = (r, h')"
      using Cons.prems(2) send e keeps(1) by (simp add: bnd_run)
    from Cons.IH [OF keeps(2) this Cons.prems(3)] keeps(3) show ?case by blast
  qed
  then show "r = Ok ()" "hub_ok h'" "quiet i h \<Longrightarrow> quiet i h'" by auto
qed

lemma quiet_resumes:
  assumes "hub_ok h" and "quiet i h"
  shows "\<exists>h'. thn (access i lock_local) (thn (access i (thn (add_ref 1) (await Await_header)))
      (access i unlock_local)) h = (Ok (), h') \<and> hub_ok h'"
proof -
  obtain x where x: "map_of (live h) i = Some x" "idle x" and na: "acceptor h \<noteq> Some i"
    using assms(2) by (auto simp: quiet_def)
  have ok: "session_ok x" using hub_okD(3) [OF assms(1) x(1)] by simp
  then have free: "\<not> local_lock x" by (simp add: session_ok_def)
  have h: "h = at i x h" by (rule at_same [OF hub_okD(1) [OF assms(1)] x(1)])
  have "thn (access i lock_local) (thn (access i (thn (add_ref 1) (await Await_header)))
      (access i unlock_local)) (at i x h) =
    (Ok (), at i (x\<lparr>ref_count := ref_count x + 1, awaiting := awaiting x @ [Await_header]\<rparr>) h)"
    using free by (cases x) (simp add: bnd_run lock_local_def unlock_local_def add_ref_def await_def writes_run)
  then show ?thesis
    using h hub_ok_at [OF assms(1) x(1) read_begin [OF ok x(2), of Await_header] na] by auto
qed

text \<open>What the node sends, and the session waits for its next header.\<close>

lemma sends_and_resumes_keep:
  assumes "hub_ok h" and "quiet i h"
    and "thn (for_each (\<lambda>(uep, msg). hub_send uep msg) out) (thn (lift_outcome q)
      (thn (access i lock_local) (thn (access i (thn (add_ref 1) (await Await_header))) (access i unlock_local)))) h = (r, h')"
    and "\<And>f. r \<noteq> Abort f"
  shows "hub_ok h'"
proof -
  obtain u h2 where sends: "for_each (\<lambda>(uep, msg). hub_send uep msg) out h = (u, h2)" by fastforce
  have run: "(case u of Ok _ \<Rightarrow> thn (lift_outcome q) (thn (access i lock_local)
      (thn (access i (thn (add_ref 1) (await Await_header))) (access i unlock_local))) h2
    | Throw e \<Rightarrow> (Throw e, h2) | Abort f \<Rightarrow> (Abort f, h2)) = (r, h')"
    using assms(3) sends by (simp add: bnd_run [of "for_each f xs" for f xs])
  have "u \<noteq> Abort f" for f using run assms(4) [of f] by auto
  note keeps = hub_sends_keep [OF assms(1) sends this]
  show ?thesis
    using run keeps(1,2) quiet_resumes [OF keeps(2) keeps(3) [OF assms(2)]] assms(4)
    by (cases q) (auto simp: bnd_run [of "lift_outcome r" for r] lift_outcome_run)
qed

lemma body_event_keeps:
  assumes "hub_ok h" and "awaits i p h" and "\<And>op. p op \<Longrightarrow> is_body op"
    and "thn (done_op i is_body) (thn (fill_read_msg i header_length error bytes)
      (handle_read_body E i error)) h = (r, h')" and "\<And>f. r \<noteq> Abort f"
  shows "hub_ok h'"
proof -
  obtain x op where x: "h = at i x h" "map_of (live h) i = Some x" "op \<in> set (awaiting x)" "is_body op"
    using awaits_at [OF hub_okD(1) [OF assms(1)] assms(2)] assms(3) by metis
  have nw: "\<And>op. is_body op \<Longrightarrow> \<not> is_write op" by (auto simp: is_body_def)
  have ok: "session_ok x" using hub_okD(3) [OF assms(1) x(2)] by simp
  define aw where "aw = filter (\<lambda>op. \<not> is_body op) (awaiting x)"
  define y where "y = x\<lparr>awaiting := aw, ref_count := ref_count x - 1\<rparr>"
  have y: "session_ok y" "idle y" "\<not> local_lock y" and na: "acceptor h \<noteq> Some i"
    using read_ended [where p = is_body, OF assms(1) x(2-4) nw y_def [unfolded aw_def]] by simp_all
  obtain m0 where fill: "fill_read_msg i header_length error bytes (at i (x\<lparr>awaiting := aw\<rparr>) h) =
      (Ok (), at i (x\<lparr>awaiting := aw, read_msg := m0\<rparr>) h)"
    using fill_read_msg_at by blast
  define z where "z = y\<lparr>read_msg := m0\<rparr>"
  have z: "session_ok z" "idle z" using y by (simp_all add: z_def)
  have hz: "hub_ok (at i z h)" by (rule hub_ok_at [OF assms(1) x(2) z(1) na])
  have dn: "done_op i is_body h = (Ok (), at i (x\<lparr>awaiting := aw\<rparr>) h)"
    using done_op_at [of i is_body x h] x(1) [symmetric] by (simp add: aw_def)
  have body: "handle_read_body E i error (at i (x\<lparr>awaiting := aw, read_msg := m0\<rparr>) h) = (r, h')"
    using assms(4) by (simp add: bnd_run [of "done_op i q" for q] bnd_run [of "fill_read_msg i a b c" for a b c] dn fill)
  have free: "\<not> local_lock (x\<lparr>awaiting := aw, read_msg := m0\<rparr>)" using ok by (simp add: session_ok_def)
  have same: "x\<lparr>awaiting := aw, read_msg := m0, ref_count := ref_count x - 1\<rparr> = z"
    by (cases x) (simp add: z_def y_def)
  note enter = enter_leave [OF free, of i _ h, simplified, unfolded same]
  show ?thesis
  proof (cases error)
    case True
    with body have "thn (note_read_over i) (release i) (at i z h) = (r, h')"
      by (simp add: handle_read_body_def enter)
    with read_over_keeps [OF assms(1) x(2) na z] assms(5) show ?thesis by simp
  next
    case False
    obtain q n out where cb: "got_message E (remote_ep z) (read_msg z) (app h) = (q, n, out)"
      by (cases "got_message E (remote_ep z) (read_msg z) (app h)") auto
    define h1 where "h1 = at i z (h\<lparr>app := n\<rparr>)"
    have "hub_ok h1" using hub_ok_app [where h = "at i z h" and n = n] hz by (simp add: h1_def)
    moreover have "quiet i h1" using z na by (simp add: h1_def quiet_def)
    ultimately have h1: "hub_ok h1" "quiet i h1" .
    show ?thesis
      by (rule sends_and_resumes_keep [OF h1 _ assms(5)])
        (use body False cb in \<open>simp add: handle_read_body_def enter bnd_run [of "access i (reads f)" for f] reads_run
          bnd_run [of "\<lambda>h. case got_message E a b (app h) of (r, n, out) \<Rightarrow> (Ok (r, out), h\<lparr>app := n\<rparr>)" for a b]
          h1_def [symmetric]\<close>)
  qed
qed

text \<open>A new session waits for the next peer.\<close>

lemma start_accept_keeps:
  assumes "hub_ok (h\<lparr>acceptor := None\<rparr>)"
  shows "\<exists>h'. start_accept h = (Ok (), h') \<and> hub_ok h'"
proof -
  let ?i = "next_object h"
  have "start_accept h = (Ok (), (at ?i new_session (h\<lparr>next_object := Suc ?i\<rparr>))\<lparr>acceptor := Some ?i\<rparr>)"
    by (simp add: start_accept_def make_session_def bnd_run writes_run at_def)
  moreover have "hub_ok ((at ?i new_session (h\<lparr>next_object := Suc ?i\<rparr>))\<lparr>acceptor := Some ?i\<rparr>)"
  proof -
    have "hub_ok (at ?i new_session ((h\<lparr>acceptor := None\<rparr>)\<lparr>next_object := Suc ?i\<rparr>))"
      using hub_ok_new [OF assms session_ok_new(1)] by simp
    moreover have "?i \<notin> snd ` set (session_map h)" using hub_okD(4) [OF assms] by fastforce
    ultimately show ?thesis using session_ok_new unfolding hub_ok_def by simp
  qed
  ultimately show ?thesis by blast
qed

lemma accept_event_keeps:
  assumes "hub_ok h" and "acceptor h = Some i" and "handle_accept i error rem h = (r, h')" and "\<And>f. r \<noteq> Abort f"
  shows "hub_ok h'"
proof -
  obtain x where x: "map_of (live h) i = Some x" "idle x" "writing x = []" "write_msgs x = []"
    using hub_okD(5) [OF assms(1,2)] by blast
  have ok: "session_ok x" using hub_okD(3) [OF assms(1) x(1)] by simp
  then have free: "\<not> local_lock x" by (simp add: session_ok_def)
  have h: "h = at i x h" by (rule at_same [OF hub_okD(1) [OF assms(1)] x(1)])
  have none: "hub_ok (h\<lparr>acceptor := None\<rparr>)" using assms(1) by (simp add: hub_ok_def)
  show ?thesis
  proof (cases error)
    case True
    then show ?thesis
      using start_accept_keeps [OF none] assms(3) by (auto simp: handle_accept_def try_std_run bnd_run when_run)
  next
    case False
    obtain q y where y: "start rem x = (q, y)" by fastforce
    have acc: "access i (start rem) h = (q, at i y h)" using h y by (metis access_at fst_conv snd_conv)
    show ?thesis
    proof (cases "q = Ok ()")
      case True
      have "session_ok y"
        using y True read_begin [OF ok x(2), of Await_header]
          read_begin [of "x\<lparr>remote_ep := ep\<rparr>" Await_header for ep] ok x(2)
        by (auto simp: start_run [OF free] split: if_splits sum.splits)
      then have "hub_ok (at i y (h\<lparr>acceptor := None\<rparr>))"
        using hub_ok_at [OF none, of i x y] x(1) by simp
      then have "hub_ok ((at i y h)\<lparr>acceptor := None\<rparr>)" by (cases h) (simp add: at_def)
      from start_accept_keeps [OF this] show ?thesis
        using assms(3) False True acc by (auto simp: handle_accept_def try_std_run bnd_run when_run)
    next
      case bad: False
      then have "\<exists>msg. q = Throw (Std_exception msg)"
        using y by (auto simp: start_run [OF free] split: if_splits sum.splits)
      then have "r = Abort Undefined_behaviour"
        using assms(3) False acc by (auto simp: handle_accept_def try_std_run bnd_run when_run abort_run)
      with assms(4) [of Undefined_behaviour] show ?thesis by simp
    qed
  qed
qed

lemma hub_event_keeps:
  assumes "hub_ok h" and "handle_event E ev h = (r, h')" and "\<And>f. r \<noteq> Abort f"
  shows "hub_ok h'"
proof (cases ev)
  case (Accepted error rem)
  then show ?thesis
    using assms accept_event_keeps [OF assms(1)] by (cases "acceptor h") auto
next
  case (Send uep msg)
  then show ?thesis using hub_send_keeps(2) [OF assms(1)] assms(2,3) by auto
next
  case (Connect_done i error rem)
  then show ?thesis using assms connect_event_keeps [OF assms(1)] by (auto split: if_splits)
next
  case (Header_done i error bytes rem)
  then show ?thesis using assms header_event_keeps [OF assms(1)] by (auto split: if_splits)
next
  case (Body_done i error bytes)
  then show ?thesis
    using assms body_event_keeps [OF assms(1), of i "\<lambda>op. is_body op \<and> (error \<or> op = Await_body (length bytes))"]
    by (auto split: if_splits)
next
  case (Write_done i error)
  then show ?thesis using assms write_event_keeps [OF assms(1)] by (auto split: if_splits)
qed

section \<open>Reachable hubs\<close>

text \<open>The hubs that events lead to, as long as none of them is undefined, an assertion or a deadlock.\<close>

inductive hub_reach :: "'n hub_env \<Rightarrow> 'n hub \<Rightarrow> bool" for E where
  fresh: "hub_reach E (fresh_hub n)"
| event: "hub_reach E h \<Longrightarrow> handle_event E ev h = (r, h') \<Longrightarrow> (\<forall>f. r \<noteq> Abort f) \<Longrightarrow> hub_reach E h'"

lemma fresh_hub_ok: "hub_ok (fresh_hub n)"
proof -
  have "hub_ok ((\<lparr>live = [], session_map = [], acceptor = None, next_object = 0, orphans = [], app = n\<rparr>)\<lparr>acceptor := None\<rparr>)"
    by (simp add: hub_ok_def)
  from start_accept_keeps [OF this] show ?thesis by (auto simp: fresh_hub_def)
qed

lemma hub_reach_ok: "hub_reach E h \<Longrightarrow> hub_ok h"
proof (induction rule: hub_reach.induct)
  case (fresh n)
  show ?case by (rule fresh_hub_ok)
next
  case (event h ev r h')
  then show ?case using hub_event_keeps by blast
qed

end
