(* ===== verification/Session_Order.thy ===== *)
theory Session_Order
  imports Session_Invariant "HOL-Library.Sublist"
begin

text \<open>
  What the events of the network do to the packets of a session: the contracts a statement about one
  session must satisfy for every event to keep it, and what follows for the order of the packets.
\<close>

section \<open>Statements about one session\<close>

text \<open>\<open>holds i J h\<close>: the session \<open>i\<close> has been made and, as long as it exists, satisfies \<open>J\<close>.\<close>

definition holds :: "nat \<Rightarrow> (peer_session \<Rightarrow> bool) \<Rightarrow> 'n hub \<Rightarrow> bool" where
  "holds i J h \<longleftrightarrow> i < next_object h \<and> (\<forall>x. map_of (live h) i = Some x \<longrightarrow> J x)"

named_theorems frame_rules "computations that keep a statement about one session"

text \<open>An event keeps what its handlers keep.\<close>

lemma preserves_event:
  assumes "\<And>i error rem. ev = Accepted error rem \<Longrightarrow> preserves I (handle_accept i error rem)"
    and "\<And>uep msg. ev = Send uep msg \<Longrightarrow> preserves I (hub_send uep msg)"
    and "\<And>i error rem. ev = Connect_done i error rem \<Longrightarrow>
      preserves I (thn (done_op i (\<lambda>op. op = Await_connect)) (handle_connect i error rem))"
    and "\<And>i error bytes rem. ev = Header_done i error bytes rem \<Longrightarrow> preserves I (thn (done_op i (\<lambda>op. op = Await_header))
      (thn (fill_read_msg i 0 error bytes) (handle_read_header E i error rem)))"
    and "\<And>i error bytes. ev = Body_done i error bytes \<Longrightarrow> preserves I (thn (done_op i is_body)
      (thn (fill_read_msg i header_length error bytes) (handle_read_body E i error)))"
    and "\<And>i error. ev = Write_done i error \<Longrightarrow> preserves I (thn (done_op i is_write) (handle_write i error))"
  shows "preserves I (handle_event E ev)"
proof (rule preservesI)
  fix h assume h: "I h"
  show "I (snd (handle_event E ev h))"
  proof (cases ev)
    case (Accepted error rem)
    with preservesD [OF assms(1) h] h show ?thesis by (simp split: option.split)
  next
    case (Send uep msg)
    with preservesD [OF assms(2) h] show ?thesis by simp
  next
    case (Connect_done i error rem)
    with preservesD [OF assms(3) h] h show ?thesis by simp
  next
    case (Header_done i error bytes rem)
    with preservesD [OF assms(4) h] h show ?thesis by simp
  next
    case (Body_done i error bytes)
    with preservesD [OF assms(5) h] h show ?thesis by simp
  next
    case (Write_done i error)
    with preservesD [OF assms(6) h] h show ?thesis by simp
  qed
qed

lemma holds_access [frame_rules]: "preserves J m \<Longrightarrow> preserves (holds i J) (access j m)"
  by (rule preservesI)
    (auto simp: holds_def access_def dest: preservesD split: option.split prod.split if_splits)

lemma holds_hub [frame_rules]:
  "preserves (holds i J) (register j e)" "preserves (holds i J) (erase_endpoint ep)"
  "preserves (holds i J) (delete_object j)"
  "preserves (holds i J) (\<lambda>h. case got_disconnected E ep (app h) of (r, n) \<Rightarrow> (r, h\<lparr>app := n\<rparr>))"
  "preserves (holds i J) (\<lambda>h. case got_message E ep m (app h) of (r, n, out) \<Rightarrow> (Ok (r, out), h\<lparr>app := n\<rparr>))"
  "preserves (holds i J) (writes (\<lambda>h. h\<lparr>acceptor := a\<rparr>))"
proof -
  show "preserves (holds i J) (register j e)"
    unfolding register_def by (rule preserves_writes) (simp add: holds_def split: option.split)
  show "preserves (holds i J) (erase_endpoint ep)"
    unfolding erase_endpoint_def
    by (intro preserves_rules preserves_writes) (simp add: holds_def)
  show "preserves (holds i J) (writes (\<lambda>h. h\<lparr>acceptor := a\<rparr>))"
    by (rule preserves_writes) (simp add: holds_def)
qed (auto intro!: preservesI simp: holds_def delete_object_def split: option.split prod.split)

text \<open>The next session made is another one.\<close>

lemma holds_make_session [frame_rules]: "preserves (holds i J) make_session"
  by (rule preservesI) (auto simp: holds_def make_session_def)

text \<open>Another session than the one a computation works on.\<close>

lemma holds_access_other: "i \<noteq> j \<Longrightarrow> preserves (holds i J) (access j m)"
  by (rule preservesI) (auto simp: holds_def access_def split: option.split prod.split)

text \<open>
  The first contract is for sending: fields the statement does not speak of, and packets that join the
  queue, which it may ask something of; the second adds the packet that leaves the queue and the write of
  the next one; a statement with the third lets any packet join.  The others add
  operations that begin and end, connecting and the endpoint of the peer, the message that is read, and
  so whatever happens apart from the end of a write of this session; the last has all of it.
\<close>

locale deliver_frame =
  fixes J :: "peer_session \<Rightarrow> bool" and G :: "packet \<Rightarrow> bool"
  assumes J_fields: "J (x\<lparr>ref_count := n\<rparr>) = J x" "J (x\<lparr>local_lock := l\<rparr>) = J x" "J (x\<lparr>read_over := b\<rparr>) = J x"
    and J_queue: "J x \<Longrightarrow> G q \<Longrightarrow> write_msgs x \<noteq> [] \<Longrightarrow> J (x\<lparr>write_msgs := write_msgs x @ [q]\<rparr>)"
    and J_first: "J x \<Longrightarrow> G q \<Longrightarrow> write_msgs x = [] \<Longrightarrow>
      J (x\<lparr>write_msgs := [q], awaiting := awaiting x @ [Await_write q]\<rparr>)"
begin

lemma J_locks [frame_rules]: "preserves J lock_local" "preserves J unlock_local" "preserves J (add_ref n)"
  by (auto intro!: preservesI simp: lock_local_def unlock_local_def add_ref_def writes_run J_fields)

lemma J_scoped [frame_rules]:
  assumes "preserves J m"
  shows "preserves J (scoped_local m)"
proof -
  have "preserves J (\<lambda>x. case m x of (Ok a, x') \<Rightarrow> thn unlock_local (ret a) x'
     | (Throw e, x') \<Rightarrow> thn unlock_local (throw_exn e) x' | (Abort f, x') \<Rightarrow> (Abort f, x'))"
  proof (rule preservesI)
    fix x assume "J x"
    with assms have "J (snd (m x))" by (rule preservesD)
    then show "J (snd (case m x of (Ok a, x') \<Rightarrow> thn unlock_local (ret a) x'
       | (Throw e, x') \<Rightarrow> thn unlock_local (throw_exn e) x' | (Abort f, x') \<Rightarrow> (Abort f, x')))"
      by (cases "m x") (auto simp: bnd_run unlock_local_def ret_run throw_run J_fields split: outcome.split)
  qed
  then show ?thesis unfolding scoped_local_def by (intro preserves_rules J_locks)
qed

lemma J_read_over [frame_rules]: "preserves J (writes (\<lambda>x. x\<lparr>read_over := b\<rparr>))"
  by (rule preserves_writes) (simp add: J_fields)

lemma J_read_remote [frame_rules]: "preserves J (read_remote rem)"
  unfolding read_remote_def by (intro preserves_rules)

text \<open>The write of a queue of one packet, which is the one that has just been put there.\<close>

lemma J_deliver_good:
  assumes "\<And>c. copy_packet msg = Ok c \<Longrightarrow> G c"
  shows "preserves J (deliver msg)"
  unfolding deliver_def
proof (intro frame_rules)
  show "preserves J (bnd (reads (\<lambda>x. write_msgs x \<noteq> [])) (\<lambda>busy.
      bnd (lift_outcome (copy_packet msg)) (\<lambda>copy.
      thn (writes (\<lambda>x. x\<lparr>write_msgs := write_msgs x @ [copy]\<rparr>)) (when_cpp (\<not> busy) write_front))))"
  proof (rule preservesI)
    fix x assume x: "J x"
    have front: "J (x\<lparr>write_msgs := [c], ref_count := n, awaiting := awaiting x @ [Await_write c]\<rparr>)"
      if "G c" and "write_msgs x = []" for c n
    proof -
      have "x\<lparr>write_msgs := [c], ref_count := n, awaiting := awaiting x @ [Await_write c]\<rparr> =
          (x\<lparr>write_msgs := [c], awaiting := awaiting x @ [Await_write c]\<rparr>)\<lparr>ref_count := n\<rparr>" by simp
      then show ?thesis using J_first [OF x that] by (simp only: J_fields)
    qed
    show "J (snd (bnd (reads (\<lambda>x. write_msgs x \<noteq> [])) (\<lambda>busy.
      bnd (lift_outcome (copy_packet msg)) (\<lambda>copy.
      thn (writes (\<lambda>x. x\<lparr>write_msgs := write_msgs x @ [copy]\<rparr>)) (when_cpp (\<not> busy) write_front))) x))"
      using x J_queue [OF x] front assms
      by (auto simp: cpp_simps write_front_def add_ref_def await_def split: outcome.split)
  qed
qed

end

locale pop_frame = deliver_frame +
  assumes J_pop: "J x \<Longrightarrow> write_msgs x = q # qs \<Longrightarrow> J (x\<lparr>write_msgs := qs, written := written x @ [q]\<rparr>)"
    and J_next: "J x \<Longrightarrow> write_msgs x = q # qs \<Longrightarrow> J (x\<lparr>awaiting := awaiting x @ [Await_write q]\<rparr>)"
begin

lemma J_pop_front: "preserves J pop_front"
  by (rule preservesI) (auto simp: pop_front_def J_pop split: list.split)

lemma J_write_front: "preserves J write_front"
proof (rule preservesI)
  fix x assume x: "J x"
  show "J (snd (write_front x))"
  proof (cases "write_msgs x")
    case (Cons q qs)
    have "J (x\<lparr>ref_count := n\<rparr>)" for n using x by (simp add: J_fields)
    from J_next [OF this, of _ q qs] Cons show ?thesis
      by (simp add: write_front_def add_ref_def await_def cpp_simps)
  qed (simp add: write_front_def x)
qed

end

locale any_frame = deliver_frame J "\<lambda>_. True" for J :: "peer_session \<Rightarrow> bool"
begin

lemma J_deliver [frame_rules]: "preserves J (deliver msg)"
  by (rule J_deliver_good) simp

end

locale queue_frame = deliver_frame +
  assumes J_begin: "J x \<Longrightarrow> \<not> is_write op \<Longrightarrow> \<not> is_body op \<Longrightarrow> op \<noteq> Await_connect \<Longrightarrow>
      J (x\<lparr>awaiting := awaiting x @ [op]\<rparr>)"
    and J_end: "J x \<Longrightarrow> J (x\<lparr>awaiting := filter p (awaiting x)\<rparr>)"
begin

lemma J_writes [frame_rules]:
  "preserves J (writes (\<lambda>x. x\<lparr>awaiting := filter p (awaiting x)\<rparr>))"
  by (rule preserves_writes, simp add: J_end)+

lemma J_await [frame_rules]:
  "\<not> is_write op \<Longrightarrow> \<not> is_body op \<Longrightarrow> op \<noteq> Await_connect \<Longrightarrow> preserves J (await op)"
  unfolding await_def by (rule preserves_writes) (rule J_begin)

end

locale peer_frame = queue_frame +
  assumes J_peer: "J (x\<lparr>remote_ep := e\<rparr>) = J x" "J (x\<lparr>connected := c\<rparr>) = J x"
    and J_connecting: "J x \<Longrightarrow> J (x\<lparr>awaiting := awaiting x @ [Await_connect]\<rparr>)"
begin

lemma J_start [frame_rules]: "preserves J (start rem)" "preserves J (connect ep)" "preserves J (own_endpoint rem)"
proof -
  have w: "preserves J (writes (\<lambda>x. x\<lparr>remote_ep := f x\<rparr>))" "preserves J (writes (\<lambda>x. x\<lparr>connected := True, remote_ep := ep\<rparr>))"
    "preserves J (await Await_connect)" for f ep
    by (auto intro!: preserves_writes simp: J_peer J_connecting await_def)
  show "preserves J (start rem)" "preserves J (connect ep)" "preserves J (own_endpoint rem)"
    unfolding start_def connect_def own_endpoint_def by (intro frame_rules preserves_rules w; simp)+
qed

end

locale session_frame = peer_frame J "\<lambda>_. True" + any_frame J for J :: "peer_session \<Rightarrow> bool" +
  assumes J_read: "J (x\<lparr>read_msg := m\<rparr>) = J x"
    and J_body: "J x \<Longrightarrow> J (x\<lparr>awaiting := awaiting x @ [Await_body k]\<rparr>)"
begin

lemma J_reading [frame_rules]: "preserves J (on_read_msg m)" "preserves J (await (Await_body k))"
  by (auto intro!: preserves_on_part preserves_writes simp: on_read_msg_def await_def J_read J_body)

text \<open>On the hub: whatever runs, on whatever session, but the end of a write.\<close>

lemma J_hub_send [frame_rules]: "preserves (holds i J) (hub_send uep msg)"
  unfolding hub_send_def by (intro frame_rules preserves_rules) (auto split: option.split intro!: frame_rules preserves_rules)

lemma J_release [frame_rules]: "preserves (holds i J) (release j)"
  unfolding release_def by (intro frame_rules preserves_rules)

lemma J_note_read_over [frame_rules]: "preserves (holds i J) (note_read_over j)"
  unfolding note_read_over_def by (intro frame_rules)

lemma J_handlers [frame_rules]:
  "preserves (holds i J) (handle_connect j error rem)"
  "preserves (holds i J) (handle_read_header E j error rem)"
  "preserves (holds i J) (handle_accept j error rem)"
  unfolding handle_connect_def handle_read_header_def handle_accept_def start_accept_def
  by (intro frame_rules preserves_rules; simp)+

lemma J_handle_read_body [frame_rules]: "preserves (holds i J) (handle_read_body E j error)"
  unfolding handle_read_body_def by (auto intro!: frame_rules preserves_rules)

lemma J_event_parts [frame_rules]:
  "preserves (holds i J) (done_op j p)" "preserves (holds i J) (fill_read_msg j pos error bytes)"
  unfolding done_op_def fill_read_msg_def by (intro frame_rules preserves_rules)+

text \<open>The end of a write of another session.\<close>

lemma J_other_write: "i \<noteq> j \<Longrightarrow> preserves (holds i J) (handle_write j error)"
  unfolding handle_write_def by (intro preserves_rules holds_access_other J_release)

lemma J_event:
  assumes "\<And>error. ev \<noteq> Write_done i error"
  shows "preserves (holds i J) (handle_event E ev)"
proof (rule preserves_event)
  show "preserves (holds i J) (thn (done_op j is_write) (handle_write j error))" if "ev = Write_done j error" for j error
  proof -
    have "i \<noteq> j" using assms that by auto
    then show ?thesis by (intro frame_rules preserves_rules J_other_write)
  qed
qed (intro frame_rules preserves_rules)+

end

locale writing_frame = session_frame J + pop_frame J "\<lambda>_. True" for J :: "peer_session \<Rightarrow> bool"
begin

lemma J_handle_write: "preserves (holds i J) (handle_write j error)"
  unfolding handle_write_def
  by (intro preserves_rules J_release holds_access J_locks J_pop_front J_write_front)

lemma J_any_event: "preserves (holds i J) (handle_event E ev)"
  by (rule preserves_event) (intro frame_rules preserves_rules J_handle_write)+

end

section \<open>The order of packets\<close>

text \<open>What has been written and what waits, in order: every event lets it grow at its end only.\<close>

definition packet_log :: "peer_session \<Rightarrow> packet list" where
  "packet_log x = written x @ write_msgs x"

interpretation ordered: writing_frame "\<lambda>x. prefix l (packet_log x)" for l
proof unfold_locales
  show "prefix l (packet_log (x\<lparr>write_msgs := write_msgs x @ [q]\<rparr>))" if "prefix l (packet_log x)" for x q
    using prefix_prefix [OF that, of "[q]"] by (simp add: packet_log_def)
qed (auto simp: packet_log_def intro: prefix_prefix)

text \<open>Once a write has failed nothing more is written.\<close>

interpretation stuck: session_frame "\<lambda>x. write_over x \<and> written x = w" for w
  by unfold_locales (auto simp: write_over_def writing_def filter_empty_conv)

text \<open>A session that has one still has it, or is deleted.\<close>

lemma event_log:
  assumes "handle_event E ev h = (r, h')" and "map_of (live h) i = Some x" and "i < next_object h"
    and "map_of (live h') i = Some y"
  shows "prefix (packet_log x) (packet_log y)"
proof -
  have "holds i (\<lambda>z. prefix (packet_log x) (packet_log z)) h" using assms(2,3) by (simp add: holds_def)
  from preservesD [OF ordered.J_any_event this, of E ev] assms(1,4) show ?thesis by (simp add: holds_def)
qed

lemma hub_send_found:
  assumes "hub_ok h" and "endpoint_to_proto uep = Ok epp" and "map_of (session_map h) epp = Some i"
    and "map_of (live h) i = Some x" and "copy_packet msg = Ok c"
  shows "\<exists>y. hub_send uep msg h = (Ok (), at i y h) \<and> packet_log y = packet_log x @ [c] \<and>
    (writing x \<noteq> [] \<longrightarrow> writing y = writing x)"
proof -
  have ok: "session_ok x" using hub_okD(3) [OF assms(1,4)] by simp
  then have free: "\<not> local_lock x" by (simp add: session_ok_def)
  have "hub_send uep msg h = (Ok (), at i (snd (deliver msg x)) h)"
    using assms(2-4) deliver_run [OF free assms(5)]
    by (simp add: hub_send_def bnd_run lift_outcome_run reads_run access_run at_def)
  moreover have "packet_log (snd (deliver msg x)) = packet_log x @ [c]"
    using deliver_run [OF free assms(5)] by (simp add: packet_log_def)
  moreover have "writing (snd (deliver msg x)) = writing x" if "writing x \<noteq> []"
    using deliver_run [OF free assms(5)] that ok by (auto simp: session_ok_def writing_def)
  ultimately show ?thesis by blast
qed

lemma write_event_run:
  assumes "hub_ok h" and "map_of (live h) i = Some x" and "writing x \<noteq> []"
  obtains p ps y where "write_msgs x = p # ps" and "handle_event E (Write_done i False) h = (Ok (), at i y h)"
    and "write_msgs y = ps" and "written y = written x @ [p]" and "ps \<noteq> [] \<Longrightarrow> writing y \<noteq> []"
    and "read_over y = read_over x"
    and "hub_ok (at i y h)"
proof -
  have ok: "session_ok x" using hub_okD(3) [OF assms(1,2)] by simp
  have h: "h = at i x h" by (rule at_same [OF hub_okD(1) [OF assms(1)] assms(2)])
  define aw where "aw = filter (\<lambda>op. \<not> is_write op) (awaiting x)"
  obtain op where op: "op \<in> set (awaiting x)" "is_write op"
    using assms(3) by (auto simp: writing_def filter_empty_conv)
  then have aws: "awaits i is_write h" using assms(2) by (auto simp: awaits_def)
  obtain p ps where q: "write_msgs x = p # ps" using write_done [OF ok op] by metis
  have free: "\<not> local_lock (x\<lparr>awaiting := aw\<rparr>)" using ok by (simp add: session_ok_def)
  define y where "y = (if ps = []
      then x\<lparr>awaiting := aw, ref_count := ref_count x - 1, write_msgs := [], written := written x @ [p]\<rparr>
      else x\<lparr>write_msgs := ps, awaiting := aw @ [Await_write (hd ps)], written := written x @ [p]\<rparr>)"
  have "done_op i is_write h = (Ok (), at i (x\<lparr>awaiting := aw\<rparr>) h)"
    using done_op_at [of i is_write x h] h by (simp add: aw_def)
  then have run: "handle_event E (Write_done i False) h = (Ok (), at i y h)"
    using aws handle_write_ok_run [OF free, of p ps i h] q by (simp add: bnd_run y_def)
  show ?thesis
  proof (rule that [OF q run])
    show "write_msgs y = ps" "written y = written x @ [p]" "read_over y = read_over x" by (simp_all add: y_def)
    show "ps \<noteq> [] \<Longrightarrow> writing y \<noteq> []" by (simp add: y_def writing_def)
    show "hub_ok (at i y h)" by (rule hub_event_keeps [OF assms(1) run]) simp
  qed
qed

text \<open>Events in order; what follows an event that throws goes on from the state it leaves.\<close>

fun run_events :: "'n hub_env \<Rightarrow> hub_event list \<Rightarrow> 'n hub \<Rightarrow> 'n hub" where
  "run_events E [] h = h"
| "run_events E (ev # evs) h = run_events E evs (snd (handle_event E ev h))"

lemma run_events_holds:
  assumes "\<And>ev. ev \<in> set evs \<Longrightarrow> preserves (holds i J) (handle_event E ev)" and "holds i J h"
  shows "holds i J (run_events E evs h)"
  using assms by (induction evs arbitrary: h) (auto dest: preservesD simp del: handle_event.simps)

lemma drain_queue:
  "hub_ok h \<Longrightarrow> map_of (live h) i = Some x \<Longrightarrow> write_msgs x = ps \<Longrightarrow> (ps \<noteq> [] \<Longrightarrow> writing x \<noteq> []) \<Longrightarrow>
    \<exists>y. hub_ok (run_events E (replicate (length ps) (Write_done i False)) h) \<and>
      map_of (live (run_events E (replicate (length ps) (Write_done i False)) h)) i = Some y \<and>
      write_msgs y = [] \<and> written y = written x @ ps \<and> read_over y = read_over x"
proof (induction ps arbitrary: h x)
  case Nil
  then show ?case by simp
next
  case (Cons p ps)
  then have "writing x \<noteq> []" by simp
  from write_event_run [OF Cons.prems(1,2) this, of E] Cons.prems(3) obtain y where
    y: "handle_event E (Write_done i False) h = (Ok (), at i y h)" "write_msgs y = ps"
      "written y = written x @ [p]" "ps \<noteq> [] \<Longrightarrow> writing y \<noteq> []" "hub_ok (at i y h)" "read_over y = read_over x" by auto
  from Cons.IH [OF y(5) _ y(2,4)] y(1,3,6) show ?case by simp
qed

end
