(* ===== verification/Session_Properties.thy ===== *)
theory Session_Properties
  imports Session_Order
begin

text \<open>
  The properties of the sessions: what always holds of them, that what is sent is written, in order,
  and where a failing connection leaves a session behind.
\<close>

section \<open>Runs used in the properties\<close>

text \<open>The header of a message of \<open>n\<close> bytes of a peer that listens on a port.\<close>

definition peer_header :: "nat \<Rightarrow> 16 word \<Rightarrow> string" where
  "peer_header n p = pad8 (show_nat n) @ pad8 (show_nat (unat p))"

lemma pad8_length: "length s \<le> 8 \<Longrightarrow> length (pad8 s) = 8"
  by (simp add: pad8_def)

lemma peer_header_parts:
  "n \<le> max_body_length \<Longrightarrow> length (pad8 (show_nat n)) = 8" "length (pad8 (show_nat (unat (p :: 16 word)))) = 8"
proof -
  have "unat p < 10 ^ 8" using unsigned_less [of p, where ?'a = nat] by simp
  then show "length (pad8 (show_nat (unat p))) = 8" using length_show_nat [of "unat p" 7] by (simp add: pad8_length)
  show "length (pad8 (show_nat n)) = 8" if "n \<le> max_body_length"
    using that length_show_nat [of n 7] by (simp add: pad8_length max_body_length_def PACKET_SIZE_def)
qed

lemma decode_peer_header:
  assumes "n \<le> max_body_length"
  shows "decode_header (fill_at 0 (peer_header n p) m) =
    (Ok True, (fill_at 0 (peer_header n p) m)\<lparr>body_size := n, packet_port := p\<rparr>)"
  by (rule decode_header_text [OF _ peer_header_parts(1) [OF assms] peer_header_parts(2) [of p]])
    (simp_all add: fill_at_def peer_header_def pad8_def assms)

lemma port_text_inj: "show_nat (unat p) = show_nat (unat q) \<Longrightarrow> p = q" for p q :: "16 word"
proof -
  assume eq: "show_nat (unat p) = show_nat (unat q)"
  have lt: "unat r < 2 ^ 31" for r :: "16 word"
  proof -
    have "unat r < 2 ^ 16" using unsigned_less [of r] by simp
    then show ?thesis by simp
  qed
  have "Ok (int (unat p)) = Ok (int (unat q))"
    using atoi_show_nat [OF lt, of 0 p] atoi_show_nat [OF lt, of 0 q] eq by simp
  then show ?thesis by (simp add: word_uint_eq_iff)
qed

text \<open>A session that waits for its next header, as the one of a peer that has connected to this node.\<close>

definition waits_for_header :: "peer_session \<Rightarrow> bool" where
  "waits_for_header x \<longleftrightarrow> awaiting x = [Await_header] \<and> \<not> connected x \<and> \<not> local_lock x \<and> \<not> read_over x \<and>
     ref_count x = 2 \<and> write_msgs x = []"

lemma accepted_run:
  assumes "acceptor h = Some i" and "map_of (live h) i = Some new_session" and "i < next_object h"
  shows "\<exists>x h'. handle_event E (Accepted False (Inr ep)) h = (Ok (), h') \<and> map_of (live h') i = Some x \<and>
    waits_for_header x \<and> session_map h' = session_map h \<and> app h' = app h"
proof -
  have "\<not> local_lock new_session" "\<not> connected new_session" by (simp_all add: new_session_def)
  with assms show ?thesis
    by (simp add: handle_accept_def start_accept_def make_session_def try_std_run bnd_run when_run access_run
        start_run writes_run) (simp add: new_session_def waits_for_header_def)
qed

lemma register_at:
  "\<exists>m. register i epp (at i x h) = (Ok (), at i x (h\<lparr>session_map := m\<rparr>)) \<and> map_of m = (map_of (session_map h))(epp \<mapsto> i)"
proof (cases "map_of (session_map h) epp = Some i")
  case True
  then have "map_of (session_map h) = (map_of (session_map h))(epp \<mapsto> i)" by auto
  with True show ?thesis
    by (intro exI [of _ "session_map h"]) (simp add: register_def writes_run)
next
  case False
  then show ?thesis
    by (intro exI [of _ "omap_put epp i (case map_of (session_map h) epp of None \<Rightarrow> session_map h
        | Some j \<Rightarrow> omap_erase epp (session_map h))"]) (auto simp: register_def writes_run at_def split: option.split)
qed

text \<open>
  The end of the read of a header: the session then waits for the body, and the map has it for its
  endpoint, the one it connected to or the address of the peer with the port in the header.
\<close>

lemma header_exact_run:
  assumes "\<not> local_lock x" and "Await_header \<in> set (awaiting x)" and "connected x \<or> rem = Inr r"
    and "ep = (if connected x then remote_ep x else \<lparr>ip_text = ip_text r, ip_port = p\<rparr>)" and "ip_text ep \<noteq> []"
    and "epp = Endpoint (ip_text ep) (show_nat (unat (ip_port ep)))" and "n \<le> max_body_length"
  shows "\<exists>m. handle_event E (Header_done i False (peer_header n p) rem) (at i x h) =
      (Ok (), at i (x\<lparr>awaiting := filter (\<lambda>op. op \<noteq> Await_header) (awaiting x) @ [Await_body n], remote_ep := ep,
        read_msg := (fill_at 0 (peer_header n p) (read_msg x))\<lparr>body_size := n, packet_port := p\<rparr>\<rparr>)
        (h\<lparr>session_map := m\<rparr>)) \<and>
    map_of m = (map_of (session_map h))(epp \<mapsto> i)"
proof -
  define aw where "aw = filter (\<lambda>op. op \<noteq> Await_header) (awaiting x)"
  define x1 where "x1 = x\<lparr>awaiting := aw, read_msg := fill_at 0 (peer_header n p) (read_msg x)\<rparr>"
  have free: "\<not> local_lock x1" "connected x1 = connected x" "remote_ep x1 = remote_ep x" using assms(1) by (simp_all add: x1_def)
  have len: "length (peer_header n p) = header_length"
    using peer_header_parts(1) [OF assms(7)] peer_header_parts(2) [of p] by (simp add: peer_header_def header_length_def)
  have aw: "awaits i (\<lambda>op. op = Await_header) (at i x h)" using assms(2) by (simp add: awaits_def)
  have event: "handle_event E (Header_done i False (peer_header n p) rem) (at i x h) =
      handle_read_header E i False rem (at i x1 h)"
    using aw len by (simp add: done_op_at bnd_run fill_read_msg_def when_run on_read_msg_def on_part_run writes_run x1_def aw_def)
  define x2 where "x2 = x1\<lparr>local_lock := True, ref_count := ref_count x - 1, remote_ep := ep,
      read_msg := (read_msg x1)\<lparr>body_size := n, packet_port := p\<rparr>\<rparr>"
  have dec: "decode_header (read_msg x1) = (Ok True, (read_msg x1)\<lparr>body_size := n, packet_port := p\<rparr>)"
    by (simp add: x1_def decode_peer_header assms(7))
  have own: "own_endpoint rem (x1\<lparr>local_lock := True, ref_count := ref_count x - 1,
      read_msg := (read_msg x1)\<lparr>body_size := n, packet_port := p\<rparr>\<rparr>) = (Ok (), x2)"
    using assms(3,4) free by (cases x1) (auto simp: own_endpoint_run x2_def)
  have "check_header i False rem (at i (x1\<lparr>local_lock := True, ref_count := ref_count x - 1\<rparr>) h) = (Ok epp, at i x2 h)"
    using own dec assms(5,6) by (simp add: check_header_def bnd_run on_read_msg_def on_part_run reads_run
      lift_outcome_run) (simp add: x2_def endpoint_to_proto_good)
  moreover obtain m where m: "register i epp (at i x2 h) = (Ok (), at i x2 (h\<lparr>session_map := m\<rparr>))"
    "map_of m = (map_of (session_map h))(epp \<mapsto> i)" using register_at by blast
  define x3 where "x3 = x\<lparr>awaiting := aw @ [Await_body n], remote_ep := ep,
        read_msg := (fill_at 0 (peer_header n p) (read_msg x))\<lparr>body_size := n, packet_port := p\<rparr>\<rparr>"
  have "end_header i epp (at i x2 h) = (Ok (), at i x3 (h\<lparr>session_map := m\<rparr>))"
    using assms(1) m(1) by (cases x) (simp add: end_header_def bnd_run add_ref_def await_def writes_run reads_run
        unlock_local_def x2_def x1_def x3_def)
  moreover have "access i (thn lock_local (add_ref (- 1))) (at i x1 h) =
      (Ok (), at i (x1\<lparr>local_lock := True, ref_count := ref_count x - 1\<rparr>) h)"
    using enter_at [OF free(1)] by (simp add: x1_def)
  ultimately have "handle_event E (Header_done i False (peer_header n p) rem) (at i x h) = (Ok (), at i x3 (h\<lparr>session_map := m\<rparr>))"
    unfolding event handle_read_header_alt by (simp add: bnd_run try_std_run del: access_at)
  then show ?thesis unfolding x3_def aw_def using m(2) by blast
qed

lemma header_run:
  assumes "waits_for_header x" and "ip_text ep \<noteq> []" and "epp = Endpoint (ip_text ep) (show_nat (unat p))"
    and "n \<le> max_body_length"
  shows "\<exists>y m. handle_event E (Header_done i False (peer_header n p) (Inr ep)) (at i x h) =
      (Ok (), at i y (h\<lparr>session_map := m\<rparr>)) \<and> map_of m = (map_of (session_map h))(epp \<mapsto> i) \<and>
    awaiting y = [Await_body n] \<and> \<not> connected y \<and> \<not> local_lock y \<and> \<not> read_over y \<and> ref_count y = 2 \<and>
    write_msgs y = [] \<and> remote_ep y = \<lparr>ip_text = ip_text ep, ip_port = p\<rparr>"
proof -
  have x: "\<not> local_lock x" "Await_header \<in> set (awaiting x)" "\<not> connected x"
    using assms(1) by (simp_all add: waits_for_header_def)
  define y where "y = x\<lparr>awaiting := filter (\<lambda>op. op \<noteq> Await_header) (awaiting x) @ [Await_body n],
      remote_ep := \<lparr>ip_text = ip_text ep, ip_port = p\<rparr>,
      read_msg := (fill_at 0 (peer_header n p) (read_msg x))\<lparr>body_size := n, packet_port := p\<rparr>\<rparr>"
  have "\<exists>m. handle_event E (Header_done i False (peer_header n p) (Inr ep)) (at i x h) = (Ok (), at i y (h\<lparr>session_map := m\<rparr>)) \<and>
      map_of m = (map_of (session_map h))(epp \<mapsto> i)"
    unfolding y_def by (rule header_exact_run [OF x(1,2) disjI2 [OF refl] _ _ _ assms(4)]) (use x(3) assms(2,3) in simp_all)
  then show ?thesis
    using assms(1) by (intro exI [of _ y]) (auto simp: y_def waits_for_header_def simp del: handle_event.simps)
qed

text \<open>The end of the read of a body to which the node sends nothing: the session waits for its next header.\<close>

lemma silent_body_run:
  assumes "awaiting y = [Await_body (length bytes)]" "\<not> connected y" "\<not> local_lock y" "\<not> read_over y" "ref_count y = 2"
    "write_msgs y = []" and "got_message E (remote_ep y) (fill_at header_length bytes (read_msg y)) (app h) = (Ok (), n, [])"
  shows "\<exists>z. handle_event E (Body_done i False bytes) (at i y h) = (Ok (), at i z (h\<lparr>app := n\<rparr>)) \<and>
    waits_for_header z \<and> remote_ep z = remote_ep y"
proof -
  define y1 where "y1 = y\<lparr>awaiting := [], ref_count := 1, read_msg := fill_at header_length bytes (read_msg y)\<rparr>"
  have got: "got_message E (remote_ep y1) (read_msg y1) (app h) = (Ok (), n, [])" using assms(7) by (simp add: y1_def)
  have "handle_event E (Body_done i False bytes) (at i y h) = (Ok (), at i (y1\<lparr>ref_count := 2, awaiting := [Await_header]\<rparr>) (h\<lparr>app := n\<rparr>))"
    using assms(1-6) got
    by (cases y) (simp add: awaits_def done_op_at bnd_run fill_read_msg_def when_run on_read_msg_def on_part_run writes_run
        handle_read_body_def lock_local_def unlock_local_def add_ref_def await_def reads_run lift_outcome_run ret_run y1_def is_body_def)
  then show ?thesis using assms
    by (intro exI [of _ "y1\<lparr>ref_count := 2, awaiting := [Await_header]\<rparr>"])
      (simp add: y1_def waits_for_header_def)
qed

text \<open>The read of a header fails: the session gives up its reference.\<close>

lemma read_error_run:
  assumes "\<not> local_lock x" and "Await_header \<in> set (awaiting x)" and "got_disconnected E (remote_ep x) (app h) = (Ok (), n)"
    and "x1 = x\<lparr>awaiting := filter (\<lambda>op. op \<noteq> Await_header) (awaiting x), ref_count := ref_count x - 1, read_over := True\<rparr>"
  shows "handle_event E (Header_done i True bytes rem) (at i x h) = release i (at i x1 (h\<lparr>app := n\<rparr>))"
  using assms by (cases x) (simp add: awaits_def done_op_at bnd_run fill_read_msg_def when_run handle_read_header_alt try_std_run
      check_header_def ret_run throw_run lock_local_def unlock_local_def add_ref_def writes_run reads_run note_read_over_def)

text \<open>The connection ends while nothing is being written: the session is deleted.\<close>

lemma disconnect_run:
  assumes "waits_for_header x" and "got_disconnected E (remote_ep x) (app h) = (Ok (), n)" and "endpoint_to_proto (remote_ep x) = Ok epp"
  shows "handle_event E (Header_done i True bytes rem) (at i x h) = (Ok (),
    h\<lparr>app := n, live := omap_erase i (live h), session_map := omap_erase epp (session_map h), orphans := orphans h\<rparr>)"
proof -
  define x1 where "x1 = x\<lparr>awaiting := [], ref_count := 1, read_over := True\<rparr>"
  have x: "\<not> local_lock x" "Await_header \<in> set (awaiting x)" and x1: "\<not> local_lock x1" "ref_count x1 = 1"
    "remote_ep x1 = remote_ep x" "awaiting x1 = []" using assms(1) by (simp_all add: x1_def waits_for_header_def)
  have "handle_event E (Header_done i True bytes rem) (at i x h) = release i (at i x1 (h\<lparr>app := n\<rparr>))"
    by (rule read_error_run [OF x assms(2)]) (use assms(1) in \<open>simp add: x1_def waits_for_header_def\<close>)
  also have "\<dots> = (Ok (), (h\<lparr>app := n\<rparr>)\<lparr>live := omap_erase i (live h), session_map := omap_erase epp (session_map h),
      orphans := orphans h\<rparr>)"
    using assms(3) x1 by (subst release_at) simp_all
  finally show ?thesis by auto
qed

text \<open>A node that does nothing with its messages.\<close>

definition demo_env :: "unit hub_env" where
  "demo_env = \<lparr>got_message = (\<lambda>ep m n. (Ok (), n, [])), got_disconnected = (\<lambda>ep n. (Ok (), n))\<rparr>"

definition demo_tcp :: "16 word \<Rightarrow> tcp_endpoint" where
  "demo_tcp p = \<lparr>ip_text = ''10.0.0.1'', ip_port = p\<rparr>"

lemma fresh_acceptor: "acceptor (fresh_hub n) = Some 0" "map_of (live (fresh_hub n)) 0 = Some new_session"
  "next_object (fresh_hub n) = 1" "session_map (fresh_hub n) = []"
  by (simp_all add: fresh_hub_def start_accept_def make_session_def bnd_run writes_run)

lemma reach_run:
  "hub_reach E h \<Longrightarrow> handle_event E ev h = (Ok (), h') \<Longrightarrow> hub_reach E h'"
  by (rule hub_reach.event) auto

text \<open>A peer has connected to the node, and has sent a message.\<close>

lemma demo_connected:
  obtains x h where "hub_reach demo_env h" and "map_of (live h) 0 = Some x" and "waits_for_header x"
    and "map_of (session_map h) = [Endpoint ''10.0.0.1'' (show_nat (unat p)) \<mapsto> 0]"
    and "remote_ep x = demo_tcp p"
proof -
  have fresh: "hub_reach demo_env (fresh_hub ())" by (rule hub_reach.fresh)
  have "(0 :: nat) < next_object (fresh_hub ())" by (simp add: fresh_acceptor)
  from accepted_run [OF fresh_acceptor(1,2) this, of demo_env "demo_tcp 9"] obtain x1 h1 where
    1: "handle_event demo_env (Accepted False (Inr (demo_tcp 9))) (fresh_hub ()) = (Ok (), h1)"
      "map_of (live h1) 0 = Some x1" "waits_for_header x1" "session_map h1 = []" by (auto simp: fresh_acceptor)
  have r1: "hub_reach demo_env h1" by (rule reach_run [OF fresh 1(1)])
  have h1: "h1 = at 0 x1 h1" by (rule at_same [OF hub_okD(1) [OF hub_reach_ok [OF r1]] 1(2)])
  have ip: "ip_text (demo_tcp 9) \<noteq> []" by (simp add: demo_tcp_def)
  from header_run [OF 1(3) ip refl le0, of demo_env 0 p h1] obtain y m where
    2: "handle_event demo_env (Header_done 0 False (peer_header 0 p) (Inr (demo_tcp 9))) h1 =
        (Ok (), at 0 y (h1\<lparr>session_map := m\<rparr>))"
      "map_of m = [Endpoint ''10.0.0.1'' (show_nat (unat p)) \<mapsto> 0]"
    and y: "awaiting y = [Await_body 0]" "\<not> connected y" "\<not> local_lock y" "\<not> read_over y" "ref_count y = 2"
      "write_msgs y = []" "remote_ep y = demo_tcp p"
    using h1 1(4) by (auto simp: demo_tcp_def simp del: handle_event.simps)
  have got: "got_message demo_env ep m n = (Ok (), n, [])" for ep m n by (simp add: demo_env_def)
  from silent_body_run [where bytes = "[]", OF _ y(2-6) got, of 0 "h1\<lparr>session_map := m\<rparr>"] y(1,7) obtain z where
    3: "handle_event demo_env (Body_done 0 False []) (at 0 y (h1\<lparr>session_map := m\<rparr>)) = (Ok (), at 0 z (h1\<lparr>session_map := m, app := ()\<rparr>))"
      "waits_for_header z" "remote_ep z = demo_tcp p" by (auto simp del: handle_event.simps)
  show ?thesis
    by (rule that [OF reach_run [OF reach_run [OF r1 2(1)] 3(1)], of z]) (simp_all add: 2(2) 3)
qed

text \<open>The same peer while an answer to it is being written.\<close>

definition demo_packet :: packet where
  "demo_packet = \<lparr>packet_data = replicate 16 None, body_size = 0, packet_port = 0\<rparr>"

lemma demo_copy: "copy_packet demo_packet = Ok demo_packet"
  by (simp add: copy_packet_def demo_packet_def set_body_length_def write_at_def packet_length_def header_length_def Let_def)

lemma demo_writing:
  obtains x h where "hub_reach demo_env h" and "map_of (live h) 0 = Some x"
    and "awaiting x = [Await_header, Await_write demo_packet]" and "write_msgs x = [demo_packet]"
    and "ref_count x = 3" and "\<not> local_lock x" and "\<not> read_over x"
    and "map_of (session_map h) = [Endpoint ''10.0.0.1'' (show_nat (unat (80 :: 16 word))) \<mapsto> 0]"
proof -
  obtain x h where h: "hub_reach demo_env h" "map_of (live h) 0 = Some x" "waits_for_header x" "remote_ep x = demo_tcp 80"
      "map_of (session_map h) = [Endpoint ''10.0.0.1'' (show_nat (unat (80 :: 16 word))) \<mapsto> 0]"
    by (rule demo_connected)
  define y where "y = x\<lparr>write_msgs := [demo_packet], ref_count := 3, awaiting := [Await_header, Await_write demo_packet]\<rparr>"
  have free: "\<not> local_lock x" using h(3) by (simp add: waits_for_header_def)
  have "deliver demo_packet x = (Ok (), y)"
    using deliver_run [OF free demo_copy] h(3) by (simp add: waits_for_header_def y_def)
  then have "handle_event demo_env (Send (demo_tcp 80) demo_packet) h = (Ok (), at 0 y h)"
    using h(2,5) by (simp add: hub_send_def bnd_run lift_outcome_run reads_run access_run at_def
        endpoint_to_proto_good demo_tcp_def)
  note r = reach_run [OF h(1) this]
  show ?thesis
    by (rule that [OF r, of y]) (use h(3,5) in \<open>simp_all add: y_def waits_for_header_def\<close>)
qed

text \<open>Packets to an endpoint that is not in the map.\<close>

lemma send_new_run:
  assumes "endpoint_to_proto uep = Ok epp" and "map_of (session_map h) epp = None" and "copy_packet msg = Ok c"
  shows "hub_send uep msg h = (Ok (), at (next_object h) (new_session\<lparr>connected := True, remote_ep := uep,
      ref_count := 3, write_msgs := [c], awaiting := [Await_connect, Await_write c]\<rparr>)
      (h\<lparr>next_object := Suc (next_object h)\<rparr>))"
proof -
  let ?y = "new_session\<lparr>connected := True, remote_ep := uep, ref_count := 2, awaiting := [Await_connect]\<rparr>"
  have "connect uep new_session = (Ok (), ?y)" by (subst connect_run) (simp_all add: new_session_def)
  moreover have "deliver msg ?y = (Ok (), ?y\<lparr>ref_count := 3, write_msgs := [c], awaiting := [Await_connect, Await_write c]\<rparr>)"
    by (subst deliver_run [OF _ assms(3)]) (simp_all add: new_session_def)
  ultimately show ?thesis
    using assms(1,2) by (simp add: hub_send_def make_session_def bnd_run lift_outcome_run reads_run
        at_def [symmetric]) (simp add: at_def access_def)
qed

lemma sends_to_no_one:
  assumes "endpoint_to_proto uep = Ok epp"
  shows "map_of (session_map h) epp = None \<Longrightarrow> \<forall>msg \<in> set msgs. copy_packet msg = Ok (f msg) \<Longrightarrow>
    h' = run_events E (map (Send uep) msgs) h \<Longrightarrow>
    session_map h' = session_map h \<and> next_object h' = next_object h + length msgs \<and>
    (\<forall>j < next_object h. map_of (live h') j = map_of (live h) j) \<and>
    (\<forall>k < length msgs. \<exists>y. map_of (live h') (next_object h + k) = Some y \<and> remote_ep y = uep \<and>
       awaiting y = [Await_connect, Await_write (f (msgs ! k))])"
proof (induction msgs arbitrary: h)
  case Nil
  then show ?case by simp
next
  case (Cons msg msgs)
  let ?i = "next_object h"
  let ?y = "new_session\<lparr>connected := True, remote_ep := uep, ref_count := 3, write_msgs := [f msg],
      awaiting := [Await_connect, Await_write (f msg)]\<rparr>"
  define h1 where "h1 = at ?i ?y (h\<lparr>next_object := Suc ?i\<rparr>)"
  have c: "copy_packet msg = Ok (f msg)" using Cons.prems(2) by simp
  have send: "handle_event E (Send uep msg) h = (Ok (), h1)"
    using send_new_run [OF assms Cons.prems(1) c] by (simp add: h1_def)
  have h1: "session_map h1 = session_map h" "next_object h1 = Suc ?i" "map_of (live h1) ?i = Some ?y"
      "\<And>j. j < ?i \<Longrightarrow> map_of (live h1) j = map_of (live h) j"
    by (simp_all add: h1_def)
  have "h' = run_events E (map (Send uep) msgs) h1" using Cons.prems(3) send by (simp del: handle_event.simps)
  note IH = Cons.IH [OF _ _ this, unfolded h1]
  have "\<exists>y. map_of (live h') (?i + k) = Some y \<and> remote_ep y = uep \<and>
      awaiting y = [Await_connect, Await_write (f ((msg # msgs) ! k))]" if "k < length (msg # msgs)" for k
  proof (cases k)
    case 0
    then show ?thesis using IH Cons.prems(1,2) h1(3) by simp
  next
    case (Suc j)
    then show ?thesis using IH Cons.prems(1,2) that by simp
  qed
  then show ?case using IH Cons.prems(1,2) h1(4) by simp
qed

section \<open>Properties\<close>

text \<open>
  No operation outlives its session: however connections come, fail and go, a session is deleted
  only when it awaits nothing; until then its lock is free between events, its count of references is
  that of its operations, plus one of its own that the first of its two sides to fail gives up, and it
  awaits at most one read and at most one write, which is that of the first packet in its queue.
\<close>

lemma sessions_stay_in_order:
  assumes "hub_reach E h"
  shows "orphans h = [] \<and> (\<forall>i x. map_of (live h) i = Some x \<longrightarrow> \<not> local_lock x \<and>
    ref_count x = 1 + int (length (awaiting x)) - of_bool (read_over x) - of_bool (write_over x) \<and>
    length (reading x) \<le> 1 \<and> \<not> (read_over x \<and> write_over x) \<and>
    (writing x = [] \<or> (\<exists>p ps. write_msgs x = p # ps \<and> writing x = [Await_write p])))"
proof -
  note ok = hub_reach_ok [OF assms]
  show ?thesis
  proof (intro conjI allI impI)
    show "orphans h = []" by (rule hub_okD(2) [OF ok])
    fix i x assume "map_of (live h) i = Some x"
    then have x: "session_ok x" using hub_okD(3) [OF ok] by simp
    show "\<not> local_lock x" "\<not> (read_over x \<and> write_over x)" "length (reading x) \<le> 1"
      "ref_count x = 1 + int (length (awaiting x)) - of_bool (read_over x) - of_bool (write_over x)"
      using x by (simp_all add: session_ok_def)
    show "writing x = [] \<or> (\<exists>p ps. write_msgs x = p # ps \<and> writing x = [Await_write p])"
      using x by (cases "write_msgs x") (auto simp: session_ok_def)
  qed
qed

lemma sessions_stay_in_order_example:
  "\<exists>h x. hub_reach demo_env h \<and> map_of (live h) 0 = Some x \<and> orphans h = [] \<and> ref_count x = 2 \<and> \<not> local_lock x"
proof -
  obtain x h where h: "hub_reach demo_env h" "map_of (live h) 0 = Some x" "waits_for_header x"
    by (rule demo_connected)
  with sessions_stay_in_order [OF h(1)] show ?thesis by (auto simp: waits_for_header_def)
qed

text \<open>
  C9 (packets arrive in the order they are sent): a packet sent to an endpoint whose session has not
  failed to write is written once the writes before it succeed, after all the packets that were waiting;
  and whatever happens to the session instead, what it has written or has to write only grows at the end.
\<close>

theorem sent_packet_is_written:
  assumes "hub_reach E h" and "endpoint_to_proto uep = Ok epp" and "map_of (session_map h) epp = Some i"
    and "map_of (live h) i = Some x" and "\<not> write_over x" and "copy_packet msg = Ok c"
  shows "(\<exists>y. map_of (live (run_events E (Send uep msg # replicate (Suc (length (write_msgs x))) (Write_done i False)) h)) i = Some y \<and>
      written y = written x @ write_msgs x @ [c] \<and> write_msgs y = []) \<and>
    (\<forall>evs y. map_of (live (run_events E evs h)) i = Some y \<longrightarrow>
      prefix (written x @ write_msgs x) (written y @ write_msgs y))"
proof (intro conjI allI impI)
  note ok = hub_reach_ok [OF assms(1)]
  have sx: "session_ok x" using hub_okD(3) [OF ok assms(4)] by simp
  then have free: "\<not> local_lock x" by (simp add: session_ok_def)
  define y where "y = snd (deliver msg x)"
  have send: "handle_event E (Send uep msg) h = (Ok (), at i y h)"
    using assms(2-4) deliver_run [OF free assms(6)]
    by (simp add: hub_send_def bnd_run lift_outcome_run reads_run access_run at_def y_def)
  have y: "write_msgs y = write_msgs x @ [c]" "written y = written x" "writing y \<noteq> []"
    using deliver_run [OF free assms(6)] assms(5) by (auto simp: y_def write_over_def writing_def)
  have hy: "hub_ok (at i y h)" by (rule hub_event_keeps [OF ok send]) simp
  have live: "map_of (live (at i y h)) i = Some y" by simp
  from drain_queue [OF hy live y(1) y(3), of E] send y(2)
  show "\<exists>y. map_of (live (run_events E (Send uep msg # replicate (Suc (length (write_msgs x))) (Write_done i False)) h)) i = Some y \<and>
      written y = written x @ write_msgs x @ [c] \<and> write_msgs y = []"
    by (auto simp del: handle_event.simps)
next
  fix evs y assume y: "map_of (live (run_events E evs h)) i = Some y"
  have "i < next_object h" using hub_okD(3) [OF hub_reach_ok [OF assms(1)] assms(4)] by simp
  then have "holds i (\<lambda>z. prefix (packet_log x) (packet_log z)) h" using assms(4) by (simp add: holds_def)
  from run_events_holds [OF ordered.J_any_event this, of E evs] y
  show "prefix (written x @ write_msgs x) (written y @ write_msgs y)" by (simp add: holds_def packet_log_def)
qed

theorem sent_packet_is_written_witness:
  "\<exists>h y c. hub_reach demo_env h \<and> copy_packet (sized_packet 0) = Ok c \<and>
     map_of (live (run_events demo_env [Send (demo_tcp 80) (sized_packet 0), Write_done 0 False] h)) 0 = Some y \<and>
     written y = written (the (map_of (live h) 0)) @ [c]"
proof -
  obtain x h where h: "hub_reach demo_env h" "map_of (live h) 0 = Some x" "waits_for_header x"
      "map_of (session_map h) = [Endpoint ''10.0.0.1'' (show_nat (unat (80 :: 16 word))) \<mapsto> 0]"
    by (rule demo_connected)
  have epp: "endpoint_to_proto (demo_tcp 80) = Ok (Endpoint ''10.0.0.1'' (show_nat (unat (80 :: 16 word))))"
    by (simp add: endpoint_to_proto_good demo_tcp_def)
  have q: "write_msgs x = []" "\<not> write_over x" using h(3) by (simp_all add: waits_for_header_def write_over_def)
  obtain c where c: "copy_packet (sized_packet 0) = Ok c"
    by (simp add: copy_packet_def sized_packet_def set_body_length_def write_at_def packet_length_def Let_def)
  have m: "map_of (session_map h) (Endpoint ''10.0.0.1'' (show_nat (unat (80 :: 16 word)))) = Some 0"
    by (simp add: h(4))
  from sent_packet_is_written [OF h(1) epp m h(2) q(2) c] h(1,2) q(1) c show ?thesis
    by (auto simp del: handle_event.simps)
qed

text \<open>
  C36 (a failed write silences the session): once a write has failed while the connection is still read,
  nothing is ever written on the session again; what is sent to its endpoint is accepted, without an
  error, and waits in the queue.
\<close>

theorem failed_write_blocks_the_session:
  assumes "hub_reach E h" and "map_of (live h) i = Some x" and "write_over x"
  shows "(\<forall>evs y. map_of (live (run_events E evs h)) i = Some y \<longrightarrow> write_over y \<and> written y = written x) \<and>
    (\<forall>uep epp msg c. endpoint_to_proto uep = Ok epp \<longrightarrow> map_of (session_map h) epp = Some i \<longrightarrow>
      copy_packet msg = Ok c \<longrightarrow> (\<exists>h'. hub_send uep msg h = (Ok (), h') \<and>
        (\<exists>y. map_of (live h') i = Some y \<and> write_msgs y = write_msgs x @ [c] \<and> awaiting y = awaiting x)))"
proof (intro conjI allI impI)
  note ok = hub_reach_ok [OF assms(1)]
  let ?J = "\<lambda>y. write_over y \<and> written y = written x"
  have event: "preserves (holds i ?J) (handle_event E ev)" for ev
  proof (cases "\<exists>error. ev = Write_done i error")
    case True
    then obtain error where ev: "ev = Write_done i error" by blast
    have "\<not> awaits i is_write k" if "holds i ?J k" for k :: "'a hub"
      using that by (auto simp: holds_def awaits_def write_over_def writing_def filter_empty_conv split: option.split)
    then show ?thesis unfolding ev by (auto intro!: preservesI)
  next
    case False
    then show ?thesis by (intro stuck.J_event) auto
  qed
  have "holds i ?J h" using assms(2,3) hub_okD(3) [OF ok assms(2)] by (simp add: holds_def)
  note run = run_events_holds [OF event this]
  fix evs y assume "map_of (live (run_events E evs h)) i = Some y"
  with run [of evs] show "write_over y" "written y = written x" by (simp_all add: holds_def)
next
  fix uep epp msg c
  assume e: "endpoint_to_proto uep = Ok epp" "map_of (session_map h) epp = Some i" and c: "copy_packet msg = Ok c"
  have free: "\<not> local_lock x" using hub_okD(3) [OF hub_reach_ok [OF assms(1)] assms(2)] by (simp add: session_ok_def)
  have "write_msgs x \<noteq> []" using assms(3) by (simp add: write_over_def)
  with e deliver_run [OF free c] assms(2) show "\<exists>h'. hub_send uep msg h = (Ok (), h') \<and>
      (\<exists>y. map_of (live h') i = Some y \<and> write_msgs y = write_msgs x @ [c] \<and> awaiting y = awaiting x)"
    by (simp add: hub_send_def bnd_run lift_outcome_run reads_run access_run)
qed

theorem failed_write_blocks_the_session_witness:
  "\<exists>h h' y. hub_reach demo_env h \<and> hub_send (demo_tcp 80) demo_packet h = (Ok (), h') \<and>
     map_of (live h') 0 = Some y \<and> write_msgs y = [demo_packet, demo_packet] \<and> awaiting y = [Await_header]"
proof -
  obtain x h where h: "hub_reach demo_env h" "map_of (live h) 0 = Some x"
      "awaiting x = [Await_header, Await_write demo_packet]" "write_msgs x = [demo_packet]"
      "ref_count x = 3" "\<not> local_lock x"
      "map_of (session_map h) = [Endpoint ''10.0.0.1'' (show_nat (unat (80 :: 16 word))) \<mapsto> 0]"
    by (rule demo_writing)
  define y where "y = x\<lparr>awaiting := [Await_header], ref_count := 1\<rparr>"
  have same: "h = at 0 x h" by (rule at_same [OF hub_okD(1) [OF hub_reach_ok [OF h(1)]] h(2)])
  have "handle_event demo_env (Write_done 0 True) (at 0 x h) = (Ok (), at 0 y h)"
    using h(3-6) by (cases x) (simp add: awaits_def done_op_at bnd_run handle_write_def lock_local_def unlock_local_def
        add_ref_def writes_run release_at y_def)
  then have r: "hub_reach demo_env (at 0 y h)" using reach_run [OF h(1)] same by metis
  have y: "map_of (live (at 0 y h)) 0 = Some y" "write_over y"
    using h(4) by (simp_all add: write_over_def writing_def y_def)
  have q: "write_msgs y = [demo_packet]" "awaiting y = [Await_header]" using h(4) by (simp_all add: y_def)
  have epp: "endpoint_to_proto (demo_tcp 80) = Ok (Endpoint ''10.0.0.1'' (show_nat (unat (80 :: 16 word))))"
    by (simp add: endpoint_to_proto_good demo_tcp_def)
  have m: "map_of (session_map (at 0 y h)) (Endpoint ''10.0.0.1'' (show_nat (unat (80 :: 16 word)))) = Some 0"
    by (simp add: h(7))
  from failed_write_blocks_the_session [OF r y, THEN conjunct2, rule_format, OF epp m demo_copy] r q
  show ?thesis by auto
qed

text \<open>
  C35 (a session can outlive its connection): when reading fails while packets are being written, and the
  writes then succeed, nothing is left that would delete the session: it has no reference, awaits nothing
  and no end of an operation of its own can reach it any more, but it is there.
\<close>

theorem session_outlives_its_connection:
  assumes "hub_reach E h" and "map_of (live h) i = Some x" and "read_over x"
  shows "let h' = run_events E (replicate (length (write_msgs x)) (Write_done i False)) h
    in (\<exists>y. map_of (live h') i = Some y \<and> ref_count y = 0 \<and> awaiting y = [] \<and> write_msgs y = []) \<and>
      (\<forall>error bytes rem. handle_event E (Connect_done i error rem) h' = (Ok (), h') \<and>
        handle_event E (Header_done i error bytes rem) h' = (Ok (), h') \<and>
        handle_event E (Body_done i error bytes) h' = (Ok (), h') \<and>
        handle_event E (Write_done i error) h' = (Ok (), h'))"
proof -
  note ok = hub_reach_ok [OF assms(1)]
  have x: "session_ok x" using hub_okD(3) [OF ok assms(2)] by simp
  have w: "write_msgs x \<noteq> [] \<Longrightarrow> writing x \<noteq> []" using x assms(3) by (auto simp: session_ok_def write_over_def)
  define h' where "h' = run_events E (replicate (length (write_msgs x)) (Write_done i False)) h"
  from drain_queue [OF ok assms(2) refl w, of E] assms(3) obtain y where
    y: "hub_ok h'" "map_of (live h') i = Some y" "write_msgs y = []" "read_over y" unfolding h'_def by auto
  have sy: "session_ok y" using hub_okD(3) [OF y(1,2)] by simp
  then have "writing y = []" "reading y = []" using y(3,4) by (auto simp: session_ok_def)
  then have aw: "awaiting y = []" using awaiting_length [of y] by simp
  have ref: "ref_count y = 0" using sy y(3,4) aw by (simp add: session_ok_def write_over_def)
  have "\<not> awaits i p h'" for p using y(2) aw by (simp add: awaits_def)
  then show ?thesis unfolding h'_def [symmetric] Let_def using y(2,3) aw ref by simp
qed

theorem session_outlives_its_connection_witness:
  "\<exists>h y. hub_reach demo_env h \<and> map_of (live (run_events demo_env [Write_done 0 False] h)) 0 = Some y \<and>
     ref_count y = 0 \<and> awaiting y = []"
proof -
  obtain x h where h: "hub_reach demo_env h" "map_of (live h) 0 = Some x"
      "awaiting x = [Await_header, Await_write demo_packet]" "write_msgs x = [demo_packet]"
      "ref_count x = 3" "\<not> local_lock x" "\<not> read_over x"
    by (rule demo_writing)
  define y where "y = x\<lparr>awaiting := [Await_write demo_packet], ref_count := 1, read_over := True\<rparr>"
  have same: "h = at 0 x h" by (rule at_same [OF hub_okD(1) [OF hub_reach_ok [OF h(1)]] h(2)])
  have "handle_event demo_env (Header_done 0 True [] (Inl [])) (at 0 x h) = (Ok (), at 0 y (h\<lparr>app := app h\<rparr>))"
    using h(3-6) by (cases x) (simp add: awaits_def done_op_at bnd_run fill_read_msg_def when_run handle_read_header_alt
        check_header_def try_std_run ret_run throw_run demo_env_def reads_run note_read_over_def
        lock_local_def unlock_local_def add_ref_def writes_run release_at y_def)
  then have r: "hub_reach demo_env (at 0 y h)" using reach_run [OF h(1)] same by (metis hub.surjective hub.update_convs(6))
  have y: "map_of (live (at 0 y h)) 0 = Some y" "read_over y" "length (write_msgs y) = 1"
    using h(4) by (simp_all add: y_def)
  from session_outlives_its_connection [OF r y(1,2)] r show ?thesis
    unfolding y(3) by (auto simp: Let_def simp del: handle_event.simps)
qed

text \<open>
  Every packet before the first answer opens a connection: a session made to send a packet is not in
  the map until its peer has sent a header, so that as many connections are opened to an endpoint as
  packets are sent to it before that.
\<close>

lemma packets_before_an_answer_open_sessions:
  assumes "endpoint_to_proto uep = Ok epp" and "map_of (session_map h) epp = None"
    and "\<forall>msg \<in> set msgs. copy_packet msg = Ok (f msg)"
  shows "let h' = run_events E (map (Send uep) msgs) h
    in session_map h' = session_map h \<and> next_object h' = next_object h + length msgs \<and>
      (\<forall>k < length msgs. \<exists>y. map_of (live h') (next_object h + k) = Some y \<and> remote_ep y = uep \<and>
         awaiting y = [Await_connect, Await_write (f (msgs ! k))])"
  using sends_to_no_one [OF assms refl, of E] by (simp add: Let_def)

lemma packets_before_an_answer_open_sessions_example:
  "length (live (fresh_hub ())) = 1 \<and>
    (\<exists>x y. map_of (live (run_events demo_env [Send (demo_tcp 80) demo_packet, Send (demo_tcp 80) demo_packet] (fresh_hub ()))) 1 = Some x \<and>
     map_of (live (run_events demo_env [Send (demo_tcp 80) demo_packet, Send (demo_tcp 80) demo_packet] (fresh_hub ()))) 2 = Some y \<and>
     remote_ep x = demo_tcp 80 \<and> remote_ep y = demo_tcp 80)"
proof -
  define run where "run = run_events demo_env (map (Send (demo_tcp 80)) [demo_packet, demo_packet]) (fresh_hub ())"
  have epp: "endpoint_to_proto (demo_tcp 80) = Ok (Endpoint ''10.0.0.1'' (show_nat (unat (80 :: 16 word))))"
    by (simp add: endpoint_to_proto_good demo_tcp_def)
  have none: "map_of (session_map (fresh_hub ())) (Endpoint ''10.0.0.1'' (show_nat (unat (80 :: 16 word)))) = None"
    by (simp add: fresh_acceptor)
  have copy: "\<forall>msg \<in> set [demo_packet, demo_packet]. copy_packet msg = Ok (id msg)" by (simp add: demo_copy)
  note all = packets_before_an_answer_open_sessions [OF epp none copy, of demo_env, folded run_def,
      unfolded Let_def, THEN conjunct2, THEN conjunct2, rule_format, unfolded fresh_acceptor]
  have "run = run_events demo_env [Send (demo_tcp 80) demo_packet, Send (demo_tcp 80) demo_packet] (fresh_hub ())"
    by (simp only: run_def list.map)
  moreover have "length (live (fresh_hub ())) = 1"
    by (simp add: fresh_hub_def start_accept_def make_session_def bnd_run writes_run)
  ultimately show ?thesis using all [of 0] all [of 1] by (auto simp: numeral_2_eq_2)
qed

end
