(* ===== verification/Session_Buffer.thy ===== *)
theory Session_Buffer
  imports Session_Properties
begin

text \<open>
  The buffer a session reads into: every read stays inside it, and the body the node is given is what
  the peer sent, as long as its header announced.
\<close>

section \<open>Statements about all sessions\<close>

definition every :: "(peer_session \<Rightarrow> bool) \<Rightarrow> 'n hub \<Rightarrow> bool" where
  "every J h \<longleftrightarrow> (\<forall>i x. map_of (live h) i = Some x \<longrightarrow> J x)"

lemma everyD: "every J h \<Longrightarrow> map_of (live h) i = Some x \<Longrightarrow> J x"
  by (simp add: every_def)

lemma every_at: "every J h \<Longrightarrow> J x \<Longrightarrow> every J (at i x h)"
  by (simp add: every_def)

named_theorems every_rules "computations that keep a statement about all sessions"

text \<open>A statement that holds of a new session: what works on one session keeps it where it does for that one.\<close>

locale new_frame =
  fixes J :: "peer_session \<Rightarrow> bool"
  assumes J_new: "J new_session"
begin

lemma every_access [every_rules]:
  assumes "preserves J m"
  shows "preserves (every J) (access i m)"
proof (rule preservesI)
  fix h assume h: "every J h"
  show "every J (snd (access i m h))"
  proof (cases "map_of (live h) i")
    case (Some x)
    have "J (snd (m x))" using preservesD [OF assms everyD [OF h Some]] .
    with h show ?thesis by (simp add: every_def access_run [OF Some])
  qed (use h in \<open>simp add: access_def\<close>)
qed

lemma every_hub [every_rules]:
  "preserves (every J) (register i e)" "preserves (every J) (erase_endpoint ep)" "preserves (every J) (delete_object i)"
  "preserves (every J) make_session" "preserves (every J) (writes (\<lambda>h. h\<lparr>acceptor := a\<rparr>))"
  "preserves (every J) (\<lambda>h. case got_disconnected E ep (app h) of (r, n) \<Rightarrow> (r, h\<lparr>app := n\<rparr>))"
  "preserves (every J) (\<lambda>h. case got_message E ep m (app h) of (r, n, out) \<Rightarrow> (Ok (r, out), h\<lparr>app := n\<rparr>))"
proof -
  show "preserves (every J) (register i e)"
    unfolding register_def by (rule preserves_writes) (simp add: every_def split: option.split)
  show "preserves (every J) (erase_endpoint ep)"
    unfolding erase_endpoint_def by (intro preserves_rules preserves_writes) (simp add: every_def)
qed (auto intro!: preservesI simp: every_def delete_object_def make_session_def writes_run J_new
    split: option.split prod.split if_splits)

end

text \<open>
  Laws that keep a statement about all sessions through everything but the ends of the two reads, which
  fill the message: it does not speak of the queue.
\<close>

locale object_frame = new_frame J + peer_frame J "\<lambda>_. True" + any_frame J for J :: "peer_session \<Rightarrow> bool" +
  assumes J_written: "J (x\<lparr>write_msgs := ps, written := ws\<rparr>) = J x"
    and J_write: "J x \<Longrightarrow> J (x\<lparr>awaiting := awaiting x @ [Await_write q]\<rparr>)"
begin

lemma every_write [every_rules]: "preserves J pop_front" "preserves J write_front"
proof -
  have pop: "J x \<Longrightarrow> J (x\<lparr>write_msgs := ps, written := ws\<rparr>)" for x ps ws by (simp add: J_written)
  then show "preserves J pop_front"
    by (auto intro!: preservesI simp: pop_front_def split: list.split)
  have "J x \<Longrightarrow> J (x\<lparr>ref_count := n, awaiting := awaiting x @ [Await_write q]\<rparr>)" for x n q
    using J_write [of "x\<lparr>ref_count := n\<rparr>" q] by (simp add: J_fields)
  then show "preserves J write_front"
    by (auto intro!: preservesI simp: write_front_def add_ref_def await_def cpp_simps split: list.split)
qed

lemma every_sends [every_rules]:
  "preserves (every J) (hub_send uep msg)" "preserves (every J) (release i)" "preserves (every J) (note_read_over i)"
  "preserves (every J) (done_op i p)" "preserves (every J) start_accept"
proof -
  show "preserves (every J) (hub_send uep msg)"
    unfolding hub_send_def
    by (intro every_rules preserves_rules) (auto split: option.split intro!: every_rules frame_rules preserves_rules)
qed (unfold release_def note_read_over_def done_op_def start_accept_def; intro every_rules frame_rules preserves_rules)+

lemma every_handlers [every_rules]:
  "preserves (every J) (handle_connect i error rem)" "preserves (every J) (handle_accept i error rem)"
  "preserves (every J) (handle_write i error)"
  unfolding handle_connect_def handle_accept_def handle_write_def
  by (intro every_rules frame_rules preserves_rules)+

lemma every_handle_read_body: "preserves (every J) (handle_read_body E i error)"
  unfolding handle_read_body_def
  by (auto intro!: every_rules frame_rules preserves_rules)

end

section \<open>Reading a header\<close>

text \<open>Reading a header: the endpoint changes only as the header says.\<close>

lemma check_header_peer:
  assumes "check_header i error rem (at i z h) = (q, h1)"
  obtains z1 where "h1 = at i z1 h" and "awaiting z1 = awaiting z" and "connected z1 = connected z"
    and "remote_ep z1 = remote_ep z \<or> (\<not> error \<and> \<not> connected z \<and> (\<exists>r. rem = Inr r \<and>
      remote_ep z1 = \<lparr>ip_text = ip_text r, ip_port = packet_port (snd (decode_header (read_msg z)))\<rparr>))"
    and "\<And>epp. q = Ok epp \<Longrightarrow> endpoint_to_proto (remote_ep z1) = Ok epp"
    and "read_msg z1 = read_msg z \<or> (\<not> error \<and> read_msg z1 = snd (decode_header (read_msg z)))"
    and "local_lock z1 = local_lock z" and "\<And>epp. q = Ok epp \<Longrightarrow> \<not> error \<and> read_msg z1 = snd (decode_header (read_msg z)) \<and> (connected z \<or> (\<exists>r. rem = Inr r \<and>
      remote_ep z1 = \<lparr>ip_text = ip_text r, ip_port = packet_port (snd (decode_header (read_msg z)))\<rparr>))"
proof (cases error)
  case True
  with assms show ?thesis
    by (intro that [of z]) (auto simp: check_header_def bnd_run ret_run throw_run)
next
  case False
  obtain d m where dec: "decode_header (read_msg z) = (d, m)" by fastforce
  have read: "access i (on_read_msg decode_header) (at i z h) = (d, at i (z\<lparr>read_msg := m\<rparr>) h)"
    by (simp add: on_read_msg_def on_part_run dec)
  show ?thesis
  proof (cases "d = Ok True")
    case no: False
    with assms False read have "h1 = at i (z\<lparr>read_msg := m\<rparr>) h \<and> (\<forall>epp. q \<noteq> Ok epp)"
      by (auto simp: check_header_def bnd_run throw_run simp del: access_at split: outcome.splits if_splits)
    with dec False show ?thesis by (intro that [of "z\<lparr>read_msg := m\<rparr>"]) auto
  next
    case True
    define y where "y = z\<lparr>read_msg := m\<rparr>"
    obtain o1 w where own: "own_endpoint rem y = (o1, w)" by fastforce
    have run: "(case o1 of Ok _ \<Rightarrow> (endpoint_to_proto (remote_ep w), at i w h)
        | Throw e \<Rightarrow> (Throw e, at i w h) | Abort f \<Rightarrow> (Abort f, at i w h)) = (q, h1)"
      using assms False read True own
      by (simp add: check_header_def bnd_run y_def reads_run lift_outcome_run split: outcome.splits)
    have w: "awaiting w = awaiting z" "connected w = connected z" "read_msg w = m" "local_lock w = local_lock z"
      "remote_ep w = remote_ep z \<or> (\<not> connected z \<and> (\<exists>r. rem = Inr r \<and>
        remote_ep w = \<lparr>ip_text = ip_text r, ip_port = packet_port m\<rparr>))"
      "o1 = Ok () \<Longrightarrow> connected z \<or> (\<exists>r. rem = Inr r \<and> remote_ep w = \<lparr>ip_text = ip_text r, ip_port = packet_port m\<rparr>)"
      using own by (auto simp: own_endpoint_run y_def split: if_splits sum.splits)
    show ?thesis
      by (rule that [of w]) (use run w False dec in \<open>auto split: outcome.splits\<close>)
  qed
qed

lemma header_block_keeps:
  assumes "check_header i error rem h0 = (q, h1)" and "I h1"
    and "\<And>epp. q = Ok epp \<Longrightarrow> I (snd (end_header i epp h1))"
    and "preserves I (access i unlock_local)" and "preserves I (access i (reads remote_ep))"
    and "\<And>ep. preserves I (\<lambda>h. case got_disconnected E ep (app h) of (r, n) \<Rightarrow> (r, h\<lparr>app := n\<rparr>))"
    and "preserves I (note_read_over i)" and "preserves I (release i)"
  shows "I (snd (header_block E i error rem h0))"
proof -
  define handler where "handler = thn (access i unlock_local)
       (bnd (access i (reads remote_ep)) (\<lambda>ep.
        thn (\<lambda>h. case got_disconnected E ep (app h) of (r, n) \<Rightarrow> (r, h\<lparr>app := n\<rparr>))
       (thn (note_read_over i) (release i))))"
  have handler: "preserves I handler" unfolding handler_def by (intro preserves_rules assms(4-8))
  have block: "header_block E i error rem = try_std (bnd (check_header i error rem) (end_header i)) (\<lambda>_. handler)"
    by (simp add: header_block_def handler_def)
  show ?thesis
  proof (cases q)
    case (Ok epp)
    then show ?thesis
      using assms(1) assms(3) [OF Ok] preservesD [OF handler] unfolding block
      by (cases "end_header i epp h1") (auto simp: try_std_run bnd_run [of "check_header i error rem"] split: outcome.split exn.split)
  next
    case (Throw e)
    then show ?thesis
      using assms(1,2) preservesD [OF handler assms(2)] unfolding block
      by (auto simp: try_std_run bnd_run [of "check_header i error rem"] split: exn.split)
  next
    case (Abort f)
    then show ?thesis
      using assms(1,2) unfolding block by (simp add: try_std_run bnd_run [of "check_header i error rem"])
  qed
qed

section \<open>The buffer\<close>

text \<open>
  The message a session reads into has the size it was made with, a length its body fits in, and the body
  that is awaited is that long.
\<close>

definition buf_ok :: "peer_session \<Rightarrow> bool" where
  "buf_ok x \<longleftrightarrow> length (packet_data (read_msg x)) = PACKET_SIZE \<and> body_size (read_msg x) \<le> max_body_length \<and>
     (\<forall>n. Await_body n \<in> set (awaiting x) \<longrightarrow> n = body_size (read_msg x))"

interpretation buf: object_frame buf_ok
  by unfold_locales (auto simp: buf_ok_def new_session_def empty_packet_def is_body_def)

lemma decode_header_parts:
  "packet_data (snd (decode_header m)) = packet_data m"
  "body_size m \<le> max_body_length \<Longrightarrow> body_size (snd (decode_header m)) \<le> max_body_length"
  by (auto simp: decode_header_def Let_def split: outcome.split)

lemma fill_at_parts: "body_size (fill_at pos bytes m) = body_size m"
  "pos + length bytes \<le> length (packet_data m) \<Longrightarrow> length (packet_data (fill_at pos bytes m)) = length (packet_data m)"
  by (simp_all add: fill_at_def)

lemma body_fits: "buf_ok x \<Longrightarrow> Await_body n \<in> set (awaiting x) \<Longrightarrow> header_length + n \<le> length (packet_data (read_msg x))"
  by (auto simp: buf_ok_def max_body_length_def PACKET_SIZE_def header_length_def)

lemma buf_header_event:
  assumes "hub_ok h" and "every buf_ok h" and "awaits i (\<lambda>op. op = Await_header) h"
    and "error \<or> length bytes = header_length"
  shows "every buf_ok (snd (thn (done_op i (\<lambda>op. op = Await_header)) (thn (fill_read_msg i 0 error bytes)
      (handle_read_header E i error rem)) h))"
proof -
  obtain x where x: "map_of (live h) i = Some x" "Await_header \<in> set (awaiting x)"
    using awaits_at [OF hub_okD(1) [OF assms(1)] assms(3)] by metis
  have b: "buf_ok x" by (rule everyD [OF assms(2) x(1)])
  have "length (reading x) \<le> 1" using hub_okD(3) [OF assms(1) x(1)] by (simp add: session_ok_def)
  moreover have "Await_header \<in> set (reading x)" using x(2) by (simp add: reading_def)
  ultimately have "reading x = [Await_header]" by (cases "reading x") auto
  then have none: "Await_body n \<notin> set (awaiting x)" for n
  proof -
    have "Await_body n \<notin> set (reading x)" by (simp add: \<open>reading x = [Await_header]\<close>)
    then show ?thesis by (simp add: reading_def)
  qed
  define m0 where "m0 = (if error then read_msg x else fill_at 0 bytes (read_msg x))"
  define z where "z = x\<lparr>awaiting := filter (\<lambda>op. op \<noteq> Await_header) (awaiting x), read_msg := m0, local_lock := True,
    ref_count := ref_count x - 1\<rparr>"
  have m0: "length (packet_data m0) = PACKET_SIZE" "body_size m0 \<le> max_body_length"
    using b assms(4) fill_at_parts [of 0 bytes "read_msg x"]
    by (auto simp: m0_def buf_ok_def header_length_def PACKET_SIZE_def)
  obtain q h1 where c: "check_header i error rem (at i z h) = (q, h1)" by fastforce
  obtain z1 where z1: "h1 = at i z1 h" "awaiting z1 = awaiting z"
    "read_msg z1 = read_msg z \<or> (\<not> error \<and> read_msg z1 = snd (decode_header (read_msg z)))"
    using check_header_peer [OF c] by metis
  have "buf_ok z1"
    using z1(2,3) m0 none decode_header_parts [of m0] by (auto simp: buf_ok_def z_def)
  then have e1: "every buf_ok (at i z1 h)" by (rule every_at [OF assms(2)])
  have good: "every buf_ok (snd (end_header i epp (at i z1 h)))" for epp
  proof -
    have body: "preserves buf_ok (thn (add_ref 1) (bnd (reads (\<lambda>x. body_size (read_msg x))) (\<lambda>n. await (Await_body n))))"
      by (rule preservesI) (auto simp: cpp_simps add_ref_def await_def buf_ok_def)
    have "preserves (every buf_ok) (end_header i epp)"
      unfolding end_header_def by (intro preserves_rules buf.every_hub buf.every_access body buf.J_locks)
    from preservesD [OF this e1] show ?thesis .
  qed
  have "every buf_ok (snd (header_block E i error rem (at i z h)))"
    by (rule header_block_keeps [OF c [unfolded z1(1)] e1 good])
      (intro buf.every_hub buf.every_sends buf.every_access buf.J_locks preserves_rules)+
  then show ?thesis unfolding header_event_block [OF assms(1) x(1)] z_def m0_def .
qed

lemma buf_body_event:
  assumes "hub_ok h" and "every buf_ok h" and "awaits i (\<lambda>op. is_body op \<and> (error \<or> op = Await_body (length bytes))) h"
  shows "every buf_ok (snd (thn (done_op i is_body) (thn (fill_read_msg i header_length error bytes)
      (handle_read_body E i error)) h))"
proof -
  obtain x op where x: "h = at i x h" "map_of (live h) i = Some x" "op \<in> set (awaiting x)" "is_body op"
    "error \<or> op = Await_body (length bytes)"
    using awaits_at [OF hub_okD(1) [OF assms(1)] assms(3)] by metis
  have b: "buf_ok x" by (rule everyD [OF assms(2) x(2)])
  define m0 where "m0 = (if error then read_msg x else fill_at header_length bytes (read_msg x))"
  define y where "y = x\<lparr>awaiting := filter (\<lambda>op. \<not> is_body op) (awaiting x), read_msg := m0\<rparr>"
  have "buf_ok y"
    using b x(3,5) body_fits [OF b, of "length bytes"] fill_at_parts [of header_length bytes "read_msg x"]
    by (auto simp: buf_ok_def y_def m0_def)
  then have y: "every buf_ok (at i y h)" by (rule every_at [OF assms(2)])
  have "done_op i is_body h = (Ok (), at i (x\<lparr>awaiting := filter (\<lambda>op. \<not> is_body op) (awaiting x)\<rparr>) h)"
    using done_op_at [of i is_body x h] x(1) [symmetric] by simp
  moreover have "fill_read_msg i header_length error bytes (at i (x\<lparr>awaiting := filter (\<lambda>op. \<not> is_body op) (awaiting x)\<rparr>) h) =
      (Ok (), at i y h)"
    by (cases x) (simp add: fill_read_msg_def when_run on_read_msg_def on_part_run writes_run m0_def y_def)
  ultimately have run: "thn (done_op i is_body) (thn (fill_read_msg i header_length error bytes)
      (handle_read_body E i error)) h = handle_read_body E i error (at i y h)"
    by (simp only: bnd_run [of "done_op i p" for p] bnd_run [of "fill_read_msg i a b c" for a b c] prod.case outcome.case)
  show ?thesis unfolding run by (rule preservesD [OF buf.every_handle_read_body y])
qed

lemma buf_event:
  assumes "hub_ok h" and "every buf_ok h"
  shows "every buf_ok (snd (handle_event E ev h))"
proof (cases ev)
  case (Accepted error rem)
  then show ?thesis
    using assms(2) preservesD [OF buf.every_handlers(2)] by (auto split: option.split)
next
  case (Send uep msg)
  then show ?thesis using preservesD [OF buf.every_sends(1) assms(2)] by simp
next
  case (Connect_done i error rem)
  have "preserves (every buf_ok) (thn (done_op i (\<lambda>op. op = Await_connect)) (handle_connect i error rem))"
    by (intro preserves_rules buf.every_sends buf.every_handlers)
  from preservesD [OF this assms(2)] Connect_done assms(2) show ?thesis by simp
next
  case (Header_done i error bytes rem)
  then show ?thesis using assms(2) buf_header_event [OF assms] by simp
next
  case (Body_done i error bytes)
  then show ?thesis using assms(2) buf_body_event [OF assms] by simp
next
  case (Write_done i error)
  have "preserves (every buf_ok) (thn (done_op i is_write) (handle_write i error))"
    by (intro preserves_rules buf.every_sends buf.every_handlers)
  from preservesD [OF this assms(2)] Write_done assms(2) show ?thesis by simp
qed

lemma fresh_buf: "every buf_ok (fresh_hub n)"
proof -
  have "every buf_ok \<lparr>live = [], session_map = [], acceptor = None, next_object = 0, orphans = [], app = n\<rparr>"
    by (simp add: every_def)
  from preservesD [OF buf.every_sends(5) this] show ?thesis by (simp add: fresh_hub_def)
qed

lemma hub_reach_buf: "hub_reach E h \<Longrightarrow> every buf_ok h"
proof (induction rule: hub_reach.induct)
  case (event h ev r h')
  then show ?case using buf_event [OF hub_reach_ok] by (metis snd_conv)
qed (rule fresh_buf)

section \<open>The reads\<close>

lemma decode_filled_header:
  assumes "length bytes = header_length"
  shows "\<exists>ok r. decode_header (fill_at 0 bytes m) = (Ok ok, r) \<and> header_length + body_size r \<le> PACKET_SIZE \<and>
    (\<not> ok \<longrightarrow> body_size r = 0)"
proof -
  have max: "header_length + max_body_length = PACKET_SIZE"
    by (simp add: max_body_length_def header_length_def PACKET_SIZE_def)
  have "packet_data (fill_at 0 bytes m) = map Some bytes @ drop (length bytes) (packet_data m)"
    by (simp add: fill_at_def)
  from decode_header_bytes [OF this] assms max show ?thesis by force
qed

lemma filled_body:
  assumes "header_length \<le> length (packet_data m)" and "body_size m = length bytes"
  shows "packet_body (fill_at header_length bytes m) = map Some bytes"
  using assms by (simp add: packet_body_def fill_at_def min_absorb2)

text \<open>
  C30 (reads stay in the buffer): the message a session of a running node reads into always has the size
  of its array, and a body is awaited only as long as the header announced and only when it fits behind
  the header. Whatever 16 bytes a peer sends next, decoding them returns and sets a length that fits; a
  length out of range, negative ones included, is refused and read as 0. A body that arrives is then
  what the node is given, byte for byte.
\<close>

theorem reads_stay_in_the_buffer:
  assumes "hub_reach E h" and "map_of (live h) i = Some x"
  shows "length (packet_data (read_msg x)) = PACKET_SIZE \<and>
    (\<forall>n. Await_body n \<in> set (awaiting x) \<longrightarrow> n = body_size (read_msg x) \<and> header_length + n \<le> PACKET_SIZE) \<and>
    (\<forall>bytes. length bytes = header_length \<longrightarrow>
      (\<exists>ok r. decode_header (fill_at 0 bytes (read_msg x)) = (Ok ok, r) \<and>
        header_length + body_size r \<le> PACKET_SIZE \<and> (\<not> ok \<longrightarrow> body_size r = 0))) \<and>
    (\<forall>bytes. Await_body (length bytes) \<in> set (awaiting x) \<longrightarrow>
      packet_body (fill_at header_length bytes (read_msg x)) = map Some bytes)"
proof -
  have x: "buf_ok x" by (rule everyD [OF hub_reach_buf [OF assms(1)] assms(2)])
  have "header_length \<le> length (packet_data (read_msg x))"
    using x by (simp add: buf_ok_def header_length_def PACKET_SIZE_def)
  then have "packet_body (fill_at header_length bytes (read_msg x)) = map Some bytes"
    if "Await_body (length bytes) \<in> set (awaiting x)" for bytes
    by (rule filled_body) (use x that in \<open>auto simp: buf_ok_def\<close>)
  moreover have "n = body_size (read_msg x) \<and> header_length + n \<le> PACKET_SIZE"
    if "Await_body n \<in> set (awaiting x)" for n
    using x that body_fits [OF x that] by (simp add: buf_ok_def)
  ultimately show ?thesis using x decode_filled_header by (simp add: buf_ok_def)
qed

theorem reads_stay_in_the_buffer_witness:
  "\<exists>h x ok r. hub_reach demo_env h \<and> map_of (live h) 0 = Some x \<and>
     decode_header (fill_at 0 ''      -1      80'' (read_msg x)) = (Ok ok, r) \<and>
     header_length + body_size r \<le> PACKET_SIZE"
proof -
  obtain x h where h: "hub_reach demo_env h" "map_of (live h) 0 = Some x" by (rule demo_connected)
  have "length ''      -1      80'' = header_length" by (simp add: header_length_def)
  with reads_stay_in_the_buffer [OF h] h show ?thesis by blast
qed

end
