(* ===== verification/System.thy ===== *)
theory System
  imports Node_Sender Node_Provenance Session_Buffer
begin

text \<open>
  The node and its sessions together: the callbacks of the sessions are the handlers of the node, and
  what the node sends goes to the sessions of the map.
\<close>

section \<open>The callbacks\<close>

text \<open>
  \<open>std::string(msg.body(), msg.body_length())\<close>: undefined where the packet has no such bytes.
\<close>

definition packet_text :: "packet \<Rightarrow> string outcome" where
  "packet_text m = (let b = packet_body m
     in if length b < body_size m \<or> None \<in> set b then Abort Undefined_behaviour else Ok (map the b))"

text \<open>
  The map of the node is that of the hub: in the state of the node it is empty, so that what the node
  sends is a new session and a packet for it, each time, and the hub looks the session up.
\<close>

fun sends_of :: "net_event list \<Rightarrow> (tcp_endpoint \<times> packet) list" where
  "sends_of (Connect i uep # Deliver j msg # es) = (uep, msg) # sends_of es"
| "sends_of _ = []"

definition run_node :: "(node, 'a) cpp \<Rightarrow> node \<Rightarrow> 'a outcome \<times> node \<times> (tcp_endpoint \<times> packet) list" where
  "run_node m s = (case m (s\<lparr>sessions := [], outbox := []\<rparr>) of (r, s') \<Rightarrow> (r, s', sends_of (outbox s')))"

definition node_env :: "platform \<Rightarrow> node hub_env" where
  "node_env P = \<lparr>
     got_message = (\<lambda>ep m. run_node (bnd (lift_outcome (packet_text m)) (\<lambda>body. handle_receive P ep body))),
     got_disconnected = (\<lambda>ep s. handle_disconnect P ep s)\<rparr>"

section \<open>What the node does by itself\<close>

text \<open>The calls of the user, and the parts of the periodic task between which it gives up the lock.\<close>

datatype node_call =
    Call_store key_text data_item_proto
  | Call_find_node key_text
  | Call_find_value key_text "nat option" string
  | Call_ping_endpoint endpoint_proto token
  | Call_ping_key key_text token
  | Call_set_max nat
  | Periodic_contacts
  | Periodic_diversify
  | Periodic_record int data_item_header
  | Periodic_rearm

fun run_call :: "platform \<Rightarrow> node_call \<Rightarrow> (node, unit) cpp" where
  "run_call P (Call_store k d) = iterativeStore P k d"
| "run_call P (Call_find_node k) = iterativeFindNode P k"
| "run_call P (Call_find_value k c hnt) = iterativeFindValue P k c hnt"
| "run_call P (Call_ping_endpoint e t) = send_PING_to_endpoint P e t"
| "run_call P (Call_ping_key k t) = send_PING_to_key P k t"
| "run_call P (Call_set_max v) = set_max_record v"
| "run_call P Periodic_contacts = periodic_contacts P"
| "run_call P Periodic_diversify = periodic_diversify P"
| "run_call P (Periodic_record now dh) = clean_record P now dh"
| "run_call P Periodic_rearm = periodic_rearm P"

definition send_all :: "(tcp_endpoint \<times> packet) list \<Rightarrow> ('n hub, unit) cpp" where
  "send_all out = for_each (\<lambda>(uep, msg). hub_send uep msg) out"

definition node_acts :: "platform \<Rightarrow> node_call \<Rightarrow> (node hub, unit) cpp" where
  "node_acts P c = (\<lambda>h. case run_node (run_call P c) (app h) of
     (r, s, out) \<Rightarrow> thn (send_all out) (lift_outcome r) (h\<lparr>app := s\<rparr>))"

text \<open>
  The system starts with a node whose constructor has returned, its session for the first peer, and the
  pings to the contacts of the backup; then the node acts or the network does, as long as nothing is
  undefined, a failed assertion or a deadlock.
\<close>

definition network_event :: "hub_event \<Rightarrow> bool" where
  "network_event ev \<longleftrightarrow> (\<forall>uep msg. ev \<noteq> Send uep msg)"

inductive system_reach :: "platform \<Rightarrow> node hub \<Rightarrow> bool" for P where
  boot: "start_node P k path p mx = (Ok (), s) \<Longrightarrow>
    send_all (sends_of (outbox s)) (fresh_hub s) = (r, h) \<Longrightarrow> (\<forall>f. r \<noteq> Abort f) \<Longrightarrow> system_reach P h"
| network: "system_reach P h \<Longrightarrow> network_event ev \<Longrightarrow> handle_event (node_env P) ev h = (r, h') \<Longrightarrow>
    (\<forall>f. r \<noteq> Abort f) \<Longrightarrow> system_reach P h'"
| own: "system_reach P h \<Longrightarrow> node_acts P c h = (r, h') \<Longrightarrow> (\<forall>f. r \<noteq> Abort f) \<Longrightarrow> system_reach P h'"

section \<open>Statements about the node\<close>

text \<open>Whatever the callbacks keep of the node, events keep.\<close>

named_theorems app_rules "computations on the hub that leave the node to the callbacks"

abbreviation of_app :: "('n \<Rightarrow> bool) \<Rightarrow> 'n hub \<Rightarrow> bool" where
  "of_app I \<equiv> \<lambda>h. I (app h)"

lemma app_access [app_rules]: "preserves (of_app I) (access i m)"
  by (rule preservesI) (auto simp: access_def split: option.split prod.split)

lemma app_hub [app_rules]:
  "preserves (of_app I) (register i e)" "preserves (of_app I) (delete_object i)" "preserves (of_app I) make_session"
  "preserves (of_app I) (erase_endpoint ep)" "preserves (of_app I) (writes (\<lambda>h. h\<lparr>acceptor := a\<rparr>))"
proof -
  show "preserves (of_app I) (register i e)"
    unfolding register_def by (rule preserves_writes) (simp split: option.split)
  show "preserves (of_app I) (erase_endpoint ep)"
    unfolding erase_endpoint_def by (intro preserves_rules preserves_writes) simp
  show "preserves (of_app I) (writes (\<lambda>h. h\<lparr>acceptor := a\<rparr>))" by (rule preserves_writes) simp
qed (auto intro!: preservesI simp: delete_object_def make_session_def split: option.split)

lemma app_sessions [app_rules]:
  "preserves (of_app I) (release i)" "preserves (of_app I) (note_read_over i)" "preserves (of_app I) (hub_send uep msg)"
  "preserves (of_app I) (handle_connect i error rem)" "preserves (of_app I) (handle_write i error)"
  "preserves (of_app I) (handle_accept i error rem)" "preserves (of_app I) (done_op i p)"
  "preserves (of_app I) (fill_read_msg i pos error bytes)" "preserves (of_app I) start_accept"
proof -
  show rel: "preserves (of_app I) (release i)" for i
    unfolding release_def by (intro app_rules preserves_rules)
  show note_over: "preserves (of_app I) (note_read_over i)" for i
    unfolding note_read_over_def by (intro app_rules)
  show acc: "preserves (of_app I) start_accept" unfolding start_accept_def by (intro app_rules preserves_rules)
  show "preserves (of_app I) (hub_send uep msg)"
    unfolding hub_send_def by (intro app_rules preserves_rules) (auto split: option.split intro!: app_rules preserves_rules)
  show "preserves (of_app I) (handle_connect i error rem)" "preserves (of_app I) (handle_write i error)"
    "preserves (of_app I) (handle_accept i error rem)" "preserves (of_app I) (done_op i p)"
    "preserves (of_app I) (fill_read_msg i pos error bytes)"
    unfolding handle_connect_def handle_write_def handle_accept_def done_op_def fill_read_msg_def
    by (intro app_rules preserves_rules rel note_over acc)+
qed

lemma app_send_all [app_rules]: "preserves (of_app I) (send_all out)"
  unfolding send_all_def by (intro preserves_rules) (auto intro: app_rules)

text \<open>Sending does not throw.\<close>

lemma session_no_throw [no_throw_rules]:
  "no_throw lock_local" "no_throw unlock_local" "no_throw (add_ref n)" "no_throw (await op)" "no_throw write_front"
  "no_throw (lift_outcome (copy_packet msg))" "no_throw (lift_outcome (endpoint_to_proto ep))"
proof -
  have "no_throw (add_ref n)" "no_throw (await op)" for n op
    unfolding add_ref_def await_def by (intro no_throw_rules)+
  then show "no_throw (add_ref n)" "no_throw (await op)" .
  show "no_throw write_front"
    by (rule no_throwI) (simp add: write_front_def add_ref_def await_def cpp_simps split: list.split)
  show "no_throw (lift_outcome (copy_packet msg))"
    using copy_packet_outcome [of msg] by (auto intro!: no_throwI simp: lift_outcome_run)
qed (auto intro!: no_throwI simp: lock_local_def unlock_local_def lift_outcome_run endpoint_to_proto_def Let_def split: if_splits)

lemma scoped_no_throw [no_throw_rules]:
  assumes "no_throw m"
  shows "no_throw (scoped_local m)"
proof -
  have "no_throw (\<lambda>x. case m x of (Ok a, x') \<Rightarrow> thn unlock_local (ret a) x'
     | (Throw e, x') \<Rightarrow> thn unlock_local (throw_exn e) x' | (Abort f, x') \<Rightarrow> (Abort f, x'))"
  proof (rule no_throwI)
    fix x e
    show "fst (case m x of (Ok a, x') \<Rightarrow> thn unlock_local (ret a) x'
       | (Throw e, x') \<Rightarrow> thn unlock_local (throw_exn e) x' | (Abort f, x') \<Rightarrow> (Abort f, x')) \<noteq> Throw e"
      using no_throwD [OF assms, of x]
      by (cases "m x") (auto simp: bnd_run unlock_local_def ret_run split: outcome.split)
  qed
  then show ?thesis unfolding scoped_local_def by (intro no_throw_rules)
qed

lemma access_no_throw [no_throw_rules]: "no_throw m \<Longrightarrow> no_throw (access i m)"
  by (rule no_throwI) (auto simp: access_def split: option.split prod.split dest: no_throwD [where m = m], metis no_throwD fst_conv)

lemma send_no_throw [no_throw_rules]: "no_throw (hub_send uep msg)" "no_throw (send_all out)"
proof -
  have "no_throw (deliver msg)" "no_throw (connect ep)" for msg ep
    unfolding deliver_def connect_def by (intro no_throw_rules)+
  moreover have "no_throw make_session" by (rule no_throwI) (simp add: make_session_def)
  ultimately show "no_throw (hub_send uep msg)" for uep msg
    unfolding hub_send_def by (intro no_throw_rules) (auto split: option.split intro!: no_throw_rules)
  then show "no_throw (send_all out)"
    unfolding send_all_def by (intro no_throw_rules) (auto split: prod.split)
qed

text \<open>
  A node whose callbacks keep a statement about it, unless they end in a fault: what an event must be
  shown to keep, once and for all.
\<close>

locale app_invariant =
  fixes E :: "'n hub_env" and I :: "'n \<Rightarrow> bool"
  assumes I_message: "I s \<Longrightarrow> got_message E ep m s = (r, s', out) \<Longrightarrow> (\<And>f. r \<noteq> Abort f) \<Longrightarrow> I s'"
    and I_disconnected: "I s \<Longrightarrow> got_disconnected E ep s = (r, s') \<Longrightarrow> (\<And>f. r \<noteq> Abort f) \<Longrightarrow> I s'"
begin

lemma kept_disconnected:
  "kept (of_app I) (\<lambda>h. case got_disconnected E ep (app h) of (r, n) \<Rightarrow> (r, h\<lparr>app := n\<rparr>))"
proof (rule keptI)
  fix h r h'
  assume I: "I (app h)" and nf: "\<And>f. r \<noteq> Abort f"
    and run: "(case got_disconnected E ep (app h) of (r, n) \<Rightarrow> (r, h\<lparr>app := n\<rparr>)) = (r, h')"
  obtain q n where cb: "got_disconnected E ep (app h) = (q, n)" by fastforce
  with run have "q = r" "h' = h\<lparr>app := n\<rparr>" by simp_all
  with I_disconnected [OF I cb] nf show "I (app h')" by simp
qed

text \<open>The callback for a message, what it sends and its outcome.\<close>

lemma kept_message:
  "kept (of_app I) (bnd (\<lambda>h. case got_message E ep m (app h) of (r, n, out) \<Rightarrow> (Ok (r, out), h\<lparr>app := n\<rparr>))
     (\<lambda>(r, out). thn (for_each (\<lambda>(uep, msg). hub_send uep msg) out) (lift_outcome r)))"
proof (rule keptI)
  fix h q h'
  assume I: "I (app h)" and nf: "\<And>f. q \<noteq> Abort f"
    and run: "bnd (\<lambda>h. case got_message E ep m (app h) of (r, n, out) \<Rightarrow> (Ok (r, out), h\<lparr>app := n\<rparr>))
     (\<lambda>(r, out). thn (for_each (\<lambda>(uep, msg). hub_send uep msg) out) (lift_outcome r)) h = (q, h')"
  obtain r n out where cb: "got_message E ep m (app h) = (r, n, out)" by (cases "got_message E ep m (app h)") auto
  obtain u h1 where send: "send_all out (h\<lparr>app := n\<rparr>) = (u, h1)" by fastforce
  have nt: "u \<noteq> Throw e" for e using no_throwD [OF send_no_throw(2), of out "h\<lparr>app := n\<rparr>"] send by auto
  have "(case u of Ok _ \<Rightarrow> lift_outcome r h1 | Throw e \<Rightarrow> (Throw e, h1) | Abort f \<Rightarrow> (Abort f, h1)) = (q, h')"
    using run cb send by (simp add: bnd_run send_all_def [symmetric])
  note res0 = this
  have res: "q = r \<and> h' = h1"
  proof (cases u)
    case (Ok v)
    with res0 show ?thesis by (simp add: lift_outcome_run)
  next
    case (Throw e)
    with nt [of e] show ?thesis by simp
  next
    case (Abort f)
    with res0 nf [of f] show ?thesis by simp
  qed
  have "I n" by (rule I_message [OF I cb]) (use nf res in blast)
  then have "of_app I (h\<lparr>app := n\<rparr>)" by simp
  from preservesD [where I = "of_app I", OF app_send_all this, of out] show "I (app h')" using send res by simp
qed

lemmas kept_parts = app_rules [THEN kept_preserves] preserves_rules [THEN kept_preserves]

lemma kept_read_header: "kept (of_app I) (handle_read_header E i error rem)"
  unfolding handle_read_header_alt check_header_def end_header_def
  by (intro kept_rules kept_parts kept_disconnected)

lemma kept_read_body: "kept (of_app I) (handle_read_body E i error)"
proof -
  have split: "bnd (\<lambda>h. case got_message E ep m (app h) of (r, n, out) \<Rightarrow> (Ok (r, out), h\<lparr>app := n\<rparr>))
      (\<lambda>(r, out). thn (for_each (\<lambda>(uep, msg). hub_send uep msg) out) (thn (lift_outcome r) k)) =
    thn (bnd (\<lambda>h. case got_message E ep m (app h) of (r, n, out) \<Rightarrow> (Ok (r, out), h\<lparr>app := n\<rparr>))
      (\<lambda>(r, out). thn (for_each (\<lambda>(uep, msg). hub_send uep msg) out) (lift_outcome r))) k" for ep m and k :: "('n hub, unit) cpp"
    unfolding bnd_assoc by (rule arg_cong2 [where f = bnd]) (auto simp: bnd_assoc split: prod.split)
  have inner: "kept (of_app I) (bnd (\<lambda>h. case got_message E ep m (app h) of (r, n, out) \<Rightarrow> (Ok (r, out), h\<lparr>app := n\<rparr>))
      (\<lambda>(r, out). thn (for_each (\<lambda>(uep, msg). hub_send uep msg) out) (thn (lift_outcome r) k)))"
    if "kept (of_app I) k" for ep m and k :: "('n hub, unit) cpp"
    unfolding split by (intro kept_bnd kept_message that)
  have rest: "kept (of_app I) (thn (access i lock_local)
      (thn (access i (thn (add_ref 1) (await Await_header))) (access i unlock_local)))"
    by (intro kept_rules kept_parts)
  have "kept (of_app I) (case em of (ep, m) \<Rightarrow>
       bnd (\<lambda>h. case got_message E ep m (app h) of (r, n, out) \<Rightarrow> (Ok (r, out), h\<lparr>app := n\<rparr>)) (\<lambda>(r, out).
       thn (for_each (\<lambda>(uep, msg). hub_send uep msg) out) (thn (lift_outcome r) (thn (access i lock_local)
      (thn (access i (thn (add_ref 1) (await Await_header))) (access i unlock_local))))))" for em
    using inner [OF rest] by (cases em) simp
  then show ?thesis
    unfolding handle_read_body_def by (intro kept_rules kept_parts)
qed

lemma kept_event: "kept (of_app I) (handle_event E ev)"
proof (cases ev)
  have accept: "kept (of_app I) (handle_accept i error rem)" for i error rem
    by (rule kept_preserves [OF app_sessions(6)])
  case (Accepted error rem)
  then show ?thesis
    using accept by (simp add: kept_def split: option.split)
next
  case (Send uep msg)
  then show ?thesis by (simp add: kept_parts)
next
  case (Connect_done j error rem)
  have "kept (of_app I) (thn (done_op j (\<lambda>op. op = Await_connect)) (handle_connect j error rem))"
    by (intro kept_rules kept_parts)
  with Connect_done show ?thesis by (auto simp: kept_def)
next
  case (Header_done j error bytes rem)
  have "kept (of_app I) (thn (done_op j (\<lambda>op. op = Await_header))
      (thn (fill_read_msg j 0 error bytes) (handle_read_header E j error rem)))"
    by (intro kept_rules kept_parts kept_read_header)
  with Header_done show ?thesis by (auto simp: kept_def)
next
  case (Body_done j error bytes)
  have "kept (of_app I) (thn (done_op j is_body)
      (thn (fill_read_msg j header_length error bytes) (handle_read_body E j error)))"
    by (intro kept_rules kept_parts kept_read_body)
  with Body_done show ?thesis by (auto simp: kept_def)
next
  case (Write_done j error)
  have "kept (of_app I) (thn (done_op j is_write) (handle_write j error))"
    by (intro kept_rules kept_parts)
  with Write_done show ?thesis by (auto simp: kept_def)
qed

end

section \<open>The lock between steps\<close>

lemma kept_run_call: "kept unlocked (run_call P c)"
proof (cases c)
  case (Periodic_record now dh)
  then show ?thesis by (auto simp: clean_record_def Let_def intro: kept_scoped)
qed (auto simp: iterativeStore_def iterativeFindNode_def iterativeFindValue_def send_PING_to_endpoint_def
    send_PING_to_key_def set_max_record_def periodic_contacts_def periodic_diversify_def periodic_rearm_def
    assert_cpp_def assert_key_def
    intro!: kept_scoped kept_try_locked kept_rules kept_preserves [OF preserves_ret] kept_preserves [OF preserves_abort])

context public_frame begin

lemma ok_run_call: "preserves inv (run_call P c)"
  by (cases c) (auto intro: ok_rules ok_periodic_parts)

end

text \<open>Running the node with its own map put aside.\<close>

lemma kept_run_node:
  assumes "kept I m" and "I s" and "\<And>s. I (s\<lparr>sessions := [], outbox := []\<rparr>) = I s"
    and "run_node m s = (r, s', out)" and "\<And>f. r \<noteq> Abort f"
  shows "I s'"
proof -
  obtain q t where m: "m (s\<lparr>sessions := [], outbox := []\<rparr>) = (q, t)" by fastforce
  with assms(4) have "q = r" "t = s'" by (simp_all add: run_node_def)
  with m assms(5) show ?thesis using keptD [OF assms(1), of "s\<lparr>sessions := [], outbox := []\<rparr>" q t] assms(2,3) by simp
qed

lemma own_map_aside [simp]: "node_ok (s\<lparr>sessions := [], outbox := []\<rparr>) = node_ok s"
  by (simp add: node_ok_def)

interpretation alive: app_invariant "node_env P" node_ok for P
proof unfold_locales
  fix s ep m r s' out
  assume s: "node_ok s" and run: "got_message (node_env P) ep m s = (r, s', out)" and nf: "\<And>f. r \<noteq> Abort f"
  have "kept node_ok (bnd (lift_outcome (packet_text m)) (\<lambda>body. handle_receive P ep body))"
    by (intro kept_rules kept_preserves [OF preserves_lift] kept_preserves [OF ok_handle_receive])
  from kept_run_node [OF this s own_map_aside, of r s' out] run nf show "node_ok s'" by (simp add: node_env_def)
next
  fix s ep r s'
  assume "node_ok s" and "got_disconnected (node_env P) ep s = (r, s')"
  then show "node_ok s'" using preservesD [OF own.ok_handle_disconnect, of s P ep] by (simp add: node_env_def)
qed

interpretation free: app_invariant "node_env P" unlocked for P
proof unfold_locales
  fix s ep m r s' out
  assume s: "unlocked s" and run: "got_message (node_env P) ep m s = (r, s', out)" and nf: "\<And>f. r \<noteq> Abort f"
  have "kept unlocked (bnd (lift_outcome (packet_text m)) (\<lambda>body. handle_receive P ep body))"
    unfolding handle_receive_def by (intro kept_rules kept_preserves [OF preserves_lift] kept_scoped)
  from kept_run_node [OF this s _ _ nf, of s' out] run show "unlocked s'" by (simp add: node_env_def)
next
  fix s ep r s'
  assume "unlocked s" and "got_disconnected (node_env P) ep s = (r, s')"
  moreover have "preserves unlocked (handle_disconnect P ep)"
    unfolding handle_disconnect_def on_contacts_def by (intro preserves_rules preserves_on_part) simp
  ultimately show "unlocked s'" using preservesD [of unlocked "handle_disconnect P ep" s] by (simp add: node_env_def)
qed

text \<open>The invariants of the two parts, the buffers of the sessions, and the lock free between steps.\<close>

definition system_ok :: "node hub \<Rightarrow> bool" where
  "system_ok h \<longleftrightarrow> hub_ok h \<and> node_ok (app h) \<and> unlocked (app h) \<and> every buf_ok h"

lemma buf_send_all: "preserves (every buf_ok) (send_all out)"
  unfolding send_all_def by (intro preserves_rules) (auto intro: buf.every_sends)

lemma every_app [simp]: "every J (h\<lparr>app := s\<rparr>) = every J h"
  by (simp add: every_def)

lemma send_all_ok:
  assumes "hub_ok h" and "send_all out h = (r, h')" and "\<And>f. r \<noteq> Abort f"
  shows "r = Ok () \<and> hub_ok h' \<and> app h' = app h"
proof -
  have "app h' = app h" using preservesD [OF app_send_all [where I = "\<lambda>s. s = app h" and out = out], of h] assms(2) by simp
  with hub_sends_keep(1,2) [OF assms(1) assms(2) [unfolded send_all_def] assms(3)] show ?thesis by blast
qed

lemma event_keeps_system:
  assumes "system_ok h" and "handle_event (node_env P) ev h = (r, h')" and "\<And>f. r \<noteq> Abort f"
  shows "system_ok h'"
  using assms(1) buf_event [of h "node_env P" ev] assms(2) hub_event_keeps [OF _ assms(2,3)] keptD [OF alive.kept_event _ assms(2,3)]
    keptD [OF free.kept_event _ assms(2,3)]
  by (simp add: system_ok_def)

lemma call_keeps_system:
  assumes "system_ok h" and "node_acts P c h = (r, h')" and "\<And>f. r \<noteq> Abort f"
  shows "system_ok h'"
proof -
  obtain q s out where run: "run_node (run_call P c) (app h) = (q, s, out)" by (cases "run_node (run_call P c) (app h)") auto
  obtain u h1 where send: "send_all out (h\<lparr>app := s\<rparr>) = (u, h1)" by fastforce
  have all: "(case u of Ok _ \<Rightarrow> lift_outcome q h1 | Throw e \<Rightarrow> (Throw e, h1) | Abort f \<Rightarrow> (Abort f, h1)) = (r, h')"
    using assms(2) run send by (simp add: node_acts_def bnd_run)
  have "u \<noteq> Abort f" for f using all assms(3) [of f] by auto
  moreover have "hub_ok (h\<lparr>app := s\<rparr>)" using assms(1) by (simp add: system_ok_def)
  ultimately have h1: "u = Ok ()" "hub_ok h1" "app h1 = s" using send_all_ok [OF _ send] by auto
  then have res: "q = r" "h1 = h'" using all by (simp_all add: lift_outcome_run)
  have "node_ok s" "unlocked s"
    using kept_run_node [where I = node_ok, OF kept_preserves [OF own.ok_run_call] _ own_map_aside run]
      kept_run_node [where I = unlocked, OF kept_run_call _ _ run] assms(1,3) res(1)
    by (simp_all add: system_ok_def)
  moreover have "every buf_ok h1"
    using preservesD [OF buf_send_all, of "h\<lparr>app := s\<rparr>" out] assms(1) send by (simp add: system_ok_def)
  ultimately show ?thesis using h1 res by (simp add: system_ok_def)
qed

lemma system_reach_ok: "system_reach P h \<Longrightarrow> system_ok h"
proof (induction rule: system_reach.induct)
  case (boot k path p mx s r h)
  have kept: "kept unlocked (bnd (random_below P 120) (\<lambda>r. bnd (update_time P) (\<lambda>now.
      thn (writes (\<lambda>s. s\<lparr>timer := now + seconds (int r)\<rparr>)) (scoped m))))" for m :: "(node, unit) cpp"
    by (intro kept_rules kept_scoped) (auto intro!: kept_preserves preservesI simp: random_below_def update_time_def writes_run)
  have "unlocked s"
    by (rule keptD [where I = unlocked, OF kept _ boot(1) [unfolded start_node_def]]) (simp_all add: new_node_def)
  moreover have "node_ok s" using start_node_ok [of P k path p mx] boot(1) by simp
  moreover have "app (fresh_hub s) = s"
    by (simp add: fresh_hub_def start_accept_def make_session_def bnd_run writes_run)
  moreover have "every buf_ok h"
    using preservesD [OF buf_send_all fresh_buf, of "sends_of (outbox s)" s] boot(2) by simp
  ultimately show ?case
    using send_all_ok [OF fresh_hub_ok boot(2)] boot(3) by (simp add: system_ok_def)
next
  case (network h ev r h')
  then show ?case using event_keeps_system by blast
next
  case (own h c r h')
  then show ?case using call_keeps_system by blast
qed

section \<open>A ping\<close>

text \<open>Adding a contact for whom there is room, with whatever order of evaluation.\<close>

lemma add_contact_known:
  assumes "bucket_ok b" and "k \<noteq> bucket.local_key b" and "good_ep ep"
    and "mm_count (bucket_common b k) (entries b) < BUCKET_SIZE"
  obtains b' i where "add_contact r now k ep b = (Ok (), b')" and "find_key b' k = i" and "i < length (entries b')"
    and "contact_key (snd (entries b' ! i)) = k" and "contact_ep (snd (entries b' ! i)) = ep"
    and "bucket.local_key b' = bucket.local_key b"
proof -
  let ?c = "\<lparr>contact_key = k, contact_ep = ep, contact_time = Some (word_of_int (to_time_t now))\<rparr>"
  obtain b' where b': "add_contact r now k ep b = (Ok (), b')" and c: "?c \<in> snd ` set (entries b')"
  proof (rule add_contact_cases [OF assms(1), of k r now ep])
    fix m assume "add_contact r now k ep b = (Ok (), b\<lparr>now_ := Some now,
        entries := mm_insert (bucket_common b k) ?c m, changed := True\<rparr>)"
    then show thesis by (rule that) (auto simp: image_iff intro!: bexI [of _ "(bucket_common b k, ?c)"])
  next
    fix i assume i: "i < length (entries b)" and "add_contact r now k ep b = (Ok (), b\<lparr>now_ := Some now,
        entries := (entries b)[i := (fst (entries b ! i), ?c)]\<rparr>)"
    note this(2)
    moreover have "(fst (entries b ! i), ?c) \<in> set ((entries b)[i := (fst (entries b ! i), ?c)])"
      using i by (rule set_update_memI)
    ultimately show thesis by (intro that) (auto simp: image_iff intro!: bexI [of _ "(fst (entries b ! i), ?c)"])
  next
    assume "make_room r (bucket_common b k) (entries b) = Abort Undefined_behaviour"
    with assms(4) show thesis by (simp add: make_room_def)
  qed (use assms(2,3) in simp_all)
  have ok: "bucket_ok b'" and own: "bucket.local_key b' = bucket.local_key b"
    using add_contact_preserves [OF assms(1), of r now k ep] add_contact_local_key [OF assms(1), of r now k ep] b' by simp_all
  have "k \<in> keys_of b'" using c by (force simp: keys_of_def)
  then obtain i where i: "find_key b' k = i" "i < length (entries b')" "contact_key (snd (entries b' ! i)) = k"
    by (rule_tac find_key_cases [OF ok, of k]) auto
  have "distinct (map (contact_key \<circ> snd) (entries b'))" using ok by (simp add: bucket_ok_def)
  then have "contact_map_of (entries b') k = Some ?c" "contact_map_of (entries b') k = Some (snd (entries b' ! i))"
    using c i by (auto simp: contact_map_of_iff)
  then have "contact_ep (snd (entries b' ! i)) = ep" by simp
  then show thesis using that b' i own by blast
qed

lemma add_contact_now_run:
  assumes "bucket_ok (contacts s)" and "bucket.local_key (contacts s) \<noteq> k" and "good_ep ep"
    and "mm_count (bucket_common (contacts s) k) (entries (contacts s)) < BUCKET_SIZE"
  obtains b' i where "add_contact_now P k ep s = (Ok (), s\<lparr>clock_reads := Suc (clock_reads s), contacts := b'\<rparr>)"
    and "find_key b' k = i" and "i < length (entries b')" and "contact_ep (snd (entries b' ! i)) = ep"
    and "bucket_at b' k = Ok ep"
proof -
  obtain b' i where b': "add_contact (rhs_first P) (clock_at P (clock_reads s)) k ep (contacts s) = (Ok (), b')"
    "find_key b' k = i" "i < length (entries b')" "contact_ep (snd (entries b' ! i)) = ep"
    by (rule add_contact_known [OF assms(1) _ assms(3,4)]) (use assms(2) in auto)
  have "add_contact_now P k ep s = (Ok (), s\<lparr>clock_reads := Suc (clock_reads s), contacts := b'\<rparr>)"
    using assms(2) b'(1) by (auto simp: add_contact_now_def bnd_run update_time_def on_contacts_def on_part_run)
  moreover have ok: "bucket_ok b'"
    using add_contact_preserves [OF assms(1), of "rhs_first P" "clock_at P (clock_reads s)" k ep] b'(1) by simp
  have "bucket_at b' k = Ok ep" using b'(2-4) by (rule_tac find_key_cases [OF ok, of k]) auto
  ultimately show thesis using that b'(2-4) by blast
qed

definition ping_answer :: "node \<Rightarrow> message_proto \<Rightarrow> message_proto" where
  "ping_answer s m = (new_message REPLY_PING (node_id s) (token_of m))\<lparr>to_id_opt := Some (from_id m)\<rparr>"

text \<open>What a ping makes the node do, with its own map put aside.\<close>

lemma ping_run:
  assumes "node_ok s" and "unlocked s" and "sessions s = []" and "outbox s = []" and "ip_text ep \<noteq> []"
    and "type_of (parse P body) = SEND_PING" and "from_id (parse P body) \<noteq> node_id s"
    and "from_id (parse P body) \<noteq> zero_key_text"
    and "\<And>n. resolve P n (Endpoint (ip_text ep) (show_nat (unat (ip_port ep)))) = Inr ep"
    and "mm_count (bucket_common (contacts s) (from_id (parse P body))) (entries (contacts s)) < BUCKET_SIZE"
    and "message_packet (listen_port s) (serialize P (ping_answer s (parse P body))) = Ok c"
  shows "\<exists>s' j k. handle_receive P ep body s = (Ok (), s') \<and> outbox s' = [Connect j ep, Deliver k c] \<and>
    find_key (contacts s') (from_id (parse P body)) < length (entries (contacts s')) \<and>
    bucket_at (contacts s') (from_id (parse P body)) = Ok (Endpoint (ip_text ep) (show_nat (unat (ip_port ep))))"
proof -
  define m where "m = parse P body"
  define epp where "epp = Endpoint (ip_text ep) (show_nat (unat (ip_port ep)))"
  have epp: "endpoint_to_proto ep = Ok epp" "good_ep epp" "address epp \<noteq> []" "port epp \<noteq> []"
    using assms(5) by (simp_all add: endpoint_to_proto_good epp_def good_ep_def)
  define s1 where "s1 = s\<lparr>giant_lock := True, sender_endpoint := ep\<rparr>"
  have b: "bucket_ok (contacts s1)" "bucket.local_key (contacts s1) = node_id s"
    using assms(1) by (simp_all add: node_ok_def s1_def)
  have own: "bucket.local_key (contacts s1) \<noteq> from_id m" using assms(7) b(2) by (simp add: m_def)
  have room: "mm_count (bucket_common (contacts s1) (from_id m)) (entries (contacts s1)) < BUCKET_SIZE"
    using assms(10) by (simp add: s1_def m_def)
  obtain b' i where enter: "add_contact_now P (from_id m) epp s1 = (Ok (), s1\<lparr>clock_reads := Suc (clock_reads s1), contacts := b'\<rparr>)"
    and b': "find_key b' (from_id m) = i" "i < length (entries b')" "contact_ep (snd (entries b' ! i)) = epp"
      "bucket_at b' (from_id m) = Ok epp"
    by (rule add_contact_now_run [OF b(1) own epp(2) room])
  define s2 where "s2 = s1\<lparr>clock_reads := Suc (clock_reads s1), contacts := b'\<rparr>"
  define s3 where "s3 = s2\<lparr>lookups := Suc (lookups s2), outbox := [Connect (next_session s) ep, Deliver (next_session s) c],
    next_session := Suc (next_session s)\<rparr>"
  have s2: "node_id s2 = node_id s" "sessions s2 = []" "listen_port s2 = listen_port s" "outbox s2 = []"
    "contacts s2 = b'" "next_session s2 = next_session s"
    using assms(3,4) by (simp_all add: s2_def s1_def)
  have send: "send_to P (ping_answer s m) epp s2 = (Ok (), s3)"
    using epp assms(9,11) s2
    by (simp add: send_to_def bnd_run assert_run swallow_def try_std_run proto_to_endpoint_def lift_outcome_run reads_run
        deliver_packet_def emit_def writes_run s3_def m_def epp_def [symmetric])
  have ans: "to_id (ping_answer s m) = from_id m" by (simp add: ping_answer_def to_id_def)
  have "send_message P (ping_answer s m) s2 = (Ok (), s3)"
    using send ans s2 b' assms(7,8)
    by (simp add: send_message_def bnd_run assert_key_def assert_run m_def [symmetric] Let_def)
  then have "handle_message P m s2 = (Ok (), s3)"
    using assms(6,8) s2(1)
    by (simp add: handle_message_def handle_SEND_PING_def reply_PING_def bnd_run assert_key_def assert_run swallow_def
        try_std_run reads_run m_def [symmetric] ping_answer_def)
  then have "handle_message_from P m epp s1 = (Ok (), s3)"
    using assms(6) enter by (simp add: handle_message_from_def is_request_def bnd_run m_def [symmetric] s2_def)
  then have "receive_body P ep body (s\<lparr>giant_lock := True\<rparr>) = (Ok (), s3)"
    using receive_body_run [OF assms(5), of P body "s\<lparr>giant_lock := True\<rparr>"] by (simp add: m_def epp_def s1_def)
  then have "handle_receive P ep body s = (Ok (), s3\<lparr>giant_lock := False\<rparr>)"
    using receive_free_run [of s P ep body] assms(2) by simp
  then show ?thesis
    using b'(1,2,4) by (simp add: s3_def s2_def m_def epp_def)
qed

text \<open>The packets the node makes are copied as they are, and the body of a packet is what was read.\<close>

lemma copy_message_packet:
  assumes "message_packet lp s = Ok c" and "length s \<le> max_body_length"
  shows "copy_packet c = Ok c"
proof -
  have "length s < 10 ^ 8" using assms(2) by (simp add: max_body_length_def PACKET_SIZE_def)
  then have l1: "length (replicate (8 - length (show_nat (length s))) CHR '' '' @ show_nat (length s)) = 8" by (rule print8_small(2))
  have "unat lp < 2 ^ 16" using unsigned_less [of lp] by simp
  then have "unat lp < 10 ^ 8" by simp
  then have l2: "length (replicate (8 - length (show_nat (unat lp))) CHR '' '' @ show_nat (unat lp)) = 8" by (rule print8_small(2))
  have c: "length (packet_data c) = header_length + body_size c" "body_size c \<le> max_body_length"
    using assms(1) l1 l2 assms(2) unfolding message_packet_data [OF assms(2)] by (auto simp: header_length_def)
  then show ?thesis
    by (simp add: copy_packet_def set_body_length_def write_at_def packet_length_def Let_def)
qed

lemma filled_packet_text:
  assumes "body_size m = length bytes" and "header_length \<le> length (packet_data m)"
  shows "packet_text (fill_at header_length bytes m) = Ok bytes"
proof -
  note filled_body [OF assms(2,1)]
  moreover have "body_size (fill_at header_length bytes m) = length bytes" using assms(1) by (simp add: fill_at_def)
  ultimately show ?thesis by (simp add: packet_text_def Let_def comp_def image_iff)
qed

text \<open>
  The end of the read of a body: the node is given the message, what it sends goes to the sessions, and
  the session waits for its next header.
\<close>

definition body_block :: "'n hub_env \<Rightarrow> nat \<Rightarrow> tcp_endpoint \<Rightarrow> packet \<Rightarrow> ('n hub, unit) cpp" where
  "body_block E i ep m =
     bnd (\<lambda>h. case got_message E ep m (app h) of (r, n, out) \<Rightarrow> (Ok (r, out), h\<lparr>app := n\<rparr>)) (\<lambda>(r, out).
       thn (for_each (\<lambda>(uep, msg). hub_send uep msg) out)
      (thn (lift_outcome r)
      (thn (access i lock_local)
      (thn (access i (thn (add_ref 1) (await Await_header)))
           (access i unlock_local)))))"

lemma body_event_block:
  assumes "\<not> local_lock x" and "Await_body (length bytes) \<in> set (awaiting x)"
    and "x1 = x\<lparr>awaiting := filter (\<lambda>op. \<not> is_body op) (awaiting x), ref_count := ref_count x - 1,
      read_msg := fill_at header_length bytes (read_msg x)\<rparr>"
  shows "handle_event E (Body_done i False bytes) (at i x h) =
    body_block E i (remote_ep x) (fill_at header_length bytes (read_msg x)) (at i x1 h)"
proof -
  have aw: "awaits i (\<lambda>op. is_body op \<and> (False \<or> op = Await_body (length bytes))) (at i x h)"
    using assms(2) by (auto simp: awaits_def is_body_def)
  have "handle_event E (Body_done i False bytes) (at i x h) = handle_read_body E i False
      (at i (x1\<lparr>ref_count := ref_count x\<rparr>) h)"
    using aw by (cases x) (simp add: done_op_at bnd_run fill_read_msg_def when_run on_read_msg_def on_part_run writes_run assms(3))
  moreover have enter: "access i (thn lock_local (add_ref (- 1))) (at i (x1\<lparr>ref_count := ref_count x\<rparr>) h) =
      (Ok (), at i (x1\<lparr>local_lock := True\<rparr>) h)"
    using assms(1) by (cases x) (simp add: assms(3) bnd_run lock_local_def add_ref_def writes_run)
  have leave: "access i unlock_local (at i (x1\<lparr>local_lock := True\<rparr>) h) = (Ok (), at i x1 h)"
    using assms(1) by (cases x) (simp add: assms(3) unlock_local_def)
  have rd: "access i (reads (\<lambda>x. (remote_ep x, read_msg x))) (at i x1 h) =
      (Ok (remote_ep x, fill_at header_length bytes (read_msg x)), at i x1 h)"
    by (simp add: reads_run assms(3))
  have "handle_read_body E i False (at i (x1\<lparr>ref_count := ref_count x\<rparr>) h) =
      body_block E i (remote_ep x) (fill_at header_length bytes (read_msg x)) (at i x1 h)"
    unfolding handle_read_body_def body_block_def
    by (simp only: bnd_run [of "access i m" for m] enter leave rd prod.case outcome.case if_True not_False_eq_True)
  ultimately show ?thesis by simp
qed

lemma body_run:
  assumes "\<not> local_lock x" and "Await_body (length bytes) \<in> set (awaiting x)"
    and "got_message E (remote_ep x) (fill_at header_length bytes (read_msg x)) (app h) = (Ok (), s, out)"
    and "x1 = x\<lparr>awaiting := filter (\<lambda>op. \<not> is_body op) (awaiting x), ref_count := ref_count x - 1,
      read_msg := fill_at header_length bytes (read_msg x)\<rparr>"
    and "for_each (\<lambda>(uep, msg). hub_send uep msg) out (at i x1 (h\<lparr>app := s\<rparr>)) = (Ok (), at i y h1)" and "\<not> local_lock y"
  shows "handle_event E (Body_done i False bytes) (at i x h) =
    (Ok (), at i (y\<lparr>ref_count := ref_count y + 1, awaiting := awaiting y @ [Await_header]\<rparr>) h1)"
proof -
  have resume: "thn (access i lock_local) (thn (access i (thn (add_ref 1) (await Await_header))) (access i unlock_local))
      (at i y h1) = (Ok (), at i (y\<lparr>ref_count := ref_count y + 1, awaiting := awaiting y @ [Await_header]\<rparr>) h1)"
    using assms(6) by (cases y) (simp add: bnd_run lock_local_def add_ref_def await_def writes_run unlock_local_def)
  show ?thesis
    unfolding body_event_block [OF assms(1,2,4)] body_block_def
    by (simp add: bnd_run [of "\<lambda>h. case got_message E ep m (app h) of (r, n, out) \<Rightarrow> (Ok (r, out), h\<lparr>app := n\<rparr>)" for ep m]
        assms(3) bnd_run [of "for_each f es" for f es] assms(5)
        bnd_run [of "lift_outcome r" for r] lift_outcome_run resume del: access_at for_each.simps)
qed

text \<open>The node answers with one packet to the same peer.\<close>

lemma answered_body_run:
  assumes "session_ok x" and "Await_body (length bytes) \<in> set (awaiting x)"
    and "got_message E (remote_ep x) (fill_at header_length bytes (read_msg x)) (app h) = (Ok (), s, [(remote_ep x, c)])"
    and "endpoint_to_proto (remote_ep x) = Ok epp" and "map_of (session_map h) epp = Some i"
    and "copy_packet c = Ok c"
  shows "\<exists>y. handle_event E (Body_done i False bytes) (at i x h) = (Ok (), at i y (h\<lparr>app := s\<rparr>)) \<and>
    packet_log y = packet_log x @ [c] \<and> Await_header \<in> set (awaiting y)"
proof -
  have free: "\<not> local_lock x" using assms(1) by (simp add: session_ok_def)
  define x1 where "x1 = x\<lparr>awaiting := filter (\<lambda>op. \<not> is_body op) (awaiting x), ref_count := ref_count x - 1,
      read_msg := fill_at header_length bytes (read_msg x)\<rparr>"
  have x1: "\<not> local_lock x1" "write_msgs x1 = write_msgs x" "written x1 = written x"
    using free by (simp_all add: x1_def)
  define y1 where "y1 = snd (deliver c x1)"
  have y1: "deliver c x1 = (Ok (), y1)" "\<not> local_lock y1" "packet_log y1 = packet_log x @ [c]"
    using deliver_run [OF x1(1) assms(6)] x1 by (simp_all add: y1_def packet_log_def)
  have "hub_send (remote_ep x) c (at i x1 (h\<lparr>app := s\<rparr>)) = (Ok (), at i y1 (h\<lparr>app := s\<rparr>))"
    using assms(4,5) y1(1) by (simp add: hub_send_def bnd_run lift_outcome_run reads_run)
  then have "for_each (\<lambda>(uep, msg). hub_send uep msg) [(remote_ep x, c)] (at i x1 (h\<lparr>app := s\<rparr>)) = (Ok (), at i y1 (h\<lparr>app := s\<rparr>))"
    by (simp add: bnd_run ret_run)
  from body_run [OF free assms(2,3) x1_def this y1(2)] y1(3) show ?thesis by (auto simp: packet_log_def)
qed

text \<open>A ping that has been read is answered.\<close>

lemma ping_answered_run:
  assumes "system_ok h" and "map_of (live h) i = Some x" and "Await_body (length bytes) \<in> set (awaiting x)"
    and "ip_text (remote_ep x) \<noteq> []"
    and "epp = Endpoint (ip_text (remote_ep x)) (show_nat (unat (ip_port (remote_ep x))))"
    and "map_of (session_map h) epp = Some i" and "\<And>n. resolve P n epp = Inr (remote_ep x)"
    and "type_of (parse P bytes) = SEND_PING" and "from_id (parse P bytes) \<noteq> node_id (app h)"
    and "from_id (parse P bytes) \<noteq> zero_key_text"
    and "mm_count (bucket_common (contacts (app h)) (from_id (parse P bytes))) (entries (contacts (app h))) < BUCKET_SIZE"
    and "length (serialize P (ping_answer (app h) (parse P bytes))) \<le> max_body_length"
  shows "\<exists>h' y c. handle_event (node_env P) (Body_done i False bytes) h = (Ok (), h') \<and>
    map_of (live h') i = Some y \<and> Await_header \<in> set (awaiting y) \<and> packet_log y = packet_log x @ [c] \<and>
    message_packet (listen_port (app h)) (serialize P (ping_answer (app h) (parse P bytes))) = Ok c \<and>
    bucket_at (contacts (app h')) (from_id (parse P bytes)) = Ok epp"
proof -
  define s where "s = (app h)\<lparr>sessions := [], outbox := []\<rparr>"
  have ok: "hub_ok h" "node_ok s" "unlocked s" using assms(1) by (simp_all add: system_ok_def s_def)
  have buf: "buf_ok x" using assms(1) everyD [OF _ assms(2)] by (auto simp: system_ok_def)
  have x: "session_ok x" using hub_okD(3) [OF ok(1) assms(2)] by simp
  obtain c where c: "message_packet (listen_port (app h)) (serialize P (ping_answer (app h) (parse P bytes))) = Ok c"
    using message_packet_data [OF assms(12)] by blast
  have same: "ping_answer s m = ping_answer (app h) m" for m by (simp add: ping_answer_def s_def)
  obtain s' j k where s': "handle_receive P (remote_ep x) bytes s = (Ok (), s')"
    "outbox s' = [Connect j (remote_ep x), Deliver k c]" "bucket_at (contacts s') (from_id (parse P bytes)) = Ok epp"
    using ping_run [OF ok(2,3) _ _ assms(4,8) _ assms(10), where c = c] assms(5,7,9,11) c same by (auto simp: s_def)
  have body: "packet_text (fill_at header_length bytes (read_msg x)) = Ok bytes"
    by (rule filled_packet_text) (use buf assms(3) in \<open>auto simp: buf_ok_def PACKET_SIZE_def header_length_def\<close>)
  have got: "got_message (node_env P) (remote_ep x) (fill_at header_length bytes (read_msg x)) (app h) =
      (Ok (), s', [(remote_ep x, c)])"
    using body s'(1,2) by (simp add: node_env_def run_node_def bnd_run lift_outcome_run s_def)
  have epp: "endpoint_to_proto (remote_ep x) = Ok epp" using assms(4,5) by (simp add: endpoint_to_proto_good)
  note run = answered_body_run [OF x assms(3) got epp assms(6) copy_message_packet [OF c assms(12)]]
  then obtain y where "handle_event (node_env P) (Body_done i False bytes) (at i x h) = (Ok (), at i y (h\<lparr>app := s'\<rparr>))"
    "packet_log y = packet_log x @ [c]" "Await_header \<in> set (awaiting y)" by blast
  moreover have "at i x h = h" by (rule at_same [OF hub_okD(1) [OF ok(1)] assms(2), symmetric])
  ultimately show ?thesis
    using c s'(3) by (intro exI [of _ "at i y (h\<lparr>app := s'\<rparr>)"] exI [of _ y] exI [of _ c]) simp
qed

section \<open>Properties\<close>

text \<open>
  C3 (the parts stay in order together): from the constructor on, whatever the peers, the network, the
  user and the periodic task do, as long as nothing is undefined the contact table and the searches of
  the node are well-formed, and the lock of the node is free between steps, so that no handler ever waits
  for it for ever.  A session is deleted only when it awaits nothing; until then its lock is free, its count
  of references is that of its operations, plus one of its own that the first of its two sides to fail gives
  up, and it awaits at most one read and at most one write, which is that of the first packet in its queue.
\<close>

theorem system_stays_in_order:
  assumes "system_reach P h"
  shows "node_ok (app h) \<and> \<not> giant_lock (app h) \<and> orphans h = [] \<and>
    (\<forall>i x. map_of (live h) i = Some x \<longrightarrow> session_ok x)"
proof -
  have "hub_ok h" "node_ok (app h)" "unlocked (app h)"
    using system_reach_ok [OF assms] by (simp_all add: system_ok_def)
  with hub_okD(2,3) [OF \<open>hub_ok h\<close>] show ?thesis by blast
qed

lemma demo_system: "system_reach demo_platform (fresh_hub demo_start)"
proof -
  have "start_node demo_platform 1 [] 80 10 = (Ok (), demo_start)"
    using demo_start_runs by (simp add: demo_start_def prod_eq_iff)
  moreover have "send_all (sends_of (outbox demo_start)) (fresh_hub demo_start) = (Ok (), fresh_hub demo_start)"
    by (simp add: demo_start_state send_all_def ret_run)
  ultimately show ?thesis by (rule system_reach.boot) simp
qed

theorem system_stays_in_order_witness:
  "node_ok (app (fresh_hub demo_start)) \<and> orphans (fresh_hub demo_start) = []"
  using system_stays_in_order [OF demo_system] by simp

text \<open>
  C5 (a ping is answered): when the body of a ping from a peer that is not the node itself has been read,
  and there is room for the peer in its bucket, the peer is in the contact table with the endpoint of its
  session, the answer with the token of the ping is the last packet of that session, and the session
  waits for its next header.
\<close>

theorem ping_is_answered:
  assumes "system_reach P h" and "map_of (live h) i = Some x" and "Await_body (length bytes) \<in> set (awaiting x)"
    and "ip_text (remote_ep x) \<noteq> []"
    and "epp = Endpoint (ip_text (remote_ep x)) (show_nat (unat (ip_port (remote_ep x))))"
    and "map_of (session_map h) epp = Some i" and "\<And>n. resolve P n epp = Inr (remote_ep x)"
    and "type_of (parse P bytes) = SEND_PING" and "from_id (parse P bytes) \<noteq> node_id (app h)"
    and "from_id (parse P bytes) \<noteq> zero_key_text"
    and "mm_count (bucket_common (contacts (app h)) (from_id (parse P bytes))) (entries (contacts (app h))) < BUCKET_SIZE"
    and "length (serialize P (ping_answer (app h) (parse P bytes))) \<le> max_body_length"
  shows "\<exists>h' y c. handle_event (node_env P) (Body_done i False bytes) h = (Ok (), h') \<and>
    map_of (live h') i = Some y \<and> Await_header \<in> set (awaiting y) \<and> packet_log y = packet_log x @ [c] \<and>
    message_packet (listen_port (app h)) (serialize P (ping_answer (app h) (parse P bytes))) = Ok c \<and>
    bucket_at (contacts (app h')) (from_id (parse P bytes)) = Ok epp"
  by (rule ping_answered_run [OF system_reach_ok [OF assms(1)] assms(2-12)])

text \<open>A peer has connected and its header announces the four bytes of a ping.\<close>

lemma demo_accepted:
  obtains x h where "system_reach demo_platform h" and "map_of (live h) 0 = Some x" and "waits_for_header x"
    and "session_map h = []" and "app h = demo_start"
proof -
  have "(0 :: nat) < next_object (fresh_hub demo_start)" by (simp add: fresh_acceptor)
  from accepted_run [OF fresh_acceptor(1,2) this, of "node_env demo_platform" demo_peer] obtain x h where
    1: "handle_event (node_env demo_platform) (Accepted False (Inr demo_peer)) (fresh_hub demo_start) = (Ok (), h)"
      "map_of (live h) 0 = Some x" "waits_for_header x" "session_map h = []" "app h = app (fresh_hub demo_start)"
    by (auto simp: fresh_acceptor)
  have "system_reach demo_platform h"
    by (rule system_reach.network [OF demo_system _ 1(1)]) (simp_all add: network_event_def)
  moreover have "app (fresh_hub demo_start) = demo_start"
    by (simp add: fresh_hub_def start_accept_def make_session_def bnd_run writes_run)
  ultimately show ?thesis using that 1(2-5) by simp
qed

lemma demo_ping_read:
  obtains x h where "system_reach demo_platform h" and "map_of (live h) 0 = Some x" and "awaiting x = [Await_body 4]"
    and "remote_ep x = demo_peer"
    and "map_of (session_map h) (Endpoint ''h'' (show_nat (unat (80 :: 16 word)))) = Some 0"
    and "app h = demo_start" and "written x @ write_msgs x = packet_log x"
proof -
  obtain x1 h1 where r1: "system_reach demo_platform h1"
    and 1: "map_of (live h1) 0 = Some x1" "waits_for_header x1" "session_map h1 = []" "app h1 = demo_start"
    by (rule demo_accepted)
  have "hub_ok h1" using system_reach_ok [OF r1] by (simp add: system_ok_def)
  then have h1: "h1 = at 0 x1 h1" by (rule at_same [OF hub_okD(1) 1(1)])
  have ip: "ip_text demo_peer \<noteq> []" by (simp add: demo_peer_def)
  have four: "4 \<le> max_body_length" by (simp add: max_body_length_def PACKET_SIZE_def header_length_def)
  from header_run [OF 1(2) ip refl four, of "node_env demo_platform" 0 80 h1, folded h1] obtain y m where
    2: "handle_event (node_env demo_platform) (Header_done 0 False (peer_header 4 80) (Inr demo_peer)) h1 =
        (Ok (), at 0 y (h1\<lparr>session_map := m\<rparr>))"
      "map_of m = (map_of (session_map h1))(Endpoint (ip_text demo_peer) (show_nat (unat (80 :: 16 word))) \<mapsto> 0)"
      "awaiting y = [Await_body 4]"
      "remote_ep y = \<lparr>ip_text = ip_text demo_peer, ip_port = 80\<rparr>" by blast
  have r2: "system_reach demo_platform (at 0 y (h1\<lparr>session_map := m\<rparr>))"
    by (rule system_reach.network [OF r1 _ 2(1)]) (simp_all add: network_event_def)
  show ?thesis
    using that [OF r2, of y] 2(2-4) 1(4) by (simp add: demo_peer_def packet_log_def)
qed

theorem ping_is_answered_witness:
  "\<exists>h h' y c. system_reach demo_platform h \<and>
     handle_event (node_env demo_platform) (Body_done 0 False ''ping'') h = (Ok (), h') \<and>
     map_of (live h') 0 = Some y \<and> message_packet (listen_port demo_start) ''m'' = Ok c \<and> c \<in> set (packet_log y) \<and>
     bucket_at (contacts (app h')) ''02'' = Ok (Endpoint ''h'' (show_nat 80))"
proof -
  obtain x h where h: "system_reach demo_platform h" "map_of (live h) 0 = Some x" "awaiting x = [Await_body 4]"
    "remote_ep x = demo_peer"
    "map_of (session_map h) (Endpoint ''h'' (show_nat (unat (80 :: 16 word)))) = Some 0" "app h = demo_start"
    by (rule demo_ping_read)
  have "''02'' \<noteq> k" if "length k = 64" for k :: string using that by auto
  from this [OF length_key_to_string] this [of zero_key_text] have key: "''02'' \<noteq> key_to_string (1 :: key)" "''02'' \<noteq> zero_key_text"
    by (simp_all add: zero_key_text_def)
  have ping: "demo_parse ''ping'' = new_message SEND_PING ''02'' 7" by (simp add: demo_parse_def)
  have four: "Await_body (length ''ping'') \<in> set (awaiting x)" using h(3) by simp
  have epp: "Endpoint ''h'' (show_nat (unat (80 :: 16 word))) =
      Endpoint (ip_text (remote_ep x)) (show_nat (unat (ip_port (remote_ep x))))" "ip_text (remote_ep x) \<noteq> []"
    by (simp_all add: h(4) demo_peer_def)
  have res: "resolve demo_platform n (Endpoint ''h'' (show_nat (unat (80 :: 16 word)))) = Inr (remote_ep x)" for n
    by (simp add: demo_platform_simps h(4) demo_peer_def)
  have m: "type_of (parse demo_platform ''ping'') = SEND_PING" "from_id (parse demo_platform ''ping'') \<noteq> node_id (app h)"
    "from_id (parse demo_platform ''ping'') \<noteq> zero_key_text"
    "mm_count (bucket_common (contacts (app h)) (from_id (parse demo_platform ''ping''))) (entries (contacts (app h))) < BUCKET_SIZE"
    "length (serialize demo_platform (ping_answer (app h) (parse demo_platform ''ping''))) \<le> max_body_length"
    using key by (simp_all add: ping h(6) demo_start_state new_message_def new_bucket_def mm_count_def
        demo_platform_simps max_body_length_def PACKET_SIZE_def header_length_def BUCKET_SIZE_def)
  from ping_is_answered [OF h(1,2) four epp(2,1) h(5) res m] obtain h' y c where
    "handle_event (node_env demo_platform) (Body_done 0 False ''ping'') h = (Ok (), h')" "map_of (live h') 0 = Some y"
    "packet_log y = packet_log x @ [c]" "message_packet (listen_port demo_start) ''m'' = Ok c"
    "bucket_at (contacts (app h')) ''02'' = Ok (Endpoint ''h'' (show_nat 80))"
    by (auto simp: h(6) ping demo_platform_simps new_message_def)
  with h(1) show ?thesis by (intro exI [of _ h] exI [of _ h'] exI [of _ y] exI [of _ c]) simp
qed

end
