(* ===== verification/Node_Restart.thy ===== *)
theory Node_Restart
  imports System
begin

text \<open>
  A node that starts again: what it asks of the network for the contacts its backup has.
\<close>

section \<open>Pinging the contacts of the backup\<close>

text \<open>An endpoint that is read back from its text, and that resolves to \<open>u e\<close>.\<close>

definition restorable :: "platform \<Rightarrow> (endpoint_proto \<Rightarrow> tcp_endpoint) \<Rightarrow> endpoint_proto \<Rightarrow> bool" where
  "restorable P u e \<longleftrightarrow> address e \<noteq> [] \<and> hd (address e) \<noteq> CHR ''['' \<and> port e \<noteq> [] \<and> CHR '':'' \<notin> set (port e) \<and>
     (\<forall>n. resolve P n e = Inr (u e)) \<and> ip_text (u e) \<noteq> []"

definition is_ping :: "platform \<Rightarrow> 16 word \<Rightarrow> key_text \<Rightarrow> packet \<Rightarrow> bool" where
  "is_ping P lp me p \<longleftrightarrow> (\<exists>t. message_packet lp (serialize P (new_message SEND_PING me t)) = Ok p)"

lemma ping_restorable:
  assumes "restorable P u e" and "sessions s = []"
    and "\<And>t. length (serialize P (new_message SEND_PING (node_id s) t)) \<le> max_body_length"
  shows "\<exists>i p s'. ping_endpoint P e s = (Ok (), s') \<and> outbox s' = outbox s @ [Connect i (u e), Deliver i p] \<and>
    is_ping P (listen_port s) (node_id s) p \<and> sessions s' = [] \<and> listen_port s' = listen_port s \<and>
    node_id s' = node_id s"
proof -
  define t where "t = (random_bitset (random_at P) (random_calls s) :: token)"
  obtain p where p: "message_packet (listen_port s) (serialize P (new_message SEND_PING (node_id s) t)) = Ok p"
    using message_packet_data [OF assms(3)] by blast
  obtain epp where epp: "endpoint_to_proto (u e) = Ok epp"
    using assms(1) by (auto simp: restorable_def endpoint_to_proto_good)
  have "resolve P n e = Inr (u e)" "address e \<noteq> []" "port e \<noteq> []" for n using assms(1) by (simp_all add: restorable_def)
  then show ?thesis
    using assms(2) p epp
    by (auto simp: ping_endpoint_def send_PING_endpoint_def random_token_def t_def [symmetric] update_time_def
        set_ping_ttl_def send_to_def swallow_def proto_to_endpoint_def deliver_packet_def emit_def cpp_simps is_ping_def)
qed

lemma ping_stored_run:
  assumes "\<forall>e \<in> set es. restorable P u e" and "sessions s = []"
    and "\<And>t. length (serialize P (new_message SEND_PING (node_id s) t)) \<le> max_body_length"
  shows "\<exists>evs s'. ping_stored P (map endpoint_to_string es) s = (Ok (), s') \<and> outbox s' = outbox s @ evs \<and>
    map fst (sends_of evs) = map u es \<and> (\<forall>x \<in> set (sends_of evs). is_ping P (listen_port s) (node_id s) (snd x))"
  using assms
proof (induction es arbitrary: s)
  case Nil
  show ?case by (intro exI [of _ "[]"] exI [of _ s]) (simp add: ret_run)
next
  case (Cons e es)
  have e: "restorable P u e" using Cons.prems(1) by simp
  obtain i p s1 where s1: "ping_endpoint P e s = (Ok (), s1)" "outbox s1 = outbox s @ [Connect i (u e), Deliver i p]"
    "is_ping P (listen_port s) (node_id s) p" "sessions s1 = []" "listen_port s1 = listen_port s" "node_id s1 = node_id s"
    using ping_restorable [OF e Cons.prems(2,3)] by blast
  have "\<forall>e \<in> set es. restorable P u e" using Cons.prems(1) by simp
  moreover have "length (serialize P (new_message SEND_PING (node_id s1) t)) \<le> max_body_length" for t
    using Cons.prems(3) s1(6) by simp
  ultimately obtain evs s' where s': "ping_stored P (map endpoint_to_string es) s1 = (Ok (), s')"
    "outbox s' = outbox s1 @ evs" "map fst (sends_of evs) = map u es"
    "\<forall>x \<in> set (sends_of evs). is_ping P (listen_port s1) (node_id s1) (snd x)"
    using Cons.IH [OF _ s1(4)] by blast
  have parsed: "string_to_endpoint_pair (endpoint_to_string e) = Ok (address e, port e)"
    using e endpoint_text_read [of "port e" "address e"] by (cases e) (simp add: restorable_def)
  have "ping_stored P (map endpoint_to_string (e # es)) s = (Ok (), s')"
    using s1(1) s'(1) by (simp add: bnd_run parsed lift_outcome_run swallow_def try_std_run)
  with s1 s' show ?case
    by (intro exI [of _ "Connect i (u e) # Deliver i p # evs"] exI [of _ s']) simp
qed

lemma core_ping_stored: "keeps_core c (ping_stored P vs)"
  by (induction vs) (auto intro!: core_rules preserves_rules)

lemma held_back:
  assumes "ping_stored P vs s = (r, s')"
  shows "backup s' = backup s" "giant_lock s' = giant_lock s"
  using same_core(5,6) [OF core_same [OF core_ping_stored]] assms by (metis snd_conv)+

section \<open>Properties\<close>

text \<open>The constructor and the restoring of the backup, from what their parts do.\<close>

lemma restore_run:
  assumes "f = path @ ''localhost.buckets.'' @ show_nat (unat p) @ ''.db''"
    and "kv_open (backup_engine P) (backup_other P) (stored_contacts P) f (backup s) = (Ok (), bk)"
    and "kv_list_value (backup_engine P) (backup_other P) [] bk = (Ok vs, bk')"
    and "ping_stored P vs (s\<lparr>backup := bk'\<rparr>) = r"
  shows "restore_from_backup P path p s = r"
proof -
  have "on_backup (kv_open (backup_engine P) (backup_other P) (stored_contacts P) f) s = (Ok (), s\<lparr>backup := bk\<rparr>)"
    using assms(2) by (simp add: on_backup_def on_part_run)
  moreover have "on_backup (kv_list_value (backup_engine P) (backup_other P) []) (s\<lparr>backup := bk\<rparr>) = (Ok vs, s\<lparr>backup := bk'\<rparr>)"
    using assms(3) by (simp add: on_backup_def on_part_run)
  ultimately show ?thesis
    using assms(4) unfolding restore_from_backup_def assms(1) [symmetric] by (simp only: bnd_run prod.case outcome.case)
qed

definition starting :: "platform \<Rightarrow> key \<Rightarrow> 16 word \<Rightarrow> nat \<Rightarrow> node" where
  "starting P k p mx = (new_node (key_to_string k) p mx)\<lparr>random_calls := Suc 0, clock_reads := Suc 0,
    timer := clock_at P 0 + seconds (int (random_at P 0 mod 120)), giant_lock := True\<rparr>"

lemma start_node_run:
  assumes "f = path @ ''localhost.store.'' @ show_nat (unat p) @ ''.db''"
    and "data_open (storage_engine P) (storage_other P) (stored_records P) f (storage (starting P k p mx)) = (Ok (), st)"
    and "restore_from_backup P path p ((starting P k p mx)\<lparr>storage := st\<rparr>) = (Ok (), s2)" and "giant_lock s2"
  shows "start_node P k path p mx = (Ok (), s2\<lparr>giant_lock := False\<rparr>)"
proof -
  let ?s0 = "starting P k p mx"
  have "on_storage (data_open (storage_engine P) (storage_other P) (stored_records P) f) ?s0 = (Ok (), ?s0\<lparr>storage := st\<rparr>)"
    using assms(2) by (simp add: on_storage_def on_part_run)
  moreover have "start_node P k path p mx =
      scoped (thn (on_storage (data_open (storage_engine P) (storage_other P) (stored_records P) f))
        (restore_from_backup P path p)) (?s0\<lparr>giant_lock := False\<rparr>)"
    by (simp add: start_node_def bnd_run random_below_def update_time_def writes_run starting_def new_node_def assms(1))
  moreover have "(?s0\<lparr>giant_lock := False\<rparr>)\<lparr>giant_lock := True\<rparr> = ?s0" by (simp add: starting_def)
  ultimately show ?thesis using assms(3,4) by (simp add: scoped_def lock_giant_def unlock_giant_def bnd_run)
qed

text \<open>What a file with the contacts \<open>es\<close> under the keys \<open>ks\<close> gives when it is opened and listed.\<close>

lemma backup_listed:
  assumes "engine_ok E" and "open_error E f = None" and "kv_rows (stored f) = zip ks (map endpoint_to_string es)"
    and "distinct ks" and "length ks = length es" and "\<forall>k \<in> set ks. sql_literal k"
    and "\<forall>e \<in> set es. sql_literal (endpoint_to_string e)" and "\<not> mutex_held s"
  obtains bk es' where "kv_open E other stored f s = (Ok (), bk)" and "mset es' = mset es"
    and "kv_list_value E other [] bk = (Ok (map endpoint_to_string es'), bk\<lparr>calls := Suc (calls bk)\<rparr>)"
    and "kv_map bk = map_of (zip ks (map endpoint_to_string es))"
proof -
  have rows: "map fst (kv_rows (stored f)) = ks" "map snd (kv_rows (stored f)) = map endpoint_to_string es"
    using assms(3,5) by simp_all
  have "sql_literal (fst r) \<and> sql_literal (snd r)" if "r \<in> set (kv_rows (stored f))" for r
  proof -
    have "(fst r, snd r) \<in> set (zip ks (map endpoint_to_string es))" using that assms(3) by simp
    from set_zip_leftD [OF this] set_zip_rightD [OF this] show ?thesis using assms(6,7) by auto
  qed
  with kv_open_run [where stored = stored, OF assms(1,2,8)] rows(1) assms(4) obtain bk where
    bk: "kv_open E other stored f s = (Ok (), bk)" "kv_ok E bk" "kv_rows (tables bk) = kv_rows (stored f)" by blast
  obtain vs where vs: "kv_list_value E other [] bk = (Ok vs, bk\<lparr>calls := Suc (calls bk)\<rparr>)"
    "mset vs = mset (map endpoint_to_string es)"
    using kv_list_value_run [OF bk(2), of other "[]"] bk(3) rows(2) by auto
  from mset_map_listed [OF vs(2)] obtain es' where "mset es' = mset es" "vs = map endpoint_to_string es'" by blast
  with that [OF bk(1)] vs(1) bk(3) assms(3) show thesis by (simp add: kv_map_def)
qed

text \<open>
  C23 (the backup is pinged at the start): a node whose engines work and whose backup has texts of
  endpoints, none of them an IPv6 address in brackets, starts, and in starting opens a connection to each
  of the endpoints, once, with a ping from its own key; the backup is as the file had it.
\<close>

theorem backup_is_pinged_at_start:
  fixes path :: string and p :: "16 word"
  defines "file \<equiv> \<lambda>part. path @ ''localhost.'' @ part @ show_nat (unat p) @ ''.db''"
  assumes "engine_ok (storage_engine P)" and "open_error (storage_engine P) (file ''store.'') = None"
    and "engine_ok (backup_engine P)" and "open_error (backup_engine P) (file ''buckets.'') = None"
    and "kv_rows (stored_contacts P (file ''buckets.'')) = zip ks (map endpoint_to_string es)"
    and "distinct ks" and "length ks = length es"
    and "\<forall>k \<in> set ks. sql_literal k" and "\<forall>e \<in> set es. sql_literal (endpoint_to_string e) \<and> restorable P u e"
    and "\<And>t. length (serialize P (new_message SEND_PING (key_to_string k) t)) \<le> max_body_length"
  shows "\<exists>s. start_node P k path p mx = (Ok (), s) \<and> mset (map fst (sends_of (outbox s))) = mset (map u es) \<and>
    (\<forall>x \<in> set (sends_of (outbox s)). is_ping P p (key_to_string k) (snd x)) \<and>
    kv_map (backup s) = map_of (zip ks (map endpoint_to_string es))"
proof -
  let ?s0 = "starting P k p mx"
  have s0: "\<not> mutex_held (storage ?s0)" "\<not> mutex_held (backup ?s0)" by (simp_all add: starting_def new_node_def fresh_db_def)
  have lit: "\<forall>e \<in> set es. sql_literal (endpoint_to_string e)" using assms(10) by simp
  obtain st where st: "data_open (storage_engine P) (storage_other P) (stored_records P) (file ''store.'') (storage ?s0) = (Ok (), st)"
    using data_open_run [OF assms(2,3) s0(1)] by blast
  obtain bk es' where bk: "kv_open (backup_engine P) (backup_other P) (stored_contacts P) (file ''buckets.'') (backup ?s0) = (Ok (), bk)"
    and es': "mset es' = mset es"
    and vs: "kv_list_value (backup_engine P) (backup_other P) [] bk = (Ok (map endpoint_to_string es'), bk\<lparr>calls := Suc (calls bk)\<rparr>)"
    and map: "kv_map bk = map_of (zip ks (map endpoint_to_string es))"
    by (rule backup_listed [where stored = "stored_contacts P" and f = "file ''buckets.''", OF assms(4-9) lit s0(2)])
  define s1 where "s1 = ?s0\<lparr>storage := st, backup := bk\<lparr>calls := Suc (calls bk)\<rparr>\<rparr>"
  have s1: "sessions s1 = []" "node_id s1 = key_to_string k" "listen_port s1 = p" "outbox s1 = []" "giant_lock s1"
    by (simp_all add: s1_def starting_def new_node_def)
  have "\<forall>e \<in> set es'. restorable P u e" using assms(10) es' by (metis set_mset_mset)
  moreover have "length (serialize P (new_message SEND_PING (node_id s1) t)) \<le> max_body_length" for t
    using assms(11) s1(2) by simp
  ultimately obtain s2 where s2: "ping_stored P (map endpoint_to_string es') s1 = (Ok (), s2)"
    "map fst (sends_of (outbox s2)) = map u es'" "\<forall>x \<in> set (sends_of (outbox s2)). is_ping P p (key_to_string k) (snd x)"
    using ping_stored_run [OF _ s1(1), of es' P u] s1 by auto
  have core: "backup s2 = backup s1" "giant_lock s2" using held_back [OF s2(1)] s1(5) by simp_all
  have "restore_from_backup P path p (?s0\<lparr>storage := st\<rparr>) = (Ok (), s2)"
    by (rule restore_run [OF _ _ vs]) (use bk s2(1) in \<open>simp_all add: s1_def file_def\<close>)
  from start_node_run [OF _ st this core(2)] have "start_node P k path p mx = (Ok (), s2\<lparr>giant_lock := False\<rparr>)"
    by (simp add: file_def)
  moreover have "kv_map (backup s2) = map_of (zip ks (map endpoint_to_string es))"
    using core(1) map by (simp add: kv_map_def s1_def)
  moreover have "mset (map u es') = mset (map u es)" using es' by (simp only: mset_map)
  ultimately show ?thesis using s2(2,3) by (intro exI [of _ "s2\<lparr>giant_lock := False\<rparr>"]) simp
qed

theorem backup_is_pinged_at_start_witness:
  "\<exists>P s. start_node P 1 [] 80 10 = (Ok (), s) \<and> map fst (sends_of (outbox s)) = [demo_peer] \<and>
     kv_map (backup s) ''02'' = Some ''h:80''"
proof -
  define P where "P = demo_platform\<lparr>stored_contacts := \<lambda>f. \<lparr>has_contacts = True, kv_rows = [(''02'', ''h:80'')]\<rparr>\<rparr>"
  let ?e = "Endpoint ''h'' ''80''"
  have saved: "endpoint_to_string ?e = ''h:80''" by (simp add: endpoint_to_string_def)
  have engines: "engine_ok (storage_engine P)" "open_error (storage_engine P) f = None"
    "engine_ok (backup_engine P)" "open_error (backup_engine P) f = None" for f
    using demo_engine_ok by (simp_all add: P_def demo_platform_simps) (simp_all add: demo_engine_def)
  have rows: "kv_rows (stored_contacts P f) = zip [''02''] (map endpoint_to_string [?e])" for f
    by (simp add: P_def saved)
  have keys: "distinct [''02'']" "length [''02''] = length [?e]" "\<forall>k \<in> set [''02'']. sql_literal k"
    by (simp_all add: sql_literal_def)
  have good: "\<forall>e \<in> set [?e]. sql_literal (endpoint_to_string e) \<and> restorable P (\<lambda>_. demo_peer) e"
    by (simp add: saved sql_literal_def restorable_def P_def demo_platform_simps demo_peer_def)
  have short: "length (serialize P (new_message SEND_PING (key_to_string 1) t)) \<le> max_body_length" for t
    by (simp add: P_def demo_platform_simps max_body_length_def PACKET_SIZE_def header_length_def)
  from backup_is_pinged_at_start [OF engines(1) engines(2) engines(3) engines(4) rows keys good short, of "[]" 80 10]
  obtain s where "start_node P 1 [] 80 10 = (Ok (), s)" "mset (map fst (sends_of (outbox s))) = {#demo_peer#}"
    "kv_map (backup s) = map_of (zip [''02''] (map endpoint_to_string [?e]))" by auto
  then show ?thesis
    by (intro exI [of _ P] exI [of _ s]) (simp add: saved mset_single_iff del: mset_map)
qed

end
