(* ===== verification/Session_Map.thy ===== *)
theory Session_Map
  imports Session_Buffer
begin

text \<open>
  The map from endpoints to sessions: while no session announces a second port, every entry leads to a
  session that exists and has the endpoint of the entry.
\<close>

section \<open>The statement\<close>

text \<open>
  Every entry of the map is a session of its endpoint.  For the events to keep it, numbers of sessions
  are not used twice, and only a session that was told to connect waits for that.
\<close>

definition connecting_ok :: "peer_session \<Rightarrow> bool" where
  "connecting_ok x \<longleftrightarrow> (Await_connect \<in> set (awaiting x) \<longrightarrow> connected x)"

definition map_live :: "'n hub \<Rightarrow> bool" where
  "map_live h \<longleftrightarrow> omap_ok (live h) \<and>
     (\<forall>i x. map_of (live h) i = Some x \<longrightarrow> i < next_object h \<and> connecting_ok x) \<and>
     (\<forall>e i. map_of (session_map h) e = Some i \<longrightarrow>
        (\<exists>x. map_of (live h) i = Some x \<and> endpoint_to_proto (remote_ep x) = Ok e))"

text \<open>What a header read by the session makes its endpoint.\<close>

definition announced :: "string \<Rightarrow> tcp_endpoint \<Rightarrow> peer_session \<Rightarrow> tcp_endpoint" where
  "announced bytes r x = \<lparr>ip_text = ip_text r,
     ip_port = packet_port (snd (decode_header (fill_at 0 bytes (read_msg x))))\<rparr>"

text \<open>
  An event that gives no session that is in the map another endpoint: the header a peer sends on a
  connection of its own announces the port it had.
\<close>

definition steady :: "hub_event \<Rightarrow> 'n hub \<Rightarrow> bool" where
  "steady ev h \<longleftrightarrow> (\<forall>i bytes r x. ev = Header_done i False bytes (Inr r) \<and> map_of (live h) i = Some x \<and>
     \<not> connected x \<and> i \<in> ran (map_of (session_map h)) \<longrightarrow> announced bytes r x = remote_ep x)"

inductive steady_reach :: "'n hub_env \<Rightarrow> 'n hub \<Rightarrow> bool" for E where
  fresh: "steady_reach E (fresh_hub n)"
| event: "steady_reach E h \<Longrightarrow> steady ev h \<Longrightarrow> handle_event E ev h = (r, h') \<Longrightarrow> (\<forall>f. r \<noteq> Abort f) \<Longrightarrow> steady_reach E h'"

lemma steady_reach_ok: "steady_reach E h \<Longrightarrow> hub_ok h"
proof (induction rule: steady_reach.induct)
  case (event h ev r h')
  then show ?case using hub_event_keeps by blast
qed (rule fresh_hub_ok)

section \<open>What keeps the endpoint of a session\<close>

abbreviation same_peer :: "tcp_endpoint \<Rightarrow> peer_session \<Rightarrow> bool" where
  "same_peer e x \<equiv> remote_ep x = e \<and> connecting_ok x"

interpretation same: queue_frame "same_peer e" "\<lambda>_. True" for e
  by unfold_locales (auto simp: connecting_ok_def)

interpretation same: any_frame "same_peer e" for e ..

lemma same_peer_write: "preserves (same_peer e) pop_front" "preserves (same_peer e) write_front"
    "preserves (same_peer e) (on_read_msg m)" "preserves (same_peer e) (await (Await_body n))"
proof -
  show "preserves (same_peer e) (on_read_msg m)"
    unfolding on_read_msg_def by (rule preserves_on_part) (simp add: connecting_ok_def)
qed (auto intro!: preservesI simp: pop_front_def write_front_def add_ref_def await_def cpp_simps connecting_ok_def
    split: list.split)

lemma map_liveD:
  assumes "map_live h"
  shows "omap_ok (live h)" and "\<And>i x. map_of (live h) i = Some x \<Longrightarrow> i < next_object h \<and> connecting_ok x"
    and "\<And>e i. map_of (session_map h) e = Some i \<Longrightarrow> \<exists>x. map_of (live h) i = Some x \<and> endpoint_to_proto (remote_ep x) = Ok e"
  using assms by (simp_all add: map_live_def)

text \<open>A change of one object, which may get another endpoint if it is not in the map.\<close>

lemma map_live_at:
  assumes "map_live h" and "map_of (live h) i = Some x" and "connecting_ok y"
    and "i \<in> ran (map_of (session_map h)) \<Longrightarrow> remote_ep y = remote_ep x"
  shows "map_live (at i y h)"
proof -
  have "\<exists>z. map_of (live (at i y h)) j = Some z \<and> endpoint_to_proto (remote_ep z) = Ok e"
    if "map_of (session_map h) e = Some j" for e j
  proof (cases "j = i")
    case True
    with that have "i \<in> ran (map_of (session_map h))" by (auto simp: ran_def)
    with assms(4) map_liveD(3) [OF assms(1) that] True assms(2) show ?thesis by simp
  next
    case False
    with map_liveD(3) [OF assms(1) that] show ?thesis by simp
  qed
  with assms map_liveD(1,2) [OF assms(1)] show ?thesis by (simp add: map_live_def)
qed

lemma map_live_fields [simp]: "map_live (h\<lparr>app := n\<rparr>) = map_live h" "map_live (h\<lparr>acceptor := a\<rparr>) = map_live h"
  by (simp_all add: map_live_def)

lemma map_live_new:
  assumes "map_live h" and "connecting_ok y"
  shows "map_live (at (next_object h) y (h\<lparr>next_object := Suc (next_object h)\<rparr>))"
proof -
  have new: "map_of (live h) i = Some x \<Longrightarrow> i \<noteq> next_object h" for i x using map_liveD(2) [OF assms(1)] by blast
  have "\<exists>z. map_of (omap_put (next_object h) y (live h)) j = Some z \<and> endpoint_to_proto (remote_ep z) = Ok e"
    if "map_of (session_map h) e = Some j" for e j
    using map_liveD(3) [OF assms(1) that] new by auto
  moreover have "i < Suc (next_object h) \<and> connecting_ok x"
    if "map_of (omap_put (next_object h) y (live h)) i = Some x" for i x
    using that assms(2) map_liveD(2) [OF assms(1), of i x] by (auto split: if_splits)
  ultimately show ?thesis using map_liveD(1) [OF assms(1)] by (simp add: map_live_def)
qed

named_theorems map_rules "computations that keep the entries of the map"

lemma map_access [map_rules]:
  assumes "\<And>e. preserves (same_peer e) m"
  shows "preserves map_live (access i m)"
proof (rule preservesI)
  fix h assume h: "map_live h"
  show "map_live (snd (access i m h))"
  proof (cases "map_of (live h) i")
    case (Some x)
    have "connecting_ok x" using map_liveD(2) [OF h Some] by simp
    then have "same_peer (remote_ep x) (snd (m x))" using preservesD [OF assms, of x "remote_ep x"] by simp
    with map_live_at [OF h Some] show ?thesis by (simp add: access_run [OF Some] at_def)
  qed (use h in \<open>simp add: access_def\<close>)
qed

lemma make_session_at: "make_session h =
    (Ok (next_object h), at (next_object h) new_session (h\<lparr>next_object := Suc (next_object h)\<rparr>))"
  by (cases h) (simp add: make_session_def at_def)

lemma map_hub [map_rules]:
  "preserves map_live (erase_endpoint ep)" "preserves map_live make_session"
  "preserves map_live (writes (\<lambda>h. h\<lparr>acceptor := a\<rparr>))"
  "preserves map_live (\<lambda>h. case got_disconnected E ep (app h) of (r, n) \<Rightarrow> (r, h\<lparr>app := n\<rparr>))"
  "preserves map_live (\<lambda>h. case got_message E ep m (app h) of (r, n, out) \<Rightarrow> (Ok (r, out), h\<lparr>app := n\<rparr>))"
proof -
  show "preserves map_live (erase_endpoint ep)"
    unfolding erase_endpoint_def
    by (intro preserves_rules preserves_writes) (auto simp: map_live_def)
  have "connecting_ok new_session" by (simp add: connecting_ok_def new_session_def)
  from map_live_new [OF _ this] show "preserves map_live make_session"
    by (intro preservesI) (simp add: make_session_at)
qed (auto intro!: preservesI simp: writes_run split: prod.split)

lemma map_locks [map_rules]:
  "preserves map_live (access i lock_local)" "preserves map_live (access i unlock_local)"
  "preserves map_live (access i (reads f))" "preserves map_live (access i (deliver msg))"
  "preserves map_live (access i (thn lock_local (add_ref n)))" "preserves map_live (note_read_over i)"
  "preserves map_live (done_op i p)" "preserves map_live (fill_read_msg i pos error bytes)"
  "\<not> is_write op \<Longrightarrow> \<not> is_body op \<Longrightarrow> op \<noteq> Await_connect \<Longrightarrow>
    preserves map_live (access i (thn (add_ref n) (await op)))"
  unfolding note_read_over_def done_op_def fill_read_msg_def
  by (intro map_rules same.J_locks same.J_deliver same.J_writes same.J_read_over same.J_await same_peer_write preserves_rules; simp)+

lemma map_release [map_rules]: "preserves map_live (release i)"
proof (rule preservesI)
  fix h assume h: "map_live h"
  show "map_live (snd (release i h))"
  proof (cases "map_of (live h) i")
    case None
    with h show ?thesis by (simp add: release_def bnd_run access_def)
  next
    case (Some x)
    have at: "h = at i x h" by (rule at_same [OF map_liveD(1) [OF h] Some])
    have ok: "connecting_ok x" using map_liveD(2) [OF h Some] by simp
    show ?thesis
    proof (cases "local_lock x")
      case True
      with h Some at show ?thesis
        by (simp add: release_def bnd_run access_run lock_local_def) (metis at_def)
    next
      case False
      have kept: "map_live (at i (x\<lparr>ref_count := n, local_lock := l\<rparr>) h)" "map_live (at i (x\<lparr>ref_count := n\<rparr>) h)" for n l
        using map_live_at [OF h Some] ok by (simp_all add: connecting_ok_def)
      have gone: "map_live (h\<lparr>live := omap_erase i (live h), session_map := omap_erase epp (session_map h), orphans := os\<rparr>)"
        if "endpoint_to_proto (remote_ep x) = Ok epp" for epp os
      proof -
        have "\<exists>z. map_of (omap_erase i (live h)) j = Some z \<and> endpoint_to_proto (remote_ep z) = Ok e"
          if "map_of (session_map h) e = Some j" and "e \<noteq> epp" for e j
          using map_liveD(3) [OF h that(1)] that(2) Some \<open>endpoint_to_proto (remote_ep x) = Ok epp\<close> by auto
        moreover have "j < next_object h \<and> connecting_ok y" if "map_of (omap_erase i (live h)) j = Some y" for j y
          using that map_liveD(2) [OF h, of j y] by (simp split: if_splits)
        ultimately show ?thesis using map_liveD(1) [OF h] by (auto simp: map_live_def)
      qed
      show ?thesis
        using kept gone
        by (subst at) (auto simp: release_at [OF False] split: outcome.split)
    qed
  qed
qed

lemma map_hub_send [map_rules]: "preserves map_live (hub_send uep msg)"
proof -
  have new: "preserves map_live (bnd make_session (\<lambda>i. thn (access i (connect uep)) (access i (deliver msg))))"
  proof (rule preservesI)
    fix h assume h: "map_live h"
    define y where "y = new_session\<lparr>connected := True, remote_ep := uep, ref_count := ref_count new_session + 1,
      awaiting := awaiting new_session @ [Await_connect]\<rparr>"
    have "connect uep new_session = (Ok (), y)"
      unfolding y_def by (rule connect_run) (simp add: new_session_def)
    then have "bnd make_session (\<lambda>i. thn (access i (connect uep)) (access i (deliver msg))) h =
        access (next_object h) (deliver msg) (at (next_object h) y (h\<lparr>next_object := Suc (next_object h)\<rparr>))"
      by (simp add: bnd_run make_session_at)
    moreover have "map_live (at (next_object h) y (h\<lparr>next_object := Suc (next_object h)\<rparr>))"
      by (rule map_live_new [OF h]) (simp add: y_def connecting_ok_def)
    ultimately show "map_live (snd (bnd make_session (\<lambda>i. thn (access i (connect uep)) (access i (deliver msg))) h))"
      using preservesD [OF map_locks(4)] by metis
  qed
  show ?thesis
    unfolding hub_send_def
    by (intro preserves_rules) (auto split: option.split intro: new map_locks)
qed

lemma map_start_accept [map_rules]: "preserves map_live start_accept"
  unfolding start_accept_def by (intro map_rules preserves_rules)

lemma map_handle_write: "preserves map_live (handle_write i error)"
  unfolding handle_write_def
  by (intro map_rules preserves_rules same_peer_write)

lemma map_handle_read_body: "preserves map_live (handle_read_body E i error)"
  unfolding handle_read_body_def
  by (auto intro!: map_rules preserves_rules same.J_locks same.J_await)

section \<open>The handlers that give a session its endpoint\<close>

lemma map_register:
  assumes "map_live h" and "map_of (live h) i = Some x" and "endpoint_to_proto (remote_ep x) = Ok epp"
  shows "map_live (snd (register i epp h))"
proof -
  have "map_live (h\<lparr>session_map := m\<rparr>)" if "map_of m = (map_of (session_map h))(epp \<mapsto> i)" for m
    using that assms map_liveD [OF assms(1)] by (auto simp: map_live_def)
  then show ?thesis using assms(1) by (auto simp: register_def writes_run split: option.split)
qed

text \<open>A session that connects has its endpoint already.\<close>

lemma map_connect_event:
  assumes "hub_ok h" and "map_live h" and "awaits i (\<lambda>op. op = Await_connect) h"
  shows "map_live (snd (thn (done_op i (\<lambda>op. op = Await_connect)) (handle_connect i error rem) h))"
proof -
  obtain x where x: "h = at i x h" "map_of (live h) i = Some x" "Await_connect \<in> set (awaiting x)"
    using awaits_at [OF hub_okD(1) [OF assms(1)] assms(3)] by metis
  have free: "\<not> local_lock x" using hub_okD(3) [OF assms(1) x(2)] by (simp add: session_ok_def)
  have c: "connected x" using map_liveD(2) [OF assms(2) x(2)] x(3) by (simp add: connecting_ok_def)
  define y where "y = x\<lparr>awaiting := filter (\<lambda>op. op \<noteq> Await_connect) (awaiting x), ref_count := ref_count x - 1\<rparr>"
  have y: "map_live (at i y h)"
    by (rule map_live_at [OF assms(2) x(2)]) (simp_all add: y_def connecting_ok_def)
  have "\<not> local_lock (x\<lparr>awaiting := filter (\<lambda>op. op \<noteq> Await_connect) (awaiting x)\<rparr>)" using free by simp
  then have run: "thn (done_op i (\<lambda>op. op = Await_connect)) (handle_connect i error rem) h =
      (if \<not> error then access i (start rem) else thn (note_read_over i) (release i)) (at i y h)"
    unfolding handle_connect_def
    by (subst x(1)) (simp add: bnd_run [of "done_op i p" for p] done_op_at y_def enter_leave)
  show ?thesis
  proof (cases error)
    case True
    have "preserves map_live (thn (note_read_over i) (release i))" by (intro map_rules preserves_rules)
    from preservesD [OF this y] True run show ?thesis by simp
  next
    case False
    have "map_live (at i (y\<lparr>ref_count := ref_count y + 1, awaiting := awaiting y @ [Await_header]\<rparr>) h)"
      by (rule map_live_at [OF assms(2) x(2)]) (simp_all add: y_def connecting_ok_def)
    with False run free c show ?thesis by (simp add: start_run y_def)
  qed
qed

text \<open>The session a peer is accepted for is not in the map yet.\<close>

lemma map_accept_event:
  assumes "hub_ok h" and "map_live h" and "acceptor h = Some i"
  shows "map_live (snd (handle_accept i error rem h))"
proof -
  obtain x where x: "map_of (live h) i = Some x" "idle x" using hub_okD(5) [OF assms(1,3)] by blast
  have free: "\<not> local_lock x" using hub_okD(3) [OF assms(1) x(1)] by (simp add: session_ok_def)
  have "i \<notin> ran (map_of (session_map h))"
    using hub_okD(6) [OF assms(1,3)] by (auto simp: ran_def dest: map_of_SomeD)
  moreover have "connecting_ok (snd (start rem x))"
    using map_liveD(2) [OF assms(2) x(1)] by (auto simp: start_run [OF free] connecting_ok_def split: sum.split)
  ultimately have "map_live (at i (snd (start rem x)) h)"
    using map_live_at [OF assms(2) x(1)] by blast
  then have st: "map_live (snd (access i (start rem) h))" by (simp add: access_run [OF x(1)] at_def)
  have "map_live (snd (thn (when_cpp (\<not> error) (access i (start rem))) start_accept h))"
    using st assms(2) preservesD [OF map_start_accept]
    by (cases "access i (start rem) h") (auto simp: bnd_run when_run split: outcome.split)
  then show ?thesis
    by (cases "thn (when_cpp (\<not> error) (access i (start rem))) start_accept h")
      (auto simp: handle_accept_def try_std_run abort_run split: outcome.split exn.split)
qed

lemma map_header_event:
  assumes "hub_ok h" and "map_live h" and "awaits i (\<lambda>op. op = Await_header) h"
    and "steady (Header_done i error bytes rem) h"
  shows "map_live (snd (thn (done_op i (\<lambda>op. op = Await_header)) (thn (fill_read_msg i 0 error bytes)
      (handle_read_header E i error rem)) h))"
proof -
  obtain x where x: "h = at i x h" "map_of (live h) i = Some x" "Await_header \<in> set (awaiting x)"
    using awaits_at [OF hub_okD(1) [OF assms(1)] assms(3)] by metis
  have conn: "connecting_ok x" using map_liveD(2) [OF assms(2) x(2)] by simp
  define m0 where "m0 = (if error then read_msg x else fill_at 0 bytes (read_msg x))"
  define z where "z = x\<lparr>awaiting := filter (\<lambda>op. op \<noteq> Await_header) (awaiting x), read_msg := m0, local_lock := True,
    ref_count := ref_count x - 1\<rparr>"
  obtain q h1 where c: "check_header i error rem (at i z h) = (q, h1)" by fastforce
  obtain z1 where z1: "h1 = at i z1 h" "awaiting z1 = awaiting z" "connected z1 = connected z"
    "remote_ep z1 = remote_ep z \<or> (\<not> error \<and> \<not> connected z \<and> (\<exists>r. rem = Inr r \<and>
      remote_ep z1 = \<lparr>ip_text = ip_text r, ip_port = packet_port (snd (decode_header (read_msg z)))\<rparr>))"
    "\<And>epp. q = Ok epp \<Longrightarrow> endpoint_to_proto (remote_ep z1) = Ok epp"
    using check_header_peer [OF c] by metis
  have "remote_ep z1 = remote_ep x" if "i \<in> ran (map_of (session_map h))"
    using z1(4) that assms(4) x(2) by (auto simp: steady_def announced_def z_def m0_def)
  moreover have "connecting_ok z1" using conn z1(2,3) by (simp add: connecting_ok_def z_def)
  ultimately have m1: "map_live (at i z1 h)" using map_live_at [OF assms(2) x(2)] by blast
  have good: "map_live (snd (end_header i epp (at i z1 h)))" if "q = Ok epp" for epp
  proof -
    have reg: "map_live (snd (register i epp (at i z1 h)))"
      by (rule map_register [OF m1 _ z1(5) [OF that]]) simp
    have rest: "preserves map_live (thn (access i (thn (add_ref 1)
        (bnd (reads (\<lambda>x. body_size (read_msg x))) (\<lambda>n. await (Await_body n))))) (access i unlock_local))"
      by (intro map_rules preserves_rules same.J_locks same_peer_write)
    have "fst (register i epp (at i z1 h)) = Ok ()" by (simp add: register_def writes_run)
    then show ?thesis
      using preservesD [OF rest reg] unfolding end_header_def by (simp add: bnd_run [of "register i epp"] split_beta)
  qed
  have "map_live (snd (header_block E i error rem (at i z h)))"
    by (rule header_block_keeps [OF c [unfolded z1(1)] m1 good]) (assumption | intro map_rules)+
  then show ?thesis unfolding header_event_block [OF assms(1) x(2)] z_def m0_def .
qed

lemma map_event:
  assumes "hub_ok h" and "map_live h" and "steady ev h"
  shows "map_live (snd (handle_event E ev h))"
proof (cases ev)
  case (Accepted error rem)
  then show ?thesis
    using assms(2) map_accept_event [OF assms(1,2)] by (auto split: option.split)
next
  case (Send uep msg)
  then show ?thesis using preservesD [OF map_hub_send assms(2)] by simp
next
  case (Connect_done i error rem)
  then show ?thesis using assms(2) map_connect_event [OF assms(1,2)] by simp
next
  case (Header_done i error bytes rem)
  then show ?thesis using assms(2,3) map_header_event [OF assms(1,2)] by simp
next
  case (Body_done i error bytes)
  have "preserves map_live (thn (done_op i is_body)
      (thn (fill_read_msg i header_length error bytes) (handle_read_body E i error)))"
    by (intro map_rules preserves_rules map_handle_read_body)
  from preservesD [OF this assms(2)] Body_done assms(2) show ?thesis by simp
next
  case (Write_done i error)
  have "preserves map_live (thn (done_op i is_write) (handle_write i error))"
    by (intro map_rules preserves_rules map_handle_write)
  from preservesD [OF this assms(2)] Write_done assms(2) show ?thesis by simp
qed

lemma steady_map_live: "steady_reach E h \<Longrightarrow> map_live h"
proof (induction rule: steady_reach.induct)
  case (fresh n)
  have "map_live \<lparr>live = [], session_map = [], acceptor = None, next_object = 0, orphans = [], app = n\<rparr>"
    by (simp add: map_live_def)
  from preservesD [OF map_start_accept this] show ?case by (simp add: fresh_hub_def)
next
  case (event h ev r h')
  then show ?case using map_event [OF steady_reach_ok] by (metis snd_conv)
qed

section \<open>Properties\<close>

text \<open>
  C10 (entries of the map are sessions): as long as no peer announces a second port on one connection,
  every entry of the map is a session that exists and whose endpoint is that of the entry, whatever
  connections, errors and orders of events there are; sending to any endpoint with an address then uses
  no deleted session and returns.
\<close>

theorem mapped_sessions_exist:
  assumes "steady_reach E h"
  shows "(\<forall>epp i. map_of (session_map h) epp = Some i \<longrightarrow>
      (\<exists>x. map_of (live h) i = Some x \<and> endpoint_to_proto (remote_ep x) = Ok epp)) \<and>
    (ip_text uep \<noteq> [] \<and> copy_packet msg = Ok c \<longrightarrow> fst (hub_send uep msg h) = Ok ())"
proof (intro conjI impI)
  have ok: "hub_ok h" and m: "map_live h" using assms steady_reach_ok steady_map_live by blast+
  show "\<forall>epp i. map_of (session_map h) epp = Some i \<longrightarrow>
      (\<exists>x. map_of (live h) i = Some x \<and> endpoint_to_proto (remote_ep x) = Ok epp)"
    using map_liveD(3) [OF m] by blast
  assume good: "ip_text uep \<noteq> [] \<and> copy_packet msg = Ok c"
  define epp where "epp = Endpoint (ip_text uep) (show_nat (unat (ip_port uep)))"
  have epp: "endpoint_to_proto uep = Ok epp" using good by (simp add: endpoint_to_proto_good epp_def)
  show "fst (hub_send uep msg h) = Ok ()"
  proof (cases "map_of (session_map h) epp")
    case (Some i)
    with map_liveD(3) [OF m] obtain x where "map_of (live h) i = Some x" by blast
    from hub_send_found [OF ok epp Some this, of msg c] good show ?thesis by auto
  next
    case None
    have free: "\<not> local_lock new_session" by (simp add: new_session_def)
    define y where "y = snd (connect uep new_session)"
    have "\<not> local_lock y" "connect uep new_session = (Ok (), y)"
      using free by (simp_all add: y_def connect_run [OF free])
    with None good deliver_run [of y msg c] show ?thesis
      by (simp add: hub_send_def epp bnd_run lift_outcome_run reads_run make_session_at)
  qed
qed

theorem mapped_sessions_exist_witness:
  "\<exists>h x. steady_reach demo_env h \<and> session_map h \<noteq> [] \<and> map_of (live h) 0 = Some x \<and>
     endpoint_to_proto (remote_ep x) = Ok (Endpoint ''10.0.0.1'' (show_nat 4242))"
proof -
  have "(0 :: nat) < next_object (fresh_hub ())" by (simp add: fresh_acceptor)
  from accepted_run [OF fresh_acceptor(1,2) this, of demo_env "demo_tcp 9"] obtain x1 h1 where
    1: "handle_event demo_env (Accepted False (Inr (demo_tcp 9))) (fresh_hub ()) = (Ok (), h1)"
      "map_of (live h1) 0 = Some x1" "waits_for_header x1" "session_map h1 = []" by (auto simp: fresh_acceptor)
  have r1: "steady_reach demo_env h1"
    by (rule steady_reach.event [OF steady_reach.fresh _ 1(1)]) (simp_all add: steady_def)
  have h1: "h1 = at 0 x1 h1" by (rule at_same [OF hub_okD(1) [OF steady_reach_ok [OF r1]] 1(2)])
  have ip: "ip_text (demo_tcp 9) \<noteq> []" by (simp add: demo_tcp_def)
  from header_run [OF 1(3) ip refl le0, of demo_env 0 4242 h1, folded h1] obtain y m where
    2: "handle_event demo_env (Header_done 0 False (peer_header 0 4242) (Inr (demo_tcp 9))) h1 =
        (Ok (), at 0 y (h1\<lparr>session_map := m\<rparr>))"
      "map_of m = (map_of (session_map h1))(Endpoint (ip_text (demo_tcp 9)) (show_nat (unat (4242 :: 16 word))) \<mapsto> 0)"
    by blast
  have r2: "steady_reach demo_env (at 0 y (h1\<lparr>session_map := m\<rparr>))"
    by (rule steady_reach.event [OF r1 _ 2(1)]) (simp_all add: steady_def 1(4))
  have entry: "map_of (session_map (at 0 y (h1\<lparr>session_map := m\<rparr>))) (Endpoint ''10.0.0.1'' (show_nat 4242)) = Some 0"
    using 2(2) by (simp add: demo_tcp_def)
  with mapped_sessions_exist [OF r2] obtain x where
    "map_of (live (at 0 y (h1\<lparr>session_map := m\<rparr>))) 0 = Some x"
    "endpoint_to_proto (remote_ep x) = Ok (Endpoint ''10.0.0.1'' (show_nat 4242))" by blast
  moreover have "session_map (at 0 y (h1\<lparr>session_map := m\<rparr>)) \<noteq> []" using entry by auto
  ultimately show ?thesis using r2 by blast
qed

end
