(* ===== verification/Session_Race.thy ===== *)
theory Session_Race
  imports Session_Properties
begin

text \<open>
  Sending in the two steps that other threads can come between: the map is searched, and then the session
  it gave is used.  The periodic task sends from a thread of its own, and the handlers of the sessions,
  which delete them, run in the threads of the network, without the lock of the node.
\<close>

section \<open>The two steps\<close>

definition find_session :: "tcp_endpoint \<Rightarrow> ('n hub, nat option) cpp" where
  "find_session uep = bnd (lift_outcome (endpoint_to_proto uep)) (\<lambda>epp. reads (\<lambda>h. map_of (session_map h) epp))"

definition use_session :: "tcp_endpoint \<Rightarrow> packet \<Rightarrow> nat option \<Rightarrow> ('n hub, unit) cpp" where
  "use_session uep msg ite = (case ite of
       None \<Rightarrow> bnd make_session (\<lambda>i. thn (access i (connect uep)) (access i (deliver msg)))
     | Some i \<Rightarrow> access i (deliver msg))"

lemma hub_send_steps: "hub_send uep msg = bnd (find_session uep) (use_session uep msg)"
  unfolding hub_send_def find_session_def use_session_def bnd_assoc ..

lemma find_session_run:
  "endpoint_to_proto uep = Ok epp \<Longrightarrow> find_session uep h = (Ok (map_of (session_map h) epp), h)"
  by (simp add: find_session_def bnd_run lift_outcome_run reads_run)

section \<open>Properties\<close>

text \<open>
  C34 (sending races with the end of a connection): a session waits for its next header and nothing is
  being written.  A packet for its peer and the end of its connection are handled without a fault one
  after the other, in either order; but when the connection ends between the search of the map and the
  use of the session it gave, the packet goes to a deleted session, which is undefined.
\<close>

theorem sending_races_with_disconnecting:
  assumes "hub_reach E h" and "map_of (live h) i = Some x" and "waits_for_header x"
    and "fst (got_disconnected E (remote_ep x) (app h)) = Ok ()"
    and "endpoint_to_proto (remote_ep x) = Ok epp" and "map_of (session_map h) epp = Some i" and "copy_packet msg = Ok c"
  shows "fst (thn (hub_send (remote_ep x) msg) (handle_event E (Header_done i True bytes rem)) h) = Ok () \<and>
    fst (thn (handle_event E (Header_done i True bytes rem)) (hub_send (remote_ep x) msg) h) = Ok () \<and>
    fst (bnd (find_session (remote_ep x)) (\<lambda>ite. thn (handle_event E (Header_done i True bytes rem))
      (use_session (remote_ep x) msg ite)) h) = Abort Undefined_behaviour"
proof -
  note ok = hub_okD(1) [OF hub_reach_ok [OF assms(1)]]
  have h: "h = at i x h" by (rule at_same [OF ok assms(2)])
  have found: "find_session (remote_ep x) h = (Ok (Some i), h)" using find_session_run [OF assms(5), of h] assms(6) by simp
  obtain n where n: "got_disconnected E (remote_ep x) (app h) = (Ok (), n)" using assms(4) by (metis prod.collapse)
  have gone: "handle_event E (Header_done i True bytes rem) h = (Ok (),
      h\<lparr>app := n, live := omap_erase i (live h), session_map := omap_erase epp (session_map h), orphans := orphans h\<rparr>)"
    (is "_ = (Ok (), ?gone)") using disconnect_run [OF assms(3) n assms(5), of i bytes rem, folded h] .
  have none: "map_of (session_map ?gone) epp = None" "map_of (live ?gone) i = None" by simp_all
  have "fst (hub_send (remote_ep x) msg ?gone) = Ok ()" using send_new_run [OF assms(5) none(1) assms(7)] by simp
  moreover have "use_session (remote_ep x) msg (Some i) ?gone = (Abort Undefined_behaviour, ?gone)"
    using none(2) by (simp add: use_session_def access_def)
  moreover have "fst (thn (hub_send (remote_ep x) msg) (handle_event E (Header_done i True bytes rem)) h) = Ok ()"
  proof -
    have free: "\<not> local_lock x" using assms(3) by (simp add: waits_for_header_def)
    define y where "y = x\<lparr>write_msgs := [c], ref_count := 3, awaiting := [Await_header, Await_write c]\<rparr>"
    have y: "\<not> local_lock y" "Await_header \<in> set (awaiting y)" "remote_ep y = remote_ep x" using free by (simp_all add: y_def)
    have "deliver msg x = (Ok (), y)" using deliver_run [OF free assms(7)] assms(3) by (simp add: waits_for_header_def y_def)
    then have send: "hub_send (remote_ep x) msg h = (Ok (), at i y h)"
      using found assms(2) by (simp add: hub_send_steps bnd_run use_session_def access_run at_def)
    obtain m where "got_disconnected E (remote_ep y) (app h) = (Ok (), m)"
      using assms(4) y(3) by (metis prod.collapse)
    note read_error_run [OF y(1,2) this refl, of i bytes rem]
    moreover define z where "z = y\<lparr>awaiting := [Await_write c], ref_count := 2, read_over := True\<rparr>"
    ultimately have "handle_event E (Header_done i True bytes rem) (at i y h) = release i (at i z (h\<lparr>app := m\<rparr>))"
      by (simp add: y_def)
    moreover have "fst (release i (at i z (h\<lparr>app := m\<rparr>))) = Ok ()"
      using y(1) by (subst release_at) (simp_all add: z_def)
    ultimately show ?thesis using send by (simp add: bnd_run del: handle_event.simps)
  qed
  ultimately show ?thesis using gone found by (simp add: bnd_run del: handle_event.simps)
qed

theorem sending_races_with_disconnecting_witness:
  "\<exists>h. hub_reach demo_env h \<and>
     fst (bnd (find_session (demo_tcp 80)) (\<lambda>ite. thn (handle_event demo_env (Header_done 0 True [] (Inl [])))
       (use_session (demo_tcp 80) demo_packet ite)) h) = Abort Undefined_behaviour"
proof -
  obtain x h where h: "hub_reach demo_env h" "map_of (live h) 0 = Some x" "waits_for_header x"
    "map_of (session_map h) = [Endpoint ''10.0.0.1'' (show_nat (unat (80 :: 16 word))) \<mapsto> 0]" "remote_ep x = demo_tcp 80"
    by (rule demo_connected)
  have "endpoint_to_proto (demo_tcp 80) = Ok (Endpoint ''10.0.0.1'' (show_nat (unat (80 :: 16 word))))"
    by (simp add: endpoint_to_proto_good demo_tcp_def)
  then have "fst (bnd (find_session (remote_ep x)) (\<lambda>ite. thn (handle_event demo_env (Header_done 0 True [] (Inl [])))
       (use_session (remote_ep x) demo_packet ite)) h) = Abort Undefined_behaviour"
    using sending_races_with_disconnecting [OF h(1-3) _ _ _ demo_copy] h(4,5) by (simp add: demo_env_def)
  with h(1,5) show ?thesis by auto
qed

end
