(* ===== verification/Session_Locks.thy ===== *)
theory Session_Locks
  imports Session_Properties
begin

text \<open>
  The order of the locks: the callbacks of the node, which wait for its lock, run with no lock of a session
  held.  The handlers that call the node are written again with a check before each call.
\<close>

section \<open>Handlers that check the locks\<close>

definition locks_free :: "'n hub \<Rightarrow> bool" where
  "locks_free h \<longleftrightarrow> list_all (\<lambda>e. \<not> local_lock (snd e)) (live h)"

text \<open>A thread that waits for the lock of the node with a lock of a session in hand is taken as deadlocked.\<close>

definition unheld :: "('n hub, 'a) cpp \<Rightarrow> ('n hub, 'a) cpp" where
  "unheld m = (\<lambda>h. if locks_free h then m h else (Abort Deadlock, h))"

definition checked_read_header ::
  "'n hub_env \<Rightarrow> nat \<Rightarrow> bool \<Rightarrow> string + tcp_endpoint \<Rightarrow> ('n hub, unit) cpp" where
  "checked_read_header E i error rem =
     thn (access i (thn lock_local (add_ref (- 1))))
    (try_std
      (bnd (if error then ret False else access i (on_read_msg decode_header)) (\<lambda>good.
         if good then
           thn (access i (own_endpoint rem))
          (bnd (access i (reads remote_ep)) (\<lambda>ep.
           bnd (lift_outcome (endpoint_to_proto ep)) (\<lambda>epp.
           thn (register i epp)
          (thn (access i (thn (add_ref 1)
                  (bnd (reads (\<lambda>x. body_size (read_msg x))) (\<lambda>n. await (Await_body n)))))
               (access i unlock_local)))))
         else throw_exn (Std_exception ''Error in handle_read_header : '')))
      (\<lambda>_.
         thn (access i unlock_local)
        (bnd (access i (reads remote_ep)) (\<lambda>ep.
         thn (unheld (\<lambda>h. case got_disconnected E ep (app h) of (r, n) \<Rightarrow> (r, h\<lparr>app := n\<rparr>)))
        (thn (note_read_over i)
             (release i))))))"

definition checked_read_body :: "'n hub_env \<Rightarrow> nat \<Rightarrow> bool \<Rightarrow> ('n hub, unit) cpp" where
  "checked_read_body E i error =
     thn (access i (thn lock_local (add_ref (- 1))))
    (if \<not> error then
       thn (access i unlock_local)
      (bnd (access i (reads (\<lambda>x. (remote_ep x, read_msg x)))) (\<lambda>(ep, m).
       bnd (unheld (\<lambda>h. case got_message E ep m (app h) of (r, n, out) \<Rightarrow> (Ok (r, out), h\<lparr>app := n\<rparr>))) (\<lambda>(r, out).
       thn (for_each (\<lambda>(uep, msg). hub_send uep msg) out)
      (thn (lift_outcome r)
      (thn (access i lock_local)
      (thn (access i (thn (add_ref 1) (await Await_header)))
           (access i unlock_local)))))))
     else
       thn (access i unlock_local)
      (thn (note_read_over i)
           (release i)))"

fun checked_event :: "'n hub_env \<Rightarrow> hub_event \<Rightarrow> ('n hub, unit) cpp" where
  "checked_event E (Header_done i error bytes rem) = (\<lambda>h.
     if awaits i (\<lambda>op. op = Await_header) h \<and> (error \<or> length bytes = header_length)
     then thn (done_op i (\<lambda>op. op = Await_header))
       (thn (fill_read_msg i 0 error bytes) (checked_read_header E i error rem)) h else (Ok (), h))"
| "checked_event E (Body_done i error bytes) = (\<lambda>h.
     if awaits i (\<lambda>op. is_body op \<and> (error \<or> op = Await_body (length bytes))) h
     then thn (done_op i is_body)
       (thn (fill_read_msg i header_length error bytes) (checked_read_body E i error)) h else (Ok (), h))"
| "checked_event E ev = handle_event E ev"

section \<open>The check never fails\<close>

lemma hub_ok_locks:
  assumes "hub_ok h"
  shows "locks_free h"
proof -
  have "\<not> local_lock x" if "(i, x) \<in> set (live h)" for i x
  proof -
    have "map_of (live h) i = Some x"
      using hub_okD(1) [OF assms] that by (simp add: omap_ok_def map_of_is_SomeI strict_sorted_iff)
    then show ?thesis using hub_okD(3) [OF assms] by (auto simp: session_ok_def)
  qed
  then show ?thesis by (auto simp: locks_free_def list_all_iff)
qed

lemma locks_free_at: "locks_free h \<Longrightarrow> \<not> local_lock x \<Longrightarrow> locks_free (at i x h)"
  using set_omap_put_subset [of i x "live h"] by (fastforce simp: locks_free_def list_all_iff)

lemma unheld_free: "locks_free h \<Longrightarrow> unheld m h = m h"
  by (simp add: unheld_def)

lemma checked_read_body_run:
  assumes "locks_free h" and "\<not> local_lock x"
  shows "checked_read_body E i error (at i x h) = handle_read_body E i error (at i x h)"
proof (cases error)
  case False
  have free: "locks_free (at i (x\<lparr>ref_count := ref_count x - 1\<rparr>) h)" using locks_free_at [OF assms(1)] assms(2) by simp
  from False show ?thesis
    by (simp add: unheld_free [OF free] checked_read_body_def handle_read_body_def enter_leave [OF assms(2)]
        bnd_run [of "access i (reads f)" for f] reads_run bnd_run [of "unheld m" for m])
      (simp add: bnd_run [of "\<lambda>h. case got_message E ep m (app h) of (r, n, out) \<Rightarrow> (Ok (r, out), h\<lparr>app := n\<rparr>)" for ep m])
qed (simp add: checked_read_body_def handle_read_body_def)

lemma checked_read_header_run:
  assumes "locks_free h" and "\<not> local_lock x"
  shows "checked_read_header E i error rem (at i x h) = handle_read_header E i error rem (at i x h)"
proof -
  define handler where "handler call = thn (access i unlock_local) (bnd (access i (reads remote_ep)) (\<lambda>ep.
      thn (call ep) (thn (note_read_over i) (release i))))" for call :: "tcp_endpoint \<Rightarrow> ('a hub, unit) cpp"
  define call where "call = (\<lambda>ep. \<lambda>h :: 'a hub. case got_disconnected E ep (app h) of (r, n) \<Rightarrow> (r, h\<lparr>app := n\<rparr>))"
  define z where "z = x\<lparr>local_lock := True, ref_count := ref_count x - 1\<rparr>"
  have enter: "access i (thn lock_local (add_ref (- 1))) (at i x h) = (Ok (), at i z h)"
    unfolding z_def by (rule enter_at [OF assms(2)])
  have plain: "handle_read_header E i error rem (at i x h) =
      try_std (bnd (check_header i error rem) (end_header i)) (\<lambda>_. handler call) (at i z h)"
    unfolding handle_read_header_alt handler_def call_def by (simp add: bnd_run enter del: access_at)
  have checked: "checked_read_header E i error rem (at i x h) =
      try_std (bnd (check_header i error rem) (end_header i)) (\<lambda>_. handler (\<lambda>ep. unheld (call ep))) (at i z h)"
    unfolding checked_read_header_def header_parts [symmetric] handler_def call_def by (simp add: bnd_run enter del: access_at)
  have same: "handler (\<lambda>ep. unheld (call ep)) (at i y h) = handler call (at i y h)" if "local_lock y" for y
  proof -
    have "locks_free (at i (y\<lparr>local_lock := False\<rparr>) h)" by (rule locks_free_at [OF assms(1)]) simp
    then show ?thesis using that by (simp add: handler_def bnd_run unlock_local_def reads_run unheld_free)
  qed
  show ?thesis
  proof (cases rule: check_header_at [of i error rem z h])
    case (abort f h')
    then show ?thesis unfolding plain checked by (simp add: try_std_run bnd_run)
  next
    case (good m ep epp)
    have "local_lock (z\<lparr>read_msg := m, remote_ep := ep\<rparr>)" by (simp add: z_def)
    from end_header_at [OF this, of i epp h] good show ?thesis
      unfolding plain checked by (auto simp: try_std_run bnd_run)
  next
    case (bad m ep msg)
    have "local_lock (z\<lparr>read_msg := m, remote_ep := ep\<rparr>)" by (simp add: z_def)
    from same [OF this] bad show ?thesis unfolding plain checked by (simp add: try_std_run bnd_run)
  qed
qed

section \<open>No session is locked\<close>

text \<open>
  The node is called with no session locked: whatever event comes next, the handlers with the check do
  what the handlers do, since a session unlocks itself before it calls the node, and no other session is
  locked.  A thread that waits for the lock of the node holds no lock of a session; the node sends with its
  lock held, so that the locks are always taken in the same order.
\<close>

lemma node_is_called_without_locks:
  assumes "hub_reach E h"
  shows "checked_event E ev h = handle_event E ev h"
proof -
  have ok: "hub_ok h" by (rule hub_reach_ok [OF assms])
  have free: "locks_free h" by (rule hub_ok_locks [OF ok])
  have lock: "\<not> local_lock x" if "map_of (live h) i = Some x" for i x
    using hub_okD(3) [OF ok that] by (simp add: session_ok_def)
  have step: "thn (done_op i p) (thn (fill_read_msg i k error bytes) m) h = thn (done_op i p) (thn (fill_read_msg i k error bytes) m') h"
    if aw: "awaits i q h" and same: "\<And>x. \<not> local_lock x \<Longrightarrow> m (at i x h) = m' (at i x h)" for i p q k error bytes and m m' :: "('a hub, unit) cpp"
  proof -
    obtain x where x: "h = at i x h" "map_of (live h) i = Some x"
      by (rule awaits_at [OF hub_okD(1) [OF ok] aw])
    obtain b where b: "fill_read_msg i k error bytes (at i (x\<lparr>awaiting := filter (\<lambda>op. \<not> p op) (awaiting x)\<rparr>) h) =
        (Ok (), at i (x\<lparr>awaiting := filter (\<lambda>op. \<not> p op) (awaiting x), read_msg := b\<rparr>) h)"
      using fill_read_msg_at [of i k error bytes "x\<lparr>awaiting := filter (\<lambda>op. \<not> p op) (awaiting x)\<rparr>" h] by auto
    have d: "done_op i p h = (Ok (), at i (x\<lparr>awaiting := filter (\<lambda>op. \<not> p op) (awaiting x)\<rparr>) h)"
      using done_op_at [of i p x h] x(1) [symmetric] by simp
    show ?thesis
      using same [of "x\<lparr>awaiting := filter (\<lambda>op. \<not> p op) (awaiting x), read_msg := b\<rparr>"] lock [OF x(2)]
      by (simp add: bnd_run d b)
  qed
  show ?thesis
  proof (cases ev)
    case (Header_done i error bytes rem)
    show ?thesis unfolding Header_done checked_event.simps handle_event.simps
      by (rule if_cong [OF refl _ refl], rule step, erule conjunct1) (rule checked_read_header_run [OF free])
  next
    case (Body_done i error bytes)
    show ?thesis unfolding Body_done checked_event.simps handle_event.simps
      by (rule if_cong [OF refl _ refl], rule step, assumption) (rule checked_read_body_run [OF free])
  qed simp_all
qed

lemma node_is_called_without_locks_example:
  "\<exists>h x. hub_reach demo_env h \<and> map_of (live h) 0 = Some x \<and> waits_for_header x \<and>
     checked_event demo_env (Header_done 0 True [] (Inl [])) h = handle_event demo_env (Header_done 0 True [] (Inl [])) h"
proof -
  obtain x h where "hub_reach demo_env h" "map_of (live h) 0 = Some x" "waits_for_header x" by (rule demo_connected)
  with node_is_called_without_locks show ?thesis by blast
qed

end
