(* ===== verification/Handshake.thy ===== *)
theory Handshake
  imports System
begin

text \<open>
  Two nodes: the ping one of them sends, the answer of the other, and what both know after it.
\<close>

section \<open>Packets that arrive\<close>

text \<open>The two reads in which the bytes of a packet arrive at a session, in order and complete.\<close>

definition arrival :: "nat \<Rightarrow> packet \<Rightarrow> string + tcp_endpoint \<Rightarrow> hub_event list" where
  "arrival i c rem =
     [Header_done i False (map the (take header_length (packet_data c))) rem,
      Body_done i False (map the (drop header_length (packet_data c)))]"

lemma arrival_message:
  assumes "message_packet lp s = Ok c" and "length s \<le> max_body_length"
  shows "arrival i c rem = [Header_done i False (peer_header (length s) lp) rem, Body_done i False s]"
proof -
  have "packet_data c = map Some (peer_header (length s) lp) @ map Some s"
    using assms(1) unfolding message_packet_data [OF assms(2)] by (auto simp: peer_header_def pad8_def)
  moreover have "length (peer_header (length s) lp) = header_length"
    using peer_header_parts(1) [OF assms(2)] peer_header_parts(2) [of lp] by (simp add: peer_header_def header_length_def)
  ultimately show ?thesis by (simp add: arrival_def comp_def)
qed

lemma events_reach:
  assumes "system_reach P h" and "\<And>ev. ev \<in> set evs \<Longrightarrow> network_event ev"
    and "for_each (handle_event (node_env P)) evs h = (Ok (), h')"
  shows "system_reach P h'"
  using assms
proof (induction evs arbitrary: h)
  case (Cons ev evs)
  from Cons.prems(3) obtain h1 where h1: "handle_event (node_env P) ev h = (Ok (), h1)"
    "for_each (handle_event (node_env P)) evs h1 = (Ok (), h')"
    by (cases "handle_event (node_env P) ev h") (auto simp: bnd_run split: outcome.splits)
  from system_reach.network [OF Cons.prems(1) _ h1(1)] Cons.prems(2) have "system_reach P h1" by simp
  from Cons.IH [OF this _ h1(2)] Cons.prems(2) show ?case by simp
qed (simp add: ret_run)

section \<open>The node that pings\<close>

text \<open>A ping to an endpoint: the time is noted, and one packet leaves.\<close>

lemma ping_call_run:
  assumes "\<not> giant_lock s" and "ip_text ep \<noteq> []" and "epp = Endpoint (ip_text ep) (show_nat (unat (ip_port ep)))"
    and "\<And>n. resolve P n epp = Inr ep"
    and "message_packet (listen_port s) (serialize P (new_message SEND_PING (node_id s) t)) = Ok c"
  shows "\<exists>s'. run_node (run_call P (Call_ping_endpoint epp t)) s = (Ok (), s', [(ep, c)]) \<and>
    map_of (ping_ttl s') t = Some (clock_at P (clock_reads s)) \<and> clock_reads s' = Suc (clock_reads s) \<and>
    contacts s' = contacts s \<and> node_id s' = node_id s \<and> listen_port s' = listen_port s"
proof -
  define s0 where "s0 = s\<lparr>sessions := [], outbox := []\<rparr>"
  define s1 where "s1 = s0\<lparr>giant_lock := True, clock_reads := Suc (clock_reads s),
      ping_ttl := omap_put t (clock_at P (clock_reads s)) (ping_ttl s)\<rparr>"
  define s2 where "s2 = s1\<lparr>lookups := Suc (lookups s), outbox := [Connect (next_session s) ep, Deliver (next_session s) c],
    next_session := Suc (next_session s)\<rparr>"
  have epp: "endpoint_to_proto ep = Ok epp" "address epp \<noteq> []" "port epp \<noteq> []"
    using assms(2,3) by (simp_all add: endpoint_to_proto_good)
  have s1: "sessions s1 = []" "outbox s1 = []" "listen_port s1 = listen_port s" "lookups s1 = lookups s"
    "next_session s1 = next_session s" "node_id s1 = node_id s"
    by (simp_all add: s1_def s0_def)
  have "send_to P (new_message SEND_PING (node_id s) t) epp s1 = (Ok (), s2)"
    using epp assms(4,5) s1
    by (simp add: send_to_def bnd_run assert_run swallow_def try_std_run proto_to_endpoint_def lift_outcome_run reads_run
        deliver_packet_def emit_def writes_run s2_def)
  moreover have "thn (set_ping_ttl t (clock_at P (clock_reads s))) (bnd (reads node_id) k)
      (s0\<lparr>giant_lock := True, clock_reads := Suc (clock_reads s)\<rparr>) = k (node_id s) s1" for k :: "key_text \<Rightarrow> (node, unit) cpp"
    by (cases s) (simp add: set_ping_ttl_def bnd_run writes_run reads_run s1_def s0_def)
  ultimately have "send_PING_endpoint P epp t (s0\<lparr>giant_lock := True\<rparr>) = (Ok (), s2)"
    using epp by (simp add: send_PING_endpoint_def bnd_run [of "assert_cpp b" for b] assert_run swallow_def try_std_run
        update_time_bnd) (simp add: s0_def)
  then have "run_call P (Call_ping_endpoint epp t) s0 = (Ok (), s2\<lparr>giant_lock := False\<rparr>)"
    using epp(2,3) assms(1)
    by (simp add: send_PING_to_endpoint_def bnd_run [of "assert_cpp b" for b] assert_run locked_try_def scoped_def
        lock_giant_def unlock_giant_def try_std_run) (simp add: s0_def s2_def s1_def)
  then have "run_node (run_call P (Call_ping_endpoint epp t)) s = (Ok (), s2\<lparr>giant_lock := False\<rparr>, [(ep, c)])"
    by (simp add: run_node_def s0_def s2_def del: run_call.simps)
  then show ?thesis
    by (intro exI [of _ "s2\<lparr>giant_lock := False\<rparr>"]) (simp add: s2_def s1_def s0_def)
qed

text \<open>The answer to a ping enters its sender, with the endpoint it came from.\<close>

lemma pong_run:
  assumes "node_ok s" and "unlocked s" and "outbox s = []" and "ip_text ep \<noteq> []"
    and "type_of (parse P body) = REPLY_PING" and "from_id (parse P body) \<noteq> node_id s"
    and "map_of (ping_ttl s) (token_of (parse P body)) = Some sent" and "sent \<le> clock_at P (clock_reads s)"
    and "mm_count (bucket_common (contacts s) (from_id (parse P body))) (entries (contacts s)) < BUCKET_SIZE"
  shows "\<exists>s'. handle_receive P ep body s = (Ok (), s') \<and> outbox s' = [] \<and>
    bucket_at (contacts s') (from_id (parse P body)) = Ok (Endpoint (ip_text ep) (show_nat (unat (ip_port ep))))"
proof -
  define m where "m = parse P body"
  define epp where "epp = Endpoint (ip_text ep) (show_nat (unat (ip_port ep)))"
  have epp: "endpoint_to_proto ep = Ok epp" "good_ep epp"
    using assms(4) by (simp_all add: endpoint_to_proto_good epp_def good_ep_def)
  define s1 where "s1 = s\<lparr>giant_lock := True, sender_endpoint := ep, clock_reads := Suc (clock_reads s)\<rparr>"
  have b: "bucket_ok (contacts s1)" "bucket.local_key (contacts s1) = node_id s"
    using assms(1) by (simp_all add: node_ok_def s1_def)
  have own: "bucket.local_key (contacts s1) \<noteq> from_id m" using assms(6) b(2) by (simp add: m_def)
  have room: "mm_count (bucket_common (contacts s1) (from_id m)) (entries (contacts s1)) < BUCKET_SIZE"
    using assms(9) by (simp add: s1_def m_def)
  obtain b' where enter: "add_contact_now P (from_id m) epp s1 = (Ok (), s1\<lparr>clock_reads := Suc (clock_reads s1), contacts := b'\<rparr>)"
    and b': "bucket_at b' (from_id m) = Ok epp"
    by (rule add_contact_now_run [OF b(1) own epp(2) room])
  define s2 where "s2 = s1\<lparr>clock_reads := Suc (clock_reads s1), contacts := b'\<rparr>"
  define s3 where "s3 = s2\<lparr>ping_ttl := omap_erase (token_of m) (ping_ttl s)\<rparr>"
  have "handle_REPLY_PING P m (s\<lparr>giant_lock := True, sender_endpoint := ep\<rparr>) = (Ok (), s3)"
  proof -
    define inner where "inner = bnd (reads sender_endpoint) (\<lambda>sep. bnd (lift_outcome (endpoint_to_proto sep))
        (\<lambda>epp. add_contact_now P (from_id m) epp))"
    have inner: "inner s1 = (Ok (), s2)"
      using epp(1) enter by (simp add: inner_def bnd_run reads_run lift_outcome_run s2_def) (simp add: s1_def)
    have sent: "map_of (ping_ttl (s\<lparr>giant_lock := True, sender_endpoint := ep\<rparr>)) (token_of m) = Some sent"
      "sent - clock_at P (clock_reads s) < minutes 1"
      using assms(7) late_ping [OF assms(8)] by (simp_all add: m_def)
    have s1: "s1 = s\<lparr>giant_lock := True, sender_endpoint := ep\<rparr>\<lparr>clock_reads := Suc (clock_reads s)\<rparr>"
      by (simp add: s1_def)
    have "writes (\<lambda>s. s\<lparr>ping_ttl := omap_erase (token_of m) (ping_ttl s)\<rparr>) s2 = (Ok (), s3)"
      by (simp add: writes_run s3_def s2_def s1_def)
    with inner have "thn inner (writes (\<lambda>s. s\<lparr>ping_ttl := omap_erase (token_of m) (ping_ttl s)\<rparr>)) s1 = (Ok (), s3)"
      by (simp add: bnd_run [of inner])
    moreover have "handle_REPLY_PING P m (s\<lparr>giant_lock := True, sender_endpoint := ep\<rparr>) =
        thn inner (writes (\<lambda>s. s\<lparr>ping_ttl := omap_erase (token_of m) (ping_ttl s)\<rparr>)) s1"
      using sent unfolding handle_REPLY_PING_def inner_def [symmetric] Let_def
      by (simp add: bnd_run [of "reads f" for f] reads_run update_time_bnd s1)
    ultimately show ?thesis by simp
  qed
  then have "receive_body P ep body (s\<lparr>giant_lock := True\<rparr>) = (Ok (), s3)"
    using receive_body_run [OF assms(4), of P body "s\<lparr>giant_lock := True\<rparr>"] assms(5)
    by (simp add: m_def handle_message_from_def is_request_def is_reply_def handle_message_def)
  then have "handle_receive P ep body s = (Ok (), s3\<lparr>giant_lock := False\<rparr>)"
    using receive_free_run [of s P ep body] assms(2) by simp
  then show ?thesis
    using assms(3) b' by (intro exI [of _ "s3\<lparr>giant_lock := False\<rparr>"]) (simp add: s3_def s2_def s1_def m_def epp_def)
qed

section \<open>The sessions\<close>

definition pinging :: "tcp_endpoint \<Rightarrow> packet \<Rightarrow> peer_session" where
  "pinging ep c = new_session\<lparr>connected := True, remote_ep := ep, ref_count := 3, write_msgs := [c],
     awaiting := [Await_connect, Await_write c]\<rparr>"

lemma ping_leaves:
  assumes "system_ok h" and "ip_text ep \<noteq> []" and "epp = Endpoint (ip_text ep) (show_nat (unat (ip_port ep)))"
    and "\<And>n. resolve P n epp = Inr ep" and "map_of (session_map h) epp = None"
    and "message_packet (listen_port (app h)) (serialize P (new_message SEND_PING (node_id (app h)) t)) = Ok c"
    and "length (serialize P (new_message SEND_PING (node_id (app h)) t)) \<le> max_body_length"
  shows "\<exists>s. node_acts P (Call_ping_endpoint epp t) h =
      (Ok (), at (next_object h) (pinging ep c) (h\<lparr>app := s, next_object := Suc (next_object h)\<rparr>)) \<and>
    map_of (ping_ttl s) t = Some (clock_at P (clock_reads (app h))) \<and> clock_reads s = Suc (clock_reads (app h)) \<and>
    contacts s = contacts (app h) \<and> node_id s = node_id (app h) \<and> listen_port s = listen_port (app h)"
proof -
  have "\<not> giant_lock (app h)" using assms(1) by (simp add: system_ok_def)
  from ping_call_run [OF this assms(2,3,4,6)] obtain s where
    s: "run_node (run_call P (Call_ping_endpoint epp t)) (app h) = (Ok (), s, [(ep, c)])"
    "map_of (ping_ttl s) t = Some (clock_at P (clock_reads (app h)))" "clock_reads s = Suc (clock_reads (app h))"
    "contacts s = contacts (app h)" "node_id s = node_id (app h)" "listen_port s = listen_port (app h)" by blast
  have epp: "endpoint_to_proto ep = Ok epp" using assms(2,3) by (simp add: endpoint_to_proto_good)
  have none: "map_of (session_map (h\<lparr>app := s\<rparr>)) epp = None" using assms(5) by simp
  note send = send_new_run [OF epp none copy_message_packet [OF assms(6,7)], folded pinging_def]
  have "node_acts P (Call_ping_endpoint epp t) h =
      (Ok (), at (next_object h) (pinging ep c) (h\<lparr>app := s, next_object := Suc (next_object h)\<rparr>))"
    using s(1) send by (simp add: node_acts_def send_all_def bnd_run ret_run lift_outcome_run del: run_call.simps)
  with s(2-6) show ?thesis by blast
qed

lemma connect_done_run:
  assumes "\<not> local_lock x" and "connected x" and "Await_connect \<in> set (awaiting x)"
  shows "handle_event E (Connect_done i False rem) (at i x h) =
    (Ok (), at i (x\<lparr>awaiting := filter (\<lambda>op. op \<noteq> Await_connect) (awaiting x) @ [Await_header]\<rparr>) h)"
proof -
  define x1 where "x1 = x\<lparr>awaiting := filter (\<lambda>op. op \<noteq> Await_connect) (awaiting x), ref_count := ref_count x - 1\<rparr>"
  have "start rem x1 = (Ok (), x\<lparr>awaiting := filter (\<lambda>op. op \<noteq> Await_connect) (awaiting x) @ [Await_header]\<rparr>)"
    using assms(1,2) by (subst start_run) (cases x, simp_all add: x1_def)
  moreover have "access i (thn lock_local (add_ref (- 1)))
      (at i (x\<lparr>awaiting := filter (\<lambda>op. op \<noteq> Await_connect) (awaiting x)\<rparr>) h) = (Ok (), at i (x1\<lparr>local_lock := True\<rparr>) h)"
    using enter_at [of "x\<lparr>awaiting := filter (\<lambda>op. op \<noteq> Await_connect) (awaiting x)\<rparr>"] assms(1)
    by (cases x) (simp add: x1_def)
  moreover have "access i unlock_local (at i (x1\<lparr>local_lock := True\<rparr>) h) = (Ok (), at i x1 h)"
    using assms(1) by (cases x) (simp add: unlock_local_def x1_def)
  ultimately show ?thesis
    using assms(3) by (simp add: awaits_def handle_connect_def done_op_at bnd_run [of "done_op i p" for p]
        bnd_run [of "access i m" for m] del: access_at) simp
qed

text \<open>The answer arrives at the session the ping opened.\<close>

lemma pong_arrives:
  assumes "h = at j (pinging ep c) h0" and "system_ok h" and "ip_text ep \<noteq> []"
    and "epp = Endpoint (ip_text ep) (show_nat (unat (ip_port ep)))" and "length body \<le> max_body_length"
    and "message_packet lp body = Ok c'"
    and "type_of (parse P body) = REPLY_PING" and "from_id (parse P body) \<noteq> node_id (app h)"
    and "map_of (ping_ttl (app h)) (token_of (parse P body)) = Some sent" and "sent \<le> clock_at P (clock_reads (app h))"
    and "mm_count (bucket_common (contacts (app h)) (from_id (parse P body))) (entries (contacts (app h))) < BUCKET_SIZE"
  shows "\<exists>h'. for_each (handle_event (node_env P)) (Connect_done j False rem # arrival j c' rem) h = (Ok (), h') \<and>
    bucket_at (contacts (app h')) (from_id (parse P body)) = Ok epp"
proof -
  let ?E = "node_env P"
  define s where "s = (app h)\<lparr>sessions := [], outbox := []\<rparr>"
  define x where "x = (pinging ep c)\<lparr>awaiting := [Await_write c, Await_header]\<rparr>"
  have app: "app h0 = app h" using assms(1) by simp
  have 1: "handle_event ?E (Connect_done j False rem) h = (Ok (), at j x h0)"
    unfolding assms(1) by (subst connect_done_run) (simp_all add: pinging_def x_def new_session_def)
  have x: "\<not> local_lock x" "Await_header \<in> set (awaiting x)" "connected x" "remote_ep x = ep"
    by (simp_all add: x_def pinging_def new_session_def)
  define y where "y = x\<lparr>awaiting := [Await_write c, Await_body (length body)], remote_ep := ep,
      read_msg := (fill_at 0 (peer_header (length body) lp) (read_msg x))\<lparr>body_size := length body, packet_port := lp\<rparr>\<rparr>"
  from header_exact_run [OF x(1,2) disjI1 [OF x(3)] _ assms(3) assms(4,5), of undefined lp ?E j rem h0] x(3,4)
  obtain m where 2: "handle_event ?E (Header_done j False (peer_header (length body) lp) rem) (at j x h0) =
      (Ok (), at j y (h0\<lparr>session_map := m\<rparr>))"
    by (auto simp: y_def x_def simp del: handle_event.simps)
  have ok: "node_ok s" "unlocked s" using assms(2) by (simp_all add: system_ok_def s_def)
  obtain s' where s': "handle_receive P ep body s = (Ok (), s')" "outbox s' = []"
    "bucket_at (contacts s') (from_id (parse P body)) = Ok epp"
    using pong_run [OF ok _ assms(3,7) _ _, of sent] assms(4,8-11) by (auto simp: s_def)
  have y: "\<not> local_lock y" "Await_body (length body) \<in> set (awaiting y)" "remote_ep y = ep"
    using x(1) by (simp_all add: y_def)
  have "body_size (read_msg y) = length body" "header_length \<le> length (packet_data (read_msg y))"
    by (simp_all add: y_def fill_at_def peer_header_def peer_header_parts(1) [OF assms(5)] peer_header_parts(2) header_length_def)
  from filled_packet_text [OF this]
  have got: "got_message ?E (remote_ep y) (fill_at header_length body (read_msg y)) (app (h0\<lparr>session_map := m\<rparr>)) = (Ok (), s', [])"
    using s'(1,2) app y(3) by (simp add: node_env_def run_node_def bnd_run lift_outcome_run s_def)
  define z where "z = y\<lparr>awaiting := filter (\<lambda>op. \<not> is_body op) (awaiting y), ref_count := ref_count y - 1,
      read_msg := fill_at header_length body (read_msg y)\<rparr>"
  have z: "\<not> local_lock z" using y(1) by (simp add: z_def)
  have 3: "handle_event ?E (Body_done j False body) (at j y (h0\<lparr>session_map := m\<rparr>)) =
      (Ok (), at j (z\<lparr>ref_count := ref_count z + 1, awaiting := awaiting z @ [Await_header]\<rparr>) (h0\<lparr>session_map := m, app := s'\<rparr>))"
    by (rule body_run [OF y(1,2) got z_def _ z]) (simp add: ret_run)
  have "\<exists>w. for_each (handle_event ?E) (Connect_done j False rem # arrival j c' rem) h =
      (Ok (), at j w (h0\<lparr>session_map := m, app := s'\<rparr>))"
    unfolding arrival_message [OF assms(6,5)] using 1 2 3
    by (simp add: bnd_run ret_run del: handle_event.simps) blast
  with s'(3) show ?thesis by auto
qed

text \<open>The ping arrives at the node that accepts its connection.\<close>

lemma ping_arrives:
  assumes "system_reach P h" and "acceptor h = Some i" and "map_of (live h) i = Some new_session" and "i < next_object h"
    and "ip_text r \<noteq> []" and "epp = Endpoint (ip_text r) (show_nat (unat lp))"
    and "\<And>n. resolve P n epp = Inr \<lparr>ip_text = ip_text r, ip_port = lp\<rparr>"
    and "length body \<le> max_body_length" and "message_packet lp body = Ok c"
    and "type_of (parse P body) = SEND_PING" and "from_id (parse P body) \<noteq> node_id (app h)"
    and "from_id (parse P body) \<noteq> zero_key_text"
    and "mm_count (bucket_common (contacts (app h)) (from_id (parse P body))) (entries (contacts (app h))) < BUCKET_SIZE"
    and "length (serialize P (ping_answer (app h) (parse P body))) \<le> max_body_length"
  shows "\<exists>h' y c'. for_each (handle_event (node_env P)) (Accepted False (Inr r) # arrival i c (Inr r)) h = (Ok (), h') \<and>
    map_of (live h') i = Some y \<and> c' \<in> set (packet_log y) \<and>
    message_packet (listen_port (app h)) (serialize P (ping_answer (app h) (parse P body))) = Ok c' \<and>
    bucket_at (contacts (app h')) (from_id (parse P body)) = Ok epp"
proof -
  let ?E = "node_env P" and ?ep = "\<lparr>ip_text = ip_text r, ip_port = lp\<rparr>"
  from accepted_run [OF assms(2-4), of ?E r] obtain x h1 where
    1: "handle_event ?E (Accepted False (Inr r)) h = (Ok (), h1)" "map_of (live h1) i = Some x" "waits_for_header x"
      "app h1 = app h" by blast
  have r1: "system_reach P h1" by (rule system_reach.network [OF assms(1) _ 1(1)]) (simp_all add: network_event_def)
  have "hub_ok h1" using system_reach_ok [OF r1] by (simp add: system_ok_def)
  then have h1: "h1 = at i x h1" by (rule at_same [OF hub_okD(1) 1(2)])
  from header_run [OF 1(3) assms(5,6,8), of ?E i h1, folded h1] obtain y m where
    2: "handle_event ?E (Header_done i False (peer_header (length body) lp) (Inr r)) h1 = (Ok (), at i y (h1\<lparr>session_map := m\<rparr>))"
      "map_of m = (map_of (session_map h1))(epp \<mapsto> i)" "awaiting y = [Await_body (length body)]" "remote_ep y = ?ep" by blast
  define h2 where "h2 = at i y (h1\<lparr>session_map := m\<rparr>)"
  have r2: "system_reach P h2" unfolding h2_def
    by (rule system_reach.network [OF r1 _ 2(1)]) (simp_all add: network_event_def)
  have h2: "map_of (live h2) i = Some y" "map_of (session_map h2) epp = Some i" "app h2 = app h"
    using 2(2) 1(4) by (simp_all add: h2_def)
  have y: "Await_body (length body) \<in> set (awaiting y)" "ip_text (remote_ep y) \<noteq> []"
    "epp = Endpoint (ip_text (remote_ep y)) (show_nat (unat (ip_port (remote_ep y))))" "\<And>n. resolve P n epp = Inr (remote_ep y)"
    using 2(3,4) assms(5-7) by simp_all
  from ping_answered_run [OF system_reach_ok [OF r2] h2(1) y(1-3) h2(2) y(4) assms(10), unfolded h2(3), OF assms(11-14)]
  obtain h' z c' where 3: "handle_event ?E (Body_done i False body) h2 = (Ok (), h')" "map_of (live h') i = Some z"
    "packet_log z = packet_log y @ [c']"
    "message_packet (listen_port (app h)) (serialize P (ping_answer (app h) (parse P body))) = Ok c'"
    "bucket_at (contacts (app h')) (from_id (parse P body)) = Ok epp" by blast
  have "for_each (handle_event ?E) (Accepted False (Inr r) # arrival i c (Inr r)) h = (Ok (), h')"
    unfolding arrival_message [OF assms(9,8)] using 1(1) 2(1) 3(1) unfolding h2_def
    by (simp add: bnd_run ret_run del: handle_event.simps)
  with 3 show ?thesis by (intro exI [of _ h'] exI [of _ z] exI [of _ c']) simp
qed

section \<open>Two nodes that have just started\<close>

text \<open>A wire format for their messages: one letter and the key of the sender.\<close>

definition pair_parse :: "string \<Rightarrow> message_proto" where
  "pair_parse body = (if take 1 body = ''p'' then new_message SEND_PING (drop 1 body) 7
     else (new_message REPLY_PING (drop 1 body) 7)\<lparr>to_id_opt := Some (key_to_string 1)\<rparr>)"

definition pair_platform :: platform where
  "pair_platform = demo_platform\<lparr>parse := pair_parse,
     serialize := (\<lambda>m. (if type_of m = SEND_PING then CHR ''p'' else CHR ''q'') # from_id m)\<rparr>"

lemma pair_format: "from_id (parse pair_platform (serialize pair_platform m)) = from_id m"
  by (simp add: pair_platform_def pair_parse_def new_message_def)

definition pair_start :: "key \<Rightarrow> node" where
  "pair_start k = snd (start_node pair_platform k [] 80 10)"

lemma pair_start_runs: "fst (start_node pair_platform k [] 80 10) = Ok ()"
  by (simp add: pair_platform_def demo_run_simps)

lemma pair_start_state: "contacts (pair_start k) = new_bucket (key_to_string k)" "node_id (pair_start k) = key_to_string k"
  "listen_port (pair_start k) = 80" "outbox (pair_start k) = []"
  by (simp_all add: pair_start_def pair_platform_def demo_run_simps)

lemma pair_system: "system_reach pair_platform (fresh_hub (pair_start k))"
proof -
  have "start_node pair_platform k [] 80 10 = (Ok (), pair_start k)"
    using pair_start_runs by (simp add: pair_start_def prod_eq_iff)
  moreover have "send_all (sends_of (outbox (pair_start k))) (fresh_hub (pair_start k)) = (Ok (), fresh_hub (pair_start k))"
    by (simp add: pair_start_state send_all_def ret_run)
  ultimately show ?thesis by (rule system_reach.boot) simp
qed

lemma pair_keys: "key_to_string 1 \<noteq> key_to_string 2" "key_to_string 1 \<noteq> zero_key_text"
  unfolding zero_key_text_def by code_simp+

section \<open>Properties\<close>

text \<open>
  C6 (a ping introduces two nodes to each other): a node A pings the endpoint of a node B it has no session
  for; the packet that leaves A arrives at B, which accepts the connection; the packet B answers with
  arrives at A.  Then each is in the contact table of the other: A at its address and the port it listens
  on, B at the endpoint A pinged.  The wire format is that of protocol buffers: the two messages are read
  as they were written.
\<close>

theorem ping_introduces_two_nodes:
  fixes A B :: platform and hA hB :: "node hub"
  assumes ping: "ping = new_message SEND_PING (node_id (app hA)) t"
    and pong: "pong = (new_message REPLY_PING (node_id (app hB)) t)\<lparr>to_id_opt := Some (node_id (app hA))\<rparr>"
    and reach: "system_reach A hA" "system_reach B hB"
    and parse: "parse B (serialize A ping) = ping" "parse A (serialize B pong) = pong"
    and lengths: "length (serialize A ping) \<le> max_body_length" "length (serialize B pong) \<le> max_body_length"
    and ids: "node_id (app hA) \<noteq> node_id (app hB)" "node_id (app hA) \<noteq> zero_key_text"
    and room_A: "mm_count (bucket_common (contacts (app hA)) (node_id (app hB))) (entries (contacts (app hA))) < BUCKET_SIZE"
    and room_B: "mm_count (bucket_common (contacts (app hB)) (node_id (app hA))) (entries (contacts (app hB))) < BUCKET_SIZE"
    and to: "ip_text tB \<noteq> []" "epB = Endpoint (ip_text tB) (show_nat (unat (ip_port tB)))" "\<And>n. resolve A n epB = Inr tB"
      "map_of (session_map hA) epB = None"
    and seen: "ip_text r \<noteq> []" "epA = Endpoint (ip_text r) (show_nat (unat (listen_port (app hA))))"
      "\<And>n. resolve B n epA = Inr \<lparr>ip_text = ip_text r, ip_port = listen_port (app hA)\<rparr>"
    and accepts: "acceptor hB = Some i" "map_of (live hB) i = Some new_session" "i < next_object hB"
    and clock: "\<And>n. clock_at A n \<le> clock_at A (Suc n)"
  shows "\<exists>hA1 hA2 hB1 x y c c'. node_acts A (Call_ping_endpoint epB t) hA = (Ok (), hA1) \<and>
    map_of (live hA1) (next_object hA) = Some x \<and> packet_log x = [c] \<and>
    for_each (handle_event (node_env B)) (Accepted False (Inr r) # arrival i c (Inr r)) hB = (Ok (), hB1) \<and>
    map_of (live hB1) i = Some y \<and> c' \<in> set (packet_log y) \<and>
    for_each (handle_event (node_env A)) (Connect_done (next_object hA) False rem # arrival (next_object hA) c' rem) hA1 = (Ok (), hA2) \<and>
    bucket_at (contacts (app hB1)) (node_id (app hA)) = Ok epA \<and>
    bucket_at (contacts (app hA2)) (node_id (app hB)) = Ok epB"
proof -
  let ?j = "next_object hA"
  obtain c where c: "message_packet (listen_port (app hA)) (serialize A ping) = Ok c"
    using message_packet_data [OF lengths(1)] by blast
  have fields: "type_of ping = SEND_PING" "from_id ping = node_id (app hA)" "type_of pong = REPLY_PING"
    "from_id pong = node_id (app hB)" "token_of pong = t" "ping_answer (app hB) ping = pong"
    by (simp_all add: ping pong ping_answer_def new_message_def)
  from ping_leaves [OF system_reach_ok [OF reach(1)] to(1-4), where t = t, folded ping, OF c lengths(1)] obtain s where
    s: "node_acts A (Call_ping_endpoint epB t) hA = (Ok (), at ?j (pinging tB c) (hA\<lparr>app := s, next_object := Suc ?j\<rparr>))"
    "map_of (ping_ttl s) t = Some (clock_at A (clock_reads (app hA)))" "clock_reads s = Suc (clock_reads (app hA))"
    "contacts s = contacts (app hA)" "node_id s = node_id (app hA)" by blast
  define hA1 where "hA1 = at ?j (pinging tB c) (hA\<lparr>app := s, next_object := Suc ?j\<rparr>)"
  have ok: "system_ok hA1" using call_keeps_system [OF system_reach_ok [OF reach(1)] s(1)] by (simp add: hA1_def)
  have app: "app hA1 = s" by (simp add: hA1_def)
  from ping_arrives [OF reach(2) accepts seen lengths(1) c, unfolded parse(1) fields, OF refl ids room_B lengths(2)]
  obtain hB1 y c' where B: "for_each (handle_event (node_env B)) (Accepted False (Inr r) # arrival i c (Inr r)) hB = (Ok (), hB1)"
    "map_of (live hB1) i = Some y" "c' \<in> set (packet_log y)"
    "message_packet (listen_port (app hB)) (serialize B pong) = Ok c'"
    "bucket_at (contacts (app hB1)) (node_id (app hA)) = Ok epA" by blast
  from pong_arrives [OF hA1_def ok to(1,2) lengths(2) B(4), of A, unfolded parse(2) fields app s(2-5), OF refl _ refl clock room_A]
    ids(1) obtain hA2 where
    "for_each (handle_event (node_env A)) (Connect_done ?j False rem # arrival ?j c' rem) hA1 = (Ok (), hA2)"
    "bucket_at (contacts (app hA2)) (node_id (app hB)) = Ok epB" by metis
  moreover have "map_of (live hA1) ?j = Some (pinging tB c)" "packet_log (pinging tB c) = [c]"
    by (simp_all add: hA1_def pinging_def packet_log_def new_session_def)
  ultimately show ?thesis using s(1) B(1,2,3,5) unfolding hA1_def [symmetric] by blast
qed

theorem ping_introduces_two_nodes_witness:
  "\<exists>hA hB. system_reach pair_platform hA \<and> system_reach pair_platform hB \<and>
     bucket_at (contacts (app hB)) (key_to_string 1) = Ok (Endpoint ''a'' (show_nat 80)) \<and>
     bucket_at (contacts (app hA)) (key_to_string 2) = Ok (Endpoint ''b'' (show_nat 80))"
proof -
  let ?hA = "fresh_hub (pair_start 1)" and ?hB = "fresh_hub (pair_start 2)"
  let ?ping = "new_message SEND_PING (node_id (app ?hA)) 7"
  let ?pong = "(new_message REPLY_PING (node_id (app ?hB)) 7)\<lparr>to_id_opt := Some (node_id (app ?hA))\<rparr>"
  let ?tB = "\<lparr>ip_text = ''b'', ip_port = 80\<rparr>" and ?r = "\<lparr>ip_text = ''a'', ip_port = 9\<rparr>"
  let ?epB = "Endpoint ''b'' (show_nat (unat (80 :: 16 word)))" and ?epA = "Endpoint ''a'' (show_nat (unat (80 :: 16 word)))"
  have app [simp]: "app (fresh_hub s) = s" for s :: node
    by (simp add: fresh_hub_def start_accept_def make_session_def bnd_run writes_run)
  have wire: "parse pair_platform (serialize pair_platform ?ping) = ?ping" "parse pair_platform (serialize pair_platform ?pong) = ?pong"
    "length (serialize pair_platform ?ping) \<le> max_body_length" "length (serialize pair_platform ?pong) \<le> max_body_length"
    by (simp_all add: pair_platform_def pair_parse_def new_message_def pair_start_state length_key_to_string
        max_body_length_def PACKET_SIZE_def header_length_def)
  have room: "mm_count n (entries (contacts (pair_start k))) < BUCKET_SIZE" for n k
    by (simp add: pair_start_state new_bucket_def mm_count_def BUCKET_SIZE_def)
  have ids: "node_id (app ?hA) \<noteq> node_id (app ?hB)" "node_id (app ?hA) \<noteq> zero_key_text"
    using pair_keys by (simp_all add: pair_start_state)
  have net: "ip_text ?tB \<noteq> []" "?epB = Endpoint (ip_text ?tB) (show_nat (unat (ip_port ?tB)))" "\<And>n. resolve pair_platform n ?epB = Inr ?tB"
      "map_of (session_map ?hA) ?epB = None" "ip_text ?r \<noteq> []" "?epA = Endpoint (ip_text ?r) (show_nat (unat (listen_port (app ?hA))))"
      "\<And>n. resolve pair_platform n ?epA = Inr \<lparr>ip_text = ip_text ?r, ip_port = listen_port (app ?hA)\<rparr>"
    by (simp_all add: pair_platform_def demo_platform_simps fresh_acceptor pair_start_state)
  have less: "(0 :: nat) < next_object ?hB" by (simp add: fresh_acceptor)
  have clock: "clock_at pair_platform n \<le> clock_at pair_platform (Suc n)" for n
    by (simp add: pair_platform_def demo_platform_simps)
  obtain hA1 hA2 hB1 x y c c' where run: "node_acts pair_platform (Call_ping_endpoint ?epB 7) ?hA = (Ok (), hA1)"
    "for_each (handle_event (node_env pair_platform)) (Accepted False (Inr ?r) # arrival 0 c (Inr ?r)) ?hB = (Ok (), hB1)"
    "for_each (handle_event (node_env pair_platform)) (Connect_done (next_object ?hA) False (Inl []) #
        arrival (next_object ?hA) c' (Inl [])) hA1 = (Ok (), hA2)"
    and known: "bucket_at (contacts (app hB1)) (node_id (app ?hA)) = Ok ?epA" "bucket_at (contacts (app hA2)) (node_id (app ?hB)) = Ok ?epB"
    using ping_introduces_two_nodes [OF refl refl pair_system pair_system wire ids _ _ net fresh_acceptor(1,2) less clock, of "Inl []"]
      room by (simp only: app) blast
  have hA1: "system_reach pair_platform hA1" by (rule system_reach.own [OF pair_system run(1)]) simp
  have "network_event ev" if "ev \<in> set (e # arrival i c rem)" "network_event e" for ev e i c rem
    using that by (auto simp: arrival_def network_event_def)
  then have "system_reach pair_platform hB1" "system_reach pair_platform hA2"
    using events_reach [OF pair_system _ run(2)] events_reach [OF hA1 _ run(3)] by (simp_all add: network_event_def)
  with known show ?thesis by (intro exI [of _ hA2] exI [of _ hB1]) (simp add: pair_start_state)
qed

end
