(* ===== verification/Session_Dangling.thy ===== *)
theory Session_Dangling
  imports Handshake
begin

text \<open>
  A session that one peer has put into the map of the sessions twice, and what is left of it in the map
  when it is deleted (\<open>Sources/miniDHT_session.h\<close>), with the handlers of the node
  (\<open>Sources/miniDHT.cpp\<close>) as its callbacks.
\<close>

section \<open>A message that the node ignores\<close>

text \<open>An answer to a ping that was never sent changes nothing but the endpoint of the last sender.\<close>

lemma stray_pong_run:
  assumes "\<not> giant_lock s" and "ip_text ep \<noteq> []" and "type_of (parse P body) = REPLY_PING"
    and "map_of (ping_ttl s) (token_of (parse P body)) = None"
  shows "handle_receive P ep body s = (Ok (), s\<lparr>sender_endpoint := ep\<rparr>)"
proof -
  let ?s = "s\<lparr>giant_lock := True, sender_endpoint := ep\<rparr>"
  have "handle_message_from P (parse P body) epp ?s = (Ok (), ?s)" for epp
    using reply_ping_unknown [of "parse P body" ?s P] assms(3,4)
    by (simp add: handle_message_from_def is_request_def is_reply_def)
  then have "receive_body P ep body (s\<lparr>giant_lock := True\<rparr>) = (Ok (), ?s)"
    using receive_body_run [OF assms(2), of P body "s\<lparr>giant_lock := True\<rparr>"] by simp
  then show ?thesis using receive_free_run [OF assms(1), of P ep body] assms(1) by (cases s) simp
qed

text \<open>
  The peer of an accepted connection sends such a message and announces a port: the map has the session
  for the endpoint with that port, whatever else it has it for.
\<close>

definition stray_message :: "nat \<Rightarrow> tcp_endpoint \<Rightarrow> string \<Rightarrow> 16 word \<Rightarrow> hub_event list" where
  "stray_message i ep body p =
     [Header_done i False (peer_header (length body) p) (Inr ep), Body_done i False body]"

definition endpoint_of :: "tcp_endpoint \<Rightarrow> 16 word \<Rightarrow> endpoint_proto" where
  "endpoint_of ep p = Endpoint (ip_text ep) (show_nat (unat p))"

lemma stray_message_run:
  assumes "system_reach P h" and "map_of (live h) i = Some x" and "waits_for_header x" and "ip_text ep \<noteq> []"
    and "length body \<le> max_body_length" and "type_of (parse P body) = REPLY_PING"
    and "map_of (ping_ttl (app h)) (token_of (parse P body)) = None"
  shows "\<exists>h' y. for_each (handle_event (node_env P)) (stray_message i ep body p) h = (Ok (), h') \<and> system_reach P h' \<and>
    map_of (live h') i = Some y \<and> waits_for_header y \<and> remote_ep y = \<lparr>ip_text = ip_text ep, ip_port = p\<rparr> \<and>
    map_of (session_map h') = (map_of (session_map h))(endpoint_of ep p \<mapsto> i) \<and>
    contacts (app h') = contacts (app h) \<and> ping_ttl (app h') = ping_ttl (app h) \<and> node_id (app h') = node_id (app h)"
proof -
  have ok: "omap_ok (live g)" "\<not> giant_lock (app g)" "every buf_ok g" if "system_reach P g" for g
    using system_reach_ok [OF that] hub_okD(1) by (auto simp: system_ok_def)
  have h: "h = at i x h" by (rule at_same [OF ok(1) [OF assms(1)] assms(2)])
  from header_run [OF assms(3,4) refl assms(5), of "node_env P" i p h, folded h endpoint_of_def] obtain y m where
    1: "handle_event (node_env P) (Header_done i False (peer_header (length body) p) (Inr ep)) h = (Ok (), at i y (h\<lparr>session_map := m\<rparr>))"
      "map_of m = (map_of (session_map h))(endpoint_of ep p \<mapsto> i)"
    and y: "awaiting y = [Await_body (length body)]" "\<not> connected y" "\<not> local_lock y" "\<not> read_over y" "ref_count y = 2"
      "write_msgs y = []" "remote_ep y = \<lparr>ip_text = ip_text ep, ip_port = p\<rparr>" by blast
  define h1 where "h1 = h\<lparr>session_map := m\<rparr>"
  have r1: "system_reach P (at i y h1)"
    unfolding h1_def by (rule system_reach.network [OF assms(1) _ 1(1)]) (simp_all add: network_event_def)
  have "buf_ok y" using everyD [OF ok(3) [OF r1], of i y] by simp
  then have read: "packet_text (fill_at header_length body (read_msg y)) = Ok body"
    using y(1) by (intro filled_packet_text) (auto simp: buf_ok_def PACKET_SIZE_def header_length_def)
  define s where "s = (app h)\<lparr>sessions := [], outbox := []\<rparr>"
  have "handle_receive P (remote_ep y) body s = (Ok (), s\<lparr>sender_endpoint := remote_ep y\<rparr>)"
    by (rule stray_pong_run) (use ok(2) [OF assms(1)] assms(4,6,7) y(7) in \<open>simp_all add: s_def\<close>)
  then have "got_message (node_env P) (remote_ep y) (fill_at header_length body (read_msg y)) (app h1) =
      (Ok (), s\<lparr>sender_endpoint := remote_ep y\<rparr>, [])"
    using read by (simp add: node_env_def run_node_def bnd_run lift_outcome_run h1_def s_def)
  from silent_body_run [OF y(1-6) this, of i] obtain z where
    2: "handle_event (node_env P) (Body_done i False body) (at i y h1) =
        (Ok (), at i z (h1\<lparr>app := s\<lparr>sender_endpoint := remote_ep y\<rparr>\<rparr>))"
      "waits_for_header z" "remote_ep z = remote_ep y" by blast
  have run: "for_each (handle_event (node_env P)) (stray_message i ep body p) h =
      (Ok (), at i z (h1\<lparr>app := s\<lparr>sender_endpoint := remote_ep y\<rparr>\<rparr>))"
    using 1(1) 2(1) by (simp add: stray_message_def bnd_run ret_run h1_def del: handle_event.simps)
  have "system_reach P (at i z (h1\<lparr>app := s\<lparr>sender_endpoint := remote_ep y\<rparr>\<rparr>))"
    by (rule events_reach [OF assms(1) _ run]) (auto simp: stray_message_def network_event_def)
  then show ?thesis
    using run 1(2) 2(2,3) y(7)
    by (intro exI [of _ "at i z (h1\<lparr>app := s\<lparr>sender_endpoint := remote_ep y\<rparr>\<rparr>)"] exI [of _ z]) (simp add: h1_def s_def)
qed

section \<open>The connection ends\<close>

lemma disconnected_run:
  assumes "system_reach P h" and "ip_text (remote_ep x) \<noteq> []"
    and "entries (contacts (app h)) = [] \<or>
      (\<exists>e \<in> set (entries (contacts (app h))). contact_ep (snd e) \<noteq> endpoint_of (remote_ep x) (ip_port (remote_ep x)))"
  shows "\<exists>s. got_disconnected (node_env P) (remote_ep x) (app h) = (Ok (), s) \<and> node_id s = node_id (app h)"
proof -
  let ?epp = "endpoint_of (remote_ep x) (ip_port (remote_ep x))"
  have ok: "bucket_ok (contacts (app h))" using system_reach_ok [OF assms(1)] by (simp add: system_ok_def node_ok_def)
  have good: "good_ep ?epp" using assms(2) by (simp add: endpoint_of_def good_ep_def)
  have "\<forall>e \<in> set (entries (contacts (app h))). good_ep (contact_ep (snd e))"
    using ok by (auto simp: bucket_ok_def entry_ok_def)
  from remove_loop_result [OF good this, of 0] assms(3) obtain m where
    "remove_loop ?epp 0 (entries (contacts (app h))) = (Ok (), m)" by auto
  then have "remove_contact ?epp (contacts (app h)) = (Ok (), (contacts (app h))\<lparr>entries := m\<rparr>)"
    by (simp add: remove_contact_def)
  then show ?thesis
    using assms(2) by (simp add: node_env_def handle_disconnect_def bnd_run lift_outcome_run endpoint_to_proto_good
        endpoint_of_def on_contacts_def on_part_run)
qed

section \<open>Properties\<close>

text \<open>
  C33 (a second port leaves a dangling pointer): a peer that has connected announces its listening port
  in the header of every message, and the map then has its session for that port.  Here it sends two
  messages the node has no use for, with two ports, and closes the connection.  Every handler returns, and
  the session is deleted; only the entry of the last port is erased with it, and the first one leads to the
  deleted session: when the user of the node pings that endpoint the behaviour is undefined.  The table of
  contacts plays no part in it but that the end of the connection must not empty it.
\<close>

theorem second_port_leaves_a_dangling_session:
  assumes "system_reach P h" and "map_of (live h) i = Some x" and "waits_for_header x" and "ip_text ep \<noteq> []" and "p \<noteq> q"
    and "length body \<le> max_body_length" and "type_of (parse P body) = REPLY_PING"
    and "map_of (ping_ttl (app h)) (token_of (parse P body)) = None"
    and "entries (contacts (app h)) = [] \<or> (\<exists>e \<in> set (entries (contacts (app h))). contact_ep (snd e) \<noteq> endpoint_of ep q)"
    and "\<And>n. resolve P n (endpoint_of ep p) = Inr \<lparr>ip_text = ip_text ep, ip_port = p\<rparr>"
    and "length (serialize P (new_message SEND_PING (node_id (app h)) t)) \<le> max_body_length"
  shows "\<exists>h'. for_each (handle_event (node_env P))
        (stray_message i ep body p @ stray_message i ep body q @ [Header_done i True bytes rem]) h = (Ok (), h') \<and>
    system_reach P h' \<and> map_of (live h') i = None \<and> map_of (session_map h') (endpoint_of ep p) = Some i \<and>
    fst (node_acts P (Call_ping_endpoint (endpoint_of ep p) t) h') = Abort Undefined_behaviour"
proof -
  have ne: "endpoint_of ep p \<noteq> endpoint_of ep q" using assms(5) port_text_inj by (auto simp: endpoint_of_def)
  obtain h1 x1 where
    1: "for_each (handle_event (node_env P)) (stray_message i ep body p) h = (Ok (), h1)" "system_reach P h1"
      "map_of (live h1) i = Some x1" "waits_for_header x1" "map_of (session_map h1) = (map_of (session_map h))(endpoint_of ep p \<mapsto> i)"
      "contacts (app h1) = contacts (app h)" "ping_ttl (app h1) = ping_ttl (app h)" "node_id (app h1) = node_id (app h)"
    using stray_message_run [OF assms(1-4,6-8)] by blast
  have none: "map_of (ping_ttl (app h1)) (token_of (parse P body)) = None" using 1(7) assms(8) by simp
  obtain h2 x2 where
    2: "for_each (handle_event (node_env P)) (stray_message i ep body q) h1 = (Ok (), h2)" "system_reach P h2"
      "map_of (live h2) i = Some x2" "waits_for_header x2" "map_of (session_map h2) = (map_of (session_map h1))(endpoint_of ep q \<mapsto> i)"
      "contacts (app h2) = contacts (app h1)" "node_id (app h2) = node_id (app h1)"
      "remote_ep x2 = \<lparr>ip_text = ip_text ep, ip_port = q\<rparr>"
    using stray_message_run [OF 1(2-4) assms(4,6,7) none] by blast
  have q: "endpoint_to_proto (remote_ep x2) = Ok (endpoint_of ep q)" "ip_text (remote_ep x2) \<noteq> []"
    using assms(4) by (simp_all add: 2(8) endpoint_to_proto_good endpoint_of_def)
  obtain k where k: "got_disconnected (node_env P) (remote_ep x2) (app h2) = (Ok (), k)" "node_id k = node_id (app h)"
    using disconnected_run [OF 2(2) q(2)] assms(9) 1(6,8) 2(6-8) by (auto simp: endpoint_of_def)
  have h2: "h2 = at i x2 h2"
    by (rule at_same [OF _ 2(3)]) (use system_reach_ok [OF 2(2)] hub_okD(1) in \<open>auto simp: system_ok_def\<close>)
  have 3: "handle_event (node_env P) (Header_done i True bytes rem) h2 = (Ok (),
      h2\<lparr>app := k, live := omap_erase i (live h2), session_map := omap_erase (endpoint_of ep q) (session_map h2),
        orphans := orphans h2\<rparr>)" (is "_ = (Ok (), ?h')")
    by (rule disconnect_run [OF 2(4) k(1) q(1), of i bytes rem, folded h2])
  have run: "for_each (handle_event (node_env P))
      (stray_message i ep body p @ stray_message i ep body q @ [Header_done i True bytes rem]) h = (Ok (), ?h')"
    using 1(1) 2(1) 3 by (simp add: for_each_append bnd_run ret_run del: handle_event.simps)
  have reach: "system_reach P ?h'"
    by (rule events_reach [OF assms(1) _ run]) (auto simp: stray_message_def network_event_def)
  have gone: "map_of (live ?h') i = None" "map_of (session_map ?h') (endpoint_of ep p) = Some i"
    using 1(5) 2(5) ne by simp_all
  moreover have "fst (node_acts P (Call_ping_endpoint (endpoint_of ep p) t) ?h') = Abort Undefined_behaviour"
  proof -
    let ?tp = "\<lparr>ip_text = ip_text ep, ip_port = p\<rparr>"
    have tp: "ip_text ?tp \<noteq> []" "endpoint_of ep p = Endpoint (ip_text ?tp) (show_nat (unat (ip_port ?tp)))"
      using assms(4) by (simp_all add: endpoint_of_def)
    have free: "\<not> giant_lock (app ?h')" using system_reach_ok [OF reach] by (simp add: system_ok_def)
    obtain c where "message_packet (listen_port (app ?h')) (serialize P (new_message SEND_PING (node_id (app ?h')) t)) = Ok c"
      using message_packet_data [OF assms(11)] k(2) by auto
    from ping_call_run [OF free tp assms(10) this] obtain s' where
      "run_node (run_call P (Call_ping_endpoint (endpoint_of ep p) t)) (app ?h') = (Ok (), s', [(?tp, c)])" by blast
    moreover have "endpoint_to_proto ?tp = Ok (endpoint_of ep p)"
      using assms(4) by (simp add: endpoint_to_proto_good endpoint_of_def)
    ultimately show ?thesis
      using gone by (simp add: node_acts_def send_all_def hub_send_def bnd_run lift_outcome_run reads_run access_def del: run_call.simps)
  qed
  ultimately show ?thesis using run reach by blast
qed

theorem second_port_leaves_a_dangling_session_witness:
  "\<exists>h h'. system_reach demo_platform h \<and>
     for_each (handle_event (node_env demo_platform))
       (stray_message 0 demo_peer ''pong'' 80 @ stray_message 0 demo_peer ''pong'' 81 @ [Header_done 0 True [] (Inl [])]) h =
       (Ok (), h') \<and>
     fst (node_acts demo_platform (Call_ping_endpoint (Endpoint ''h'' (show_nat 80)) 7) h') = Abort Undefined_behaviour"
proof -
  obtain x h where h: "system_reach demo_platform h" "map_of (live h) 0 = Some x" "waits_for_header x" "app h = demo_start"
    by (rule demo_accepted)
  have peer: "ip_text demo_peer \<noteq> []" "(80 :: 16 word) \<noteq> 81" "length ''pong'' \<le> max_body_length"
    by (simp_all add: demo_peer_def max_body_length_def PACKET_SIZE_def header_length_def)
  have pong: "type_of (parse demo_platform ''pong'') = REPLY_PING"
    "map_of (ping_ttl (app h)) (token_of (parse demo_platform ''pong'')) = None" and empty: "entries (contacts (app h)) = []"
    by (simp_all add: demo_platform_simps demo_parse_def new_message_def h(4) demo_start_state new_bucket_def)
  have out: "resolve demo_platform n (endpoint_of demo_peer 80) = Inr \<lparr>ip_text = ip_text demo_peer, ip_port = 80\<rparr>"
    "length (serialize demo_platform m) \<le> max_body_length" for n m
    by (simp_all add: demo_platform_simps endpoint_of_def max_body_length_def PACKET_SIZE_def header_length_def)
  from second_port_leaves_a_dangling_session [OF h(1-3) peer pong disjI1 [OF empty] out, where t = 7 and bytes = "[]" and rem = "Inl []"] h(1)
  show ?thesis by (auto simp: endpoint_of_def demo_peer_def simp del: for_each.simps)
qed

end
