(* ===== verification/Session_Sealed.thy ===== *)
theory Session_Sealed
  imports System
begin

text \<open>
  What the sessions write: the packets in their queues are those the node has sent, whatever happens, and
  so packets in the name of the node.
\<close>

section \<open>The queues\<close>

text \<open>All packets that were written, wait or are being written have the property \<open>G\<close>.\<close>

definition sealed :: "(packet \<Rightarrow> bool) \<Rightarrow> peer_session \<Rightarrow> bool" where
  "sealed G x \<longleftrightarrow> (\<forall>p \<in> set (packet_log x). G p) \<and> (\<forall>p. Await_write p \<in> set (awaiting x) \<longrightarrow> G p)"

interpretation sealed: new_frame "sealed G" for G
  by unfold_locales (simp add: sealed_def new_session_def packet_log_def)

interpretation sealed: peer_frame "sealed G" G for G
  by unfold_locales (auto simp: sealed_def packet_log_def)

interpretation sealed: pop_frame "sealed G" G for G
  by unfold_locales (auto simp: sealed_def packet_log_def)

lemma sealed_reading: "preserves (sealed G) (on_read_msg m)" "preserves (sealed G) (await (Await_body n))"
  by (auto intro!: preserves_on_part preserves_writes simp: on_read_msg_def await_def sealed_def packet_log_def)

section \<open>The node and its queues\<close>

text \<open>
  A node whose callbacks keep a statement about it and, where it holds, send packets only that are copied
  to ones with the property.
\<close>

definition copied :: "(packet \<Rightarrow> bool) \<Rightarrow> packet \<Rightarrow> bool" where
  "copied G p \<longleftrightarrow> (\<forall>c. copy_packet p = Ok c \<longrightarrow> G c)"

named_theorems seal_rules "computations that keep a statement about the node and the queues"

locale sealing =
  fixes E :: "'n hub_env" and I :: "'n \<Rightarrow> bool" and G :: "packet \<Rightarrow> bool"
  assumes I_message: "I s \<Longrightarrow> got_message E ep m s = (r, s', out) \<Longrightarrow> I s' \<and> (\<forall>(u, p) \<in> set out. copied G p)"
    and I_disconnected: "I s \<Longrightarrow> got_disconnected E ep s = (r, s') \<Longrightarrow> I s'"
begin

abbreviation Q :: "'n hub \<Rightarrow> bool" where
  "Q \<equiv> \<lambda>h. I (app h) \<and> every (sealed G) h"

lemma seal_access: "preserves (sealed G) m \<Longrightarrow> preserves Q (access i m)"
  by (intro preserves_conj app_rules sealed.every_access)

lemma seal_objects [seal_rules]:
  "preserves Q (access i (reads f))" "preserves Q (access i (thn lock_local (add_ref n)))" "preserves Q (access i lock_local)"
  "preserves Q (access i unlock_local)" "preserves Q (access i (start rem))" "preserves Q (access i (connect ep))"
  "preserves Q (access i (own_endpoint rem))" "preserves Q (access i (on_read_msg m))" "preserves Q (access i pop_front)"
  "preserves Q (access i (bnd (reads g) (\<lambda>more. when_cpp more write_front)))"
  "preserves Q (access i (thn (add_ref 1) (await Await_header)))"
  "preserves Q (access i (thn (add_ref 1) (bnd (reads k) (\<lambda>n. await (Await_body n)))))"
  by (intro seal_access preserves_rules sealed.J_locks sealed.J_start sealed.J_await sealed.J_pop_front
      sealed.J_write_front sealed_reading; simp)+

lemma seal_hub [seal_rules]:
  "preserves Q (register i e)" "preserves Q (erase_endpoint ep)" "preserves Q (delete_object i)" "preserves Q make_session"
  "preserves Q start_accept" "preserves Q (note_read_over i)" "preserves Q (done_op i p)" "preserves Q (fill_read_msg i pos error bytes)"
proof -
  show "preserves Q start_accept" "preserves Q (note_read_over i)" "preserves Q (done_op i p)"
    "preserves Q (fill_read_msg i pos error bytes)"
    by (intro preserves_conj app_rules;
        unfold start_accept_def note_read_over_def done_op_def fill_read_msg_def;
        intro preserves_rules sealed.every_hub sealed.every_access sealed.J_read_over sealed.J_writes sealed_reading)+
qed (intro preserves_conj app_rules sealed.every_hub)+

lemma seal_release [seal_rules]: "preserves Q (release i)"
  unfolding release_def by (intro seal_rules preserves_rules)

lemma seal_hub_send [seal_rules]:
  assumes "copied G msg"
  shows "preserves Q (hub_send uep msg)"
proof -
  have "preserves Q (access i (deliver msg))" for i
    by (rule seal_access, rule sealed.J_deliver_good) (use assms in \<open>simp add: copied_def\<close>)
  then show ?thesis
    unfolding hub_send_def by (intro preserves_rules) (auto split: option.split intro!: seal_rules preserves_rules)
qed

lemma seal_send_all: "\<forall>(u, p) \<in> set out. copied G p \<Longrightarrow> preserves Q (send_all out)"
  unfolding send_all_def by (induction out) (auto intro!: seal_rules preserves_rules)

lemma seal_disconnected [seal_rules]: "preserves Q (\<lambda>h. case got_disconnected E ep (app h) of (r, n) \<Rightarrow> (r, h\<lparr>app := n\<rparr>))"
  by (auto intro!: preservesI dest: I_disconnected split: prod.split)

text \<open>The callback for a message, and what it sends.\<close>

lemma seal_message:
  assumes "\<And>r. preserves Q (k r)"
  shows "preserves Q (bnd (\<lambda>h. case got_message E ep m (app h) of (r, n, out) \<Rightarrow> (Ok (r, out), h\<lparr>app := n\<rparr>))
     (\<lambda>(r, out). thn (for_each (\<lambda>(uep, msg). hub_send uep msg) out) (k r)))"
proof (rule preservesI)
  fix h assume h: "Q h"
  obtain r n out where cb: "got_message E ep m (app h) = (r, n, out)" by (cases "got_message E ep m (app h)") auto
  have n: "I n" "\<forall>(u, p) \<in> set out. copied G p" using I_message [OF conjunct1 [OF h] cb] by blast+
  have "preserves Q (thn (send_all out) (k r))" by (intro preserves_rules seal_send_all n(2) assms)
  from preservesD [OF this, of "h\<lparr>app := n\<rparr>"] n(1) h cb
  show "Q (snd (bnd (\<lambda>h. case got_message E ep m (app h) of (r, n, out) \<Rightarrow> (Ok (r, out), h\<lparr>app := n\<rparr>))
     (\<lambda>(r, out). thn (for_each (\<lambda>(uep, msg). hub_send uep msg) out) (k r)) h))"
    by (simp add: bnd_run [of "\<lambda>h. case got_message E ep m (app h) of (r, n, out) \<Rightarrow> (Ok (r, out), h\<lparr>app := n\<rparr>)" for ep m]
        send_all_def)
qed

lemma seal_handlers [seal_rules]:
  "preserves Q (handle_connect i error rem)" "preserves Q (handle_accept i error rem)" "preserves Q (handle_write i error)"
  "preserves Q (handle_read_header E i error rem)" "preserves Q (handle_read_body E i error)"
  unfolding handle_connect_def handle_accept_def handle_write_def handle_read_header_def handle_read_body_def
  by (auto intro!: seal_rules seal_message preserves_rules)

lemma seal_event: "(\<And>u p. ev = Send u p \<Longrightarrow> copied G p) \<Longrightarrow> preserves Q (handle_event E ev)"
  by (rule preserves_event) (intro seal_rules preserves_rules; blast)+

end

section \<open>The packets of a node\<close>

text \<open>A packet of the node has been made of a message that fits, so its copy is the same.\<close>

lemma genuine_copied: "genuine P me lp p \<Longrightarrow> copied (genuine P me lp) p"
proof -
  assume p: "genuine P me lp p"
  then obtain m where m: "message_packet lp (serialize P m) = Ok p" by (auto simp: genuine_def)
  then have "length (serialize P m) \<le> max_body_length" using packet_overflow [of lp "serialize P m"] by simp
  from copy_message_packet [OF m this] p show ?thesis by (simp add: copied_def)
qed

lemma sends_of_delivers: "(u, p) \<in> set (sends_of es) \<Longrightarrow> \<exists>j. Deliver j p \<in> set es"
  by (induction es rule: sends_of.induct) auto

lemma signed_sends: "signed P me lp s \<Longrightarrow> \<forall>(u, p) \<in> set (sends_of (outbox s)). copied (genuine P me lp) p"
  using sends_of_delivers [of _ _ "outbox s"] by (force simp: signed_def intro: genuine_copied)

abbreviation node_of :: "key_text \<Rightarrow> 16 word \<Rightarrow> node \<Rightarrow> bool" where
  "node_of me lp s \<equiv> node_id s = me \<and> listen_port s = lp"

lemma run_node_signed:
  assumes "preserves (signed P me lp) m" and "node_of me lp s" and "run_node m s = (r, s', out)"
  shows "node_of me lp s' \<and> (\<forall>(u, p) \<in> set out. copied (genuine P me lp) p)"
proof -
  have "signed P me lp (s\<lparr>sessions := [], outbox := []\<rparr>)" using assms(2) by (simp add: signed_def)
  from preservesD [OF assms(1) this] assms(3) have "signed P me lp s'" and out: "out = sends_of (outbox s')"
    by (auto simp: run_node_def split: prod.splits)
  with signed_sends [OF this(1)] show ?thesis by (simp add: signed_def)
qed

interpretation genuine: sealing "node_env P" "node_of me lp" "genuine P me lp" for P me lp
proof unfold_locales
  fix s ep m r s' out
  assume s: "node_of me lp s" and run: "got_message (node_env P) ep m s = (r, s', out)"
  have "preserves (signed P me lp) (bnd (lift_outcome (packet_text m)) (\<lambda>body. handle_receive P ep body))"
    by (intro preserves_rules signed_receive)
  from run_node_signed [OF this s] run show "node_of me lp s' \<and> (\<forall>(u, p) \<in> set out. copied (genuine P me lp) p)"
    by (simp add: node_env_def)
next
  fix s ep r s'
  assume s: "node_of me lp s" and run: "got_disconnected (node_env P) ep s = (r, s')"
  have "signed P me lp (s\<lparr>outbox := []\<rparr>)" using s by (simp add: signed_def)
  moreover have "handle_disconnect P ep (s\<lparr>outbox := []\<rparr>) = (r, s'\<lparr>outbox := []\<rparr>)"
    using run by (auto simp: node_env_def handle_disconnect_def Node.on_contacts_def on_part_run swallow_def
        cpp_simps split: prod.splits outcome.splits exn.splits)
  ultimately show "node_of me lp s'"
    using preservesD [OF signed.ok_handle_disconnect, of P me lp "s\<lparr>outbox := []\<rparr>" ep] by (simp add: signed_def)
qed

lemma genuine_call:
  assumes "node_of me lp (app h)" and "every (sealed (genuine P me lp)) h" and "node_acts P c h = (r, h')"
  shows "node_of me lp (app h') \<and> every (sealed (genuine P me lp)) h'"
proof -
  obtain q s out where run: "run_node (run_call P c) (app h) = (q, s, out)" by (cases "run_node (run_call P c) (app h)") auto
  have s: "node_of me lp s" "\<forall>(u, p) \<in> set out. copied (genuine P me lp) p"
    using run_node_signed [OF signed.ok_run_call assms(1) run] by blast+
  have "preserves (\<lambda>h. node_of me lp (app h) \<and> every (sealed (genuine P me lp)) h) (thn (send_all out) (lift_outcome q))"
    by (intro preserves_rules genuine.seal_send_all s(2))
  from preservesD [OF this, of "h\<lparr>app := s\<rparr>"] s(1) assms(2,3) run show ?thesis by (simp add: node_acts_def)
qed

lemma fresh_hub_sealed: "every (sealed G) (fresh_hub s)"
proof -
  have "every (sealed G) \<lparr>live = [], session_map = [], acceptor = None, next_object = 0, orphans = [], app = s\<rparr>"
    by (simp add: every_def)
  moreover have "preserves (every (sealed G)) start_accept"
    unfolding start_accept_def by (intro preserves_rules sealed.every_hub)
  ultimately show ?thesis unfolding fresh_hub_def by (rule preservesD [rotated])
qed

lemma genuine_boot:
  assumes "start_node P k path p mx = (Ok (), s)" and "send_all (sends_of (outbox s)) (fresh_hub s) = (r, h)"
  shows "node_of (key_to_string k) p (app h) \<and> every (sealed (genuine P (key_to_string k) p)) h"
proof -
  have s: "signed P (key_to_string k) p s" using signed_start [of P k p path mx] assms(1) by simp
  have "app (fresh_hub s) = s" by (simp add: fresh_hub_def start_accept_def make_session_def bnd_run writes_run)
  with s fresh_hub_sealed [of "genuine P (key_to_string k) p" s] preservesD [OF genuine.seal_send_all [OF signed_sends [OF s]], of "fresh_hub s"] assms(2)
  show ?thesis by (simp add: signed_def)
qed

lemma system_reach_genuine:
  "system_reach P h \<Longrightarrow> every (sealed (genuine P (node_id (app h)) (listen_port (app h)))) h"
proof (induction rule: system_reach.induct)
  case (boot k path p mx s r h)
  from genuine_boot [OF boot(1,2)] show ?case by auto
next
  case (network h ev r h')
  have "preserves (\<lambda>x. node_of (node_id (app h)) (listen_port (app h)) (app x) \<and>
      every (sealed (genuine P (node_id (app h)) (listen_port (app h)))) x) (handle_event (node_env P) ev)"
    by (rule genuine.seal_event) (use network(2) in \<open>simp add: network_event_def\<close>)
  from preservesD [OF this, of h] network(3,5) show ?case by simp
next
  case (own h c r h')
  from genuine_call [OF _ own(4) own(2)] show ?case by simp
qed

section \<open>A node speaks in its own name\<close>

text \<open>
  Whatever a system of a node and its sessions does and whatever
  reaches it, each packet that one of its sessions has written, or has to write, is that of a message that
  gives the key of the node as its sender, and announces the port the node listens on.
\<close>

lemma packets_carry_their_sender:
  assumes "system_reach P h" and "map_of (live h) i = Some x" and "p \<in> set (packet_log x)"
  shows "\<exists>m. from_id m = node_id (app h) \<and> message_packet (listen_port (app h)) (serialize P m) = Ok p"
  using everyD [OF system_reach_genuine [OF assms(1)] assms(2)] assms(3) by (simp add: sealed_def genuine_def)

end
