(* ===== verification/Session_Stream.thy ===== *)
theory Session_Stream
  imports System
begin

text \<open>
  The bytes of a connection and the messages the node is given for them: packets are cut out of the
  stream as they were put into it, whatever happens to the other sessions meanwhile.
\<close>

section \<open>The stream\<close>

text \<open>The bytes of the packet of a message.\<close>

definition wire :: "16 word \<Rightarrow> string \<Rightarrow> string" where
  "wire lp s = (case message_packet lp s of Ok c \<Rightarrow> map the (packet_data c) | _ \<Rightarrow> [])"

lemma wire_parts:
  assumes "length s \<le> max_body_length"
  shows "wire lp s = peer_header (length s) lp @ s" and "length (peer_header (length s) lp) = header_length"
  using peer_header_parts(1) [OF assms] peer_header_parts(2) [of lp]
  by (simp_all add: wire_def message_packet_data [OF assms] peer_header_def pad8_def header_length_def comp_def)

text \<open>
  The bytes an event reads for the session \<open>i\<close>, and the packet for which it calls the node: events that
  the session does not await read nothing.
\<close>

fun bytes_read :: "nat \<Rightarrow> hub_event \<Rightarrow> 'n hub \<Rightarrow> string" where
  "bytes_read i (Header_done j error bytes rem) h =
     (if j = i \<and> \<not> error \<and> awaits i (\<lambda>op. op = Await_header) h \<and> length bytes = header_length then bytes else [])"
| "bytes_read i (Body_done j error bytes) h =
     (if j = i \<and> \<not> error \<and> awaits i (\<lambda>op. is_body op \<and> op = Await_body (length bytes)) h then bytes else [])"
| "bytes_read i ev h = []"

fun packets_given :: "nat \<Rightarrow> hub_event \<Rightarrow> 'n hub \<Rightarrow> packet list" where
  "packets_given i (Body_done j error bytes) h =
     (if j = i \<and> \<not> error \<and> awaits i (\<lambda>op. is_body op \<and> op = Await_body (length bytes)) h
      then map (\<lambda>x. fill_at header_length bytes (read_msg x)) (case map_of (live h) i of None \<Rightarrow> [] | Some x \<Rightarrow> [x])
      else [])"
| "packets_given i ev h = []"

text \<open>The same for events in order.\<close>

fun bytes_taken :: "'n hub_env \<Rightarrow> nat \<Rightarrow> hub_event list \<Rightarrow> 'n hub \<Rightarrow> string" where
  "bytes_taken E i [] h = []"
| "bytes_taken E i (ev # evs) h = bytes_read i ev h @ bytes_taken E i evs (snd (handle_event E ev h))"

fun undisturbed :: "'n hub_env \<Rightarrow> hub_event list \<Rightarrow> 'n hub \<Rightarrow> bool" where
  "undisturbed E [] h = True"
| "undisturbed E (ev # evs) h =
     ((case fst (handle_event E ev h) of Abort _ \<Rightarrow> False | _ \<Rightarrow> True) \<and> undisturbed E evs (snd (handle_event E ev h)))"

text \<open>
  The calls of the callback for messages that an event makes: the node, put beside a list, adds every packet
  it is called with.
\<close>

definition recording :: "'n hub_env \<Rightarrow> ('n \<times> packet list) hub_env" where
  "recording E = \<lparr>
     got_message = (\<lambda>ep m (n, l). case got_message E ep m n of (r, n', out) \<Rightarrow> (r, (n', l @ [m]), out)),
     got_disconnected = (\<lambda>ep (n, l). case got_disconnected E ep n of (r, n') \<Rightarrow> (r, (n', l)))\<rparr>"

definition with_record :: "'n hub \<Rightarrow> ('n \<times> packet list) hub" where
  "with_record h = \<lparr>live = live h, session_map = session_map h, acceptor = acceptor h, next_object = next_object h,
     orphans = orphans h, app = (app h, [])\<rparr>"

definition calls_made :: "'n hub_env \<Rightarrow> hub_event \<Rightarrow> 'n hub \<Rightarrow> packet list" where
  "calls_made E ev h = snd (app (snd (handle_event (recording E) ev (with_record h))))"

text \<open>The messages the node is given in the events of the session \<open>i\<close>.\<close>

fun event_of :: "nat \<Rightarrow> hub_event \<Rightarrow> bool" where
  "event_of i (Accepted error rem) = False"
| "event_of i (Send uep msg) = False"
| "event_of i (Connect_done j error rem) = (j = i)"
| "event_of i (Header_done j error bytes rem) = (j = i)"
| "event_of i (Body_done j error bytes) = (j = i)"
| "event_of i (Write_done j error) = (j = i)"

fun messages_given :: "'n hub_env \<Rightarrow> nat \<Rightarrow> hub_event list \<Rightarrow> 'n hub \<Rightarrow> string outcome list" where
  "messages_given E i [] h = []"
| "messages_given E i (ev # evs) h =
     (if event_of i ev then map packet_text (calls_made E ev h) else []) @
     messages_given E i evs (snd (handle_event E ev h))"

text \<open>Only the end of the read of a body calls it, with the packet that was read.\<close>

lemma no_call_disconnected:
  "preserves (of_app (\<lambda>a. snd a = l)) (\<lambda>h. case got_disconnected (recording E) ep (app h) of (r, n) \<Rightarrow> (r, h\<lparr>app := n\<rparr>))"
  by (rule preservesI) (auto simp: recording_def split: prod.split)

lemma no_call_event:
  assumes "\<And>i bytes. ev \<noteq> Body_done i False bytes"
  shows "preserves (of_app (\<lambda>a. snd a = l)) (handle_event (recording E) ev)"
proof (cases ev)
  case (Accepted error rem)
  show ?thesis unfolding Accepted by (rule preservesI) (auto split: option.split intro: preservesD [OF app_sessions(6)])
next
  case (Header_done i error bytes rem)
  have "preserves (of_app (\<lambda>a. snd a = l)) (handle_read_header (recording E) i error rem)"
    unfolding handle_read_header_def
    by (intro app_rules preserves_rules no_call_disconnected)
  then have "preserves (of_app (\<lambda>a. snd a = l)) (thn (done_op i (\<lambda>op. op = Await_header))
      (thn (fill_read_msg i 0 error bytes) (handle_read_header (recording E) i error rem)))"
    by (intro app_rules preserves_rules)
  then show ?thesis unfolding Header_done by (intro preservesI) (auto dest: preservesD)
next
  case (Body_done i error bytes)
  with assms have "error" by (cases error) auto
  then have "preserves (of_app (\<lambda>a. snd a = l)) (handle_read_body (recording E) i error)"
    unfolding handle_read_body_def by (intro app_rules preserves_rules) simp_all
  then have "preserves (of_app (\<lambda>a. snd a = l)) (thn (done_op i is_body)
      (thn (fill_read_msg i header_length error bytes) (handle_read_body (recording E) i error)))"
    by (intro app_rules preserves_rules)
  then show ?thesis unfolding Body_done by (intro preservesI) (auto dest: preservesD)
next
  case (Send uep msg)
  show ?thesis unfolding Send handle_event.simps by (rule app_sessions(3))
next
  case (Connect_done i error rem)
  have "preserves (of_app (\<lambda>a. snd a = l)) (thn (done_op i (\<lambda>op. op = Await_connect)) (handle_connect i error rem))"
    by (intro app_rules preserves_rules)
  then show ?thesis unfolding Connect_done by (intro preservesI) (auto dest: preservesD)
next
  case (Write_done i error)
  have "preserves (of_app (\<lambda>a. snd a = l)) (thn (done_op i is_write) (handle_write i error))"
    by (intro app_rules preserves_rules)
  then show ?thesis unfolding Write_done by (intro preservesI) (auto dest: preservesD)
qed

lemma body_block_call:
  "snd (app (snd (body_block (recording E) i ep m h))) = snd (app h) @ [m]"
proof -
  obtain r n out where got: "got_message (recording E) ep m (app h) = (r, n, out)" "snd n = snd (app h) @ [m]"
    by (cases "app h", cases "got_message E ep m (fst (app h))") (auto simp: recording_def)
  have "preserves (of_app (\<lambda>a. snd a = snd n)) (thn (for_each (\<lambda>(uep, msg). hub_send uep msg) out)
      (thn (lift_outcome r) (thn (access i lock_local)
        (thn (access i (thn (add_ref 1) (await Await_header))) (access i unlock_local)))))"
    by (intro app_rules preserves_rules) (auto intro: app_rules)
  from preservesD [OF this, of "h\<lparr>app := n\<rparr>"] show ?thesis
    by (simp add: body_block_def bnd_run [of "\<lambda>h. case got_message E ep m (app h) of (r, n, out) \<Rightarrow> (Ok (r, out), h\<lparr>app := n\<rparr>)" for E ep m]
        got)
qed

lemma calls_are_given:
  assumes "hub_ok h"
  shows "(if event_of i ev then calls_made E ev h else []) = packets_given i ev h"
proof (cases "\<exists>j bytes. ev = Body_done j False bytes")
  case False
  then have "calls_made E ev h = []"
    using preservesD [OF no_call_event [of ev "[]" E], of "with_record h"] by (auto simp: calls_made_def with_record_def)
  moreover have "packets_given i ev h = []" using False by (cases ev) auto
  ultimately show ?thesis by simp
next
  case True
  then obtain j bytes where ev: "ev = Body_done j False bytes" by blast
  show ?thesis
  proof (cases "awaits j (\<lambda>op. is_body op \<and> op = Await_body (length bytes)) h")
    case no: False
    then have "\<not> awaits j (\<lambda>op. is_body op \<and> op = Await_body (length bytes)) (with_record h)"
      by (simp add: awaits_def with_record_def)
    then have "calls_made E ev h = []" by (simp add: calls_made_def ev with_record_def)
    then show ?thesis using no by (auto simp: ev)
  next
    case yes: True
    then obtain x where x: "map_of (live h) j = Some x" "Await_body (length bytes) \<in> set (awaiting x)"
      by (auto simp: awaits_def split: option.splits)
    have free: "\<not> local_lock x" using hub_okD(3) [OF assms x(1)] by (simp add: session_ok_def)
    have rec: "with_record h = at j x (with_record h)"
      using hub_okD(1) [OF assms] x(1) by (intro at_same) (simp_all add: with_record_def)
    note block = body_event_block [OF free x(2) refl, where i = j and h = "with_record h" and E = "recording E", folded rec]
    have "calls_made E ev h = [fill_at header_length bytes (read_msg x)]"
      unfolding calls_made_def ev block body_block_call by (simp add: with_record_def at_def)
    then show ?thesis using yes x(1) by (auto simp: ev)
  qed
qed

text \<open>The packet is what the node is called with: the event depends on nothing else the callback does.\<close>

lemma body_event_calls:
  assumes "hub_ok h" and "packets_given i (Body_done i False bytes) h = [m]" and "map_of (live h) i = Some x"
    and "got_message E (remote_ep x) m (app h) = got_message F (remote_ep x) m (app h)"
  shows "handle_event E (Body_done i False bytes) h = handle_event F (Body_done i False bytes) h"
proof -
  have h: "h = at i x h" by (rule at_same [OF hub_okD(1) [OF assms(1)] assms(3)])
  have aw: "awaits i (\<lambda>op. is_body op \<and> op = Await_body (length bytes)) h" and m: "m = fill_at header_length bytes (read_msg x)"
    using assms(2,3) by (auto split: if_splits)
  have free: "\<not> local_lock x" using hub_okD(3) [OF assms(1,3)] by (simp add: session_ok_def)
  have "Await_body (length bytes) \<in> set (awaiting x)" using aw assms(3) by (auto simp: awaits_def)
  note block = body_event_block [OF free this refl, where i = i and h = h, folded h m]
  show ?thesis unfolding block body_block_def
    by (simp add: bnd_run [of "\<lambda>h. case got_message E ep m (app h) of (r, n, out) \<Rightarrow> (Ok (r, out), h\<lparr>app := n\<rparr>)" for E ep m]
        assms(4))
qed

section \<open>What does not read\<close>

text \<open>An event that is not the end of a read of the session \<open>i\<close>, and does not take up the session for a peer.\<close>

fun aside :: "nat \<Rightarrow> hub_event \<Rightarrow> 'n hub \<Rightarrow> bool" where
  "aside i (Accepted error rem) h \<longleftrightarrow> acceptor h \<noteq> Some i"
| "aside i (Send uep msg) h \<longleftrightarrow> True"
| "aside i (Connect_done j error rem) h \<longleftrightarrow> (j = i \<longrightarrow> \<not> awaits i (\<lambda>op. op = Await_connect) h)"
| "aside i (Header_done j error bytes rem) h \<longleftrightarrow> (j = i \<longrightarrow> \<not> awaits i (\<lambda>op. op = Await_header) h)"
| "aside i (Body_done j error bytes) h \<longleftrightarrow> (j = i \<longrightarrow> \<not> awaits i is_body h)"
| "aside i (Write_done j error) h \<longleftrightarrow> True"

text \<open>
  The contract of a statement about one session that sending and the end of a write keep: then every
  event keeps it that is aside.
\<close>

locale aside_frame = pop_frame J "\<lambda>_. True" + any_frame J for J :: "peer_session \<Rightarrow> bool" +
  assumes J_written: "J x \<Longrightarrow> J (x\<lparr>awaiting := filter (\<lambda>op. \<not> is_write op) (awaiting x)\<rparr>)"
begin

text \<open>A new session is another one.\<close>

lemma aside_new:
  fixes k :: "nat \<Rightarrow> ('n hub, 'b) cpp"
  assumes "\<And>j. i \<noteq> j \<Longrightarrow> preserves (holds i J) (k j)"
  shows "preserves (holds i J) (bnd make_session k)"
proof (rule preservesI)
  fix h :: "'n hub" assume h: "holds i J h"
  then have "i \<noteq> next_object h" by (simp add: holds_def)
  from preservesD [OF assms [OF this] preservesD [OF holds_make_session h]] show "holds i J (snd (bnd make_session k h))"
    by (simp add: bnd_run make_session_def)
qed

lemma aside_send [frame_rules]: "preserves (holds i J) (hub_send uep msg)"
proof -
  have "preserves (holds i J) (bnd make_session (\<lambda>j. thn (access j (connect uep)) (access j (deliver msg))))"
    by (rule aside_new) (intro preserves_rules holds_access_other)
  then show ?thesis
    unfolding hub_send_def by (intro preserves_rules) (auto split: option.split intro!: frame_rules)
qed

lemma aside_release [frame_rules]: "preserves (holds i J) (release j)" "preserves (holds i J) (note_read_over j)"
  unfolding release_def note_read_over_def by (intro frame_rules preserves_rules)+

lemma aside_accept: "preserves (holds i J) start_accept"
  unfolding start_accept_def by (rule aside_new) (intro frame_rules)

text \<open>What the events of another session do.\<close>

lemma aside_other:
  assumes "i \<noteq> j"
  shows "preserves (holds i J) (handle_connect j error rem)" "preserves (holds i J) (handle_read_header E j error rem)"
    "preserves (holds i J) (handle_accept j error rem)" "preserves (holds i J) (handle_read_body E j error)"
    "preserves (holds i J) (done_op j p)" "preserves (holds i J) (fill_read_msg j pos error bytes)"
  unfolding handle_connect_def handle_read_header_def handle_accept_def handle_read_body_def done_op_def fill_read_msg_def
  using assms by (auto intro!: holds_access_other aside_accept aside_release aside_send holds_hub preserves_rules)

lemma aside_end_of_write: "preserves (holds i J) (thn (done_op i is_write) (handle_write i error))"
proof -
  have "preserves J (writes (\<lambda>x. x\<lparr>awaiting := filter (\<lambda>op. \<not> is_write op) (awaiting x)\<rparr>))"
    by (rule preserves_writes) (rule J_written)
  then show ?thesis
    unfolding done_op_def handle_write_def
    by (intro preserves_rules frame_rules J_pop_front J_write_front)
qed

lemma aside_event:
  assumes "holds i J h" and "aside i ev h"
  shows "holds i J (snd (handle_event E ev h))"
proof (cases ev)
  case (Accepted error rem)
  with assms preservesD [OF aside_other(3) assms(1)] show ?thesis by (auto split: option.split)
next
  case (Send uep msg)
  then show ?thesis using preservesD [OF aside_send assms(1)] by simp
next
  case (Connect_done j error rem)
  have "preserves (holds i J) (thn (done_op j (\<lambda>op. op = Await_connect)) (handle_connect j error rem))" if "i \<noteq> j"
    using that by (intro preserves_rules aside_other)
  from preservesD [OF this assms(1)] assms Connect_done show ?thesis by (cases "i = j") auto
next
  case (Header_done j error bytes rem)
  have "preserves (holds i J) (thn (done_op j (\<lambda>op. op = Await_header))
      (thn (fill_read_msg j 0 error bytes) (handle_read_header E j error rem)))" if "i \<noteq> j"
    using that by (intro preserves_rules aside_other)
  from preservesD [OF this assms(1)] assms Header_done show ?thesis by (cases "i = j") auto
next
  case (Body_done j error bytes)
  have "preserves (holds i J) (thn (done_op j is_body)
      (thn (fill_read_msg j header_length error bytes) (handle_read_body E j error)))" if "i \<noteq> j"
    using that by (intro preserves_rules aside_other)
  from preservesD [OF this assms(1)] assms Body_done show ?thesis by (cases "i = j") (auto simp: awaits_def split: option.splits)
next
  case (Write_done j error)
  have "preserves (holds i J) (thn (done_op j is_write) (handle_write j error))"
  proof (cases "i = j")
    case False
    then show ?thesis
      unfolding handle_write_def done_op_def
      by (auto intro!: holds_access_other aside_release preserves_rules)
  qed (simp add: aside_end_of_write)
  from preservesD [OF this assms(1)] assms(1) Write_done show ?thesis by simp
qed

end

text \<open>What a session awaits to read, from whom, and whether it was told to connect.\<close>

interpretation viewed: aside_frame "\<lambda>x. V (reading x) (connected x) (remote_ep x)" for V
  by unfold_locales (auto simp: reading_def filter_filter conj_commute)

text \<open>Sessions are numbered upwards, and another one waits for a peer only when one has been accepted.\<close>

abbreviation slot :: "(nat option \<Rightarrow> bool) \<Rightarrow> nat \<Rightarrow> 'n hub \<Rightarrow> bool" where
  "slot A i h \<equiv> i < next_object h \<and> A (acceptor h)"

named_theorems slot_rules "computations that leave the session that waits for a peer alone"

lemma slot_access [slot_rules]: "preserves (slot A i) (access j m)"
  by (rule preservesI) (auto simp: access_def split: option.split prod.split)

lemma slot_hub [slot_rules]:
  "preserves (slot A i) (register j e)" "preserves (slot A i) (erase_endpoint ep)"
  "preserves (slot A i) (delete_object j)" "preserves (slot A i) make_session"
  "preserves (slot A i) (\<lambda>h. case got_disconnected E ep (app h) of (r, n) \<Rightarrow> (r, h\<lparr>app := n\<rparr>))"
  "preserves (slot A i) (\<lambda>h. case got_message E ep m (app h) of (r, n, out) \<Rightarrow> (Ok (r, out), h\<lparr>app := n\<rparr>))"
proof -
  show "preserves (slot A i) (register j e)"
    unfolding register_def by (rule preserves_writes) (simp split: option.split)
  show "preserves (slot A i) (erase_endpoint ep)"
    unfolding erase_endpoint_def by (intro preserves_rules preserves_writes) simp
qed (auto intro!: preservesI simp: delete_object_def make_session_def bnd_run writes_run split: option.splits prod.splits)

lemma slot_parts [slot_rules]:
  "preserves (slot A i) (release j)" "preserves (slot A i) (note_read_over j)" "preserves (slot A i) (done_op j p)"
  "preserves (slot A i) (fill_read_msg j pos error bytes)" "preserves (slot A i) (hub_send uep msg)"
  unfolding release_def note_read_over_def done_op_def fill_read_msg_def hub_send_def
  by (auto split: option.split intro!: slot_rules preserves_rules)

lemma slot_send_all [slot_rules]: "preserves (slot A i) (send_all out)"
  unfolding send_all_def by (intro preserves_rules) (auto intro: slot_rules)

lemma slot_handlers [slot_rules]:
  "preserves (slot A i) (handle_connect j error rem)" "preserves (slot A i) (handle_read_header E j error rem)"
  "preserves (slot A i) (handle_read_body E j error)" "preserves (slot A i) (handle_write j error)"
  unfolding handle_connect_def handle_read_header_def handle_read_body_def handle_write_def
  by (auto intro!: slot_rules preserves_rules)

text \<open>A session that has been taken up is not the one that waits, ever.\<close>

abbreviation taken_up :: "nat \<Rightarrow> 'n hub \<Rightarrow> bool" where
  "taken_up i \<equiv> slot (\<lambda>a. a \<noteq> Some i) i"

lemma slot_accept: "preserves (taken_up i) (handle_accept j error rem)"
proof -
  have "preserves (taken_up i) start_accept"
    by (auto intro!: preservesI simp: start_accept_def make_session_def bnd_run writes_run)
  then show ?thesis unfolding handle_accept_def by (auto intro!: slot_rules preserves_rules)
qed

lemma slot_event: "preserves (taken_up i) (handle_event E ev)"
  by (rule preserves_event) (intro slot_rules slot_accept preserves_rules)+

lemma acceptor_event:
  assumes "\<And>error rem. ev \<noteq> Accepted error rem"
  shows "preserves (slot A i) (handle_event E ev)"
  by (rule preserves_event) (use assms in \<open>auto intro!: slot_rules preserves_rules\<close>)

section \<open>The reads\<close>

text \<open>The session \<open>i\<close>, while it exists, awaits these reads, and never is one that waits for a peer.\<close>

definition listens :: "nat \<Rightarrow> io_op list \<Rightarrow> 'n hub \<Rightarrow> bool" where
  "listens i ops h \<longleftrightarrow> holds i (\<lambda>x. reading x = ops) h \<and> acceptor h \<noteq> Some i"

lemma listensI: "holds i (\<lambda>x. reading x = ops) h' \<Longrightarrow> listens i ops' h \<Longrightarrow> h' = snd (handle_event E ev h) \<Longrightarrow> listens i ops h'"
  using preservesD [OF slot_event, of i h E ev] by (auto simp: listens_def holds_def)

lemma listens_awaits: "listens i ops h \<Longrightarrow> awaits i p h \<Longrightarrow> (\<And>op. p op \<Longrightarrow> \<not> is_write op) \<Longrightarrow> \<exists>op \<in> set ops. p op"
  by (auto simp: listens_def holds_def awaits_def reading_def split: option.splits)

lemma listens_aside:
  assumes "listens i ops h" and "Await_connect \<notin> set ops"
    and "\<And>error bytes rem. ev \<noteq> Header_done i error bytes rem" and "\<And>error bytes. ev \<noteq> Body_done i error bytes"
  shows "listens i ops (snd (handle_event E ev h))"
proof -
  have "\<not> awaits i (\<lambda>op. op = Await_connect) h" using listens_awaits [OF assms(1)] assms(2) by force
  then have "aside i ev h" using assms(1,3,4) by (cases ev) (auto simp: listens_def)
  with assms(1) show ?thesis
    by (intro listensI [OF viewed.aside_event assms(1) refl]) (simp_all add: listens_def)
qed

text \<open>An event the session does not await changes nothing.\<close>

lemma listens_not:
  assumes "listens i ops h" and "ev = Header_done i error bytes rem \<and> Await_header \<notin> set ops \<or>
    ev = Body_done i error bytes \<and> (\<forall>n. Await_body n \<notin> set ops)"
  shows "handle_event E ev h = (Ok (), h)" and "bytes_read i ev h = []" and "packets_given i ev h = []"
proof -
  have "\<not> awaits i (\<lambda>op. op = Await_header) h" if "Await_header \<notin> set ops"
    using listens_awaits [OF assms(1), of "\<lambda>op. op = Await_header"] that by force
  moreover have "\<not> awaits i (\<lambda>op. is_body op \<and> q op) h" if "\<forall>n. Await_body n \<notin> set ops" for q
    using listens_awaits [OF assms(1), of "\<lambda>op. is_body op \<and> q op"] that by (force simp: is_body_def)
  ultimately show "handle_event E ev h = (Ok (), h)" "bytes_read i ev h = []" "packets_given i ev h = []"
    using assms(2) by auto
qed

text \<open>
  The end of the read of a header: the session is over or awaits the body that is announced, and has the
  endpoint it was told to connect to, or the address of its peer with the port that is announced.
\<close>

definition told :: "string + tcp_endpoint \<Rightarrow> 16 word \<Rightarrow> peer_session \<Rightarrow> tcp_endpoint \<Rightarrow> bool" where
  "told rem lp x e \<longleftrightarrow> (if connected x then e = remote_ep x
     else \<exists>r. rem = Inr r \<and> e = \<lparr>ip_text = ip_text r, ip_port = lp\<rparr>)"

lemma header_is_read:
  assumes "hub_ok h" and "map_of (live h) i = Some x" and "reading x = [Await_header]"
    and "error \<or> length bytes = header_length" and "\<not> error \<Longrightarrow> bytes = peer_header n lp \<and> n \<le> max_body_length"
    and "h' = snd (handle_event E (Header_done i error bytes rem) h)"
  shows "holds i (\<lambda>z. reading z = [] \<or> (\<not> error \<and> reading z = [Await_body n] \<and> told rem lp x (remote_ep z))) h'"
proof -
  let ?V = "\<lambda>ops c e. ops = [] \<or> (\<not> error \<and> ops = [Await_body n] \<and> told rem lp x e)"
  let ?J = "\<lambda>z. ?V (reading z) (connected z) (remote_ep z)"
  have "Await_header \<in> set (reading x)" using assms(3) by simp
  then have aw: "awaits i (\<lambda>op. op = Await_header) h" using assms(2) by (auto simp: awaits_def reading_def)
  have i: "i < next_object h" using hub_okD(3) [OF assms(1,2)] by simp
  define z where "z = x\<lparr>awaiting := filter (\<lambda>op. op \<noteq> Await_header) (awaiting x),
    read_msg := if error then read_msg x else fill_at 0 bytes (read_msg x), local_lock := True, ref_count := ref_count x - 1\<rparr>"
  have run: "h' = snd (header_block E i error rem (at i z h))"
    using aw assms(4,6) unfolding z_def header_event_block [OF assms(1,2), symmetric] by simp
  obtain q h1 where c: "check_header i error rem (at i z h) = (q, h1)" by fastforce
  obtain z1 where z1: "h1 = at i z1 h" "awaiting z1 = awaiting z" "local_lock z1 = local_lock z"
    "remote_ep z1 = remote_ep z \<or> \<not> connected z"
    "\<And>epp. q = Ok epp \<Longrightarrow> \<not> error \<and> read_msg z1 = snd (decode_header (read_msg z)) \<and> (connected z \<or> (\<exists>r. rem = Inr r \<and>
      remote_ep z1 = \<lparr>ip_text = ip_text r, ip_port = packet_port (snd (decode_header (read_msg z)))\<rparr>))"
    using check_header_peer [OF c] by metis
  have "reading z1 = filter (\<lambda>op. op \<noteq> Await_header) (reading x)"
    by (simp add: reading_def z1(2) z_def conj_commute)
  then have none: "reading z1 = []" using assms(3) by simp
  have hold: "holds i ?J (at i y (h\<lparr>session_map := m\<rparr>))" if "?J y" for y m
    using that i by (simp add: holds_def)
  have good: "holds i ?J (snd (end_header i epp (at i z1 h)))" if q: "q = Ok epp" for epp
  proof -
    have e: "\<not> error" using z1(5) [OF q] by simp
    then have dec: "decode_header (read_msg z) = (Ok True, (read_msg z)\<lparr>body_size := n, packet_port := lp\<rparr>)"
      using assms(5) by (simp add: z_def decode_peer_header)
    then have "body_size (read_msg z1) = n" "told rem lp x (remote_ep z1)"
      using z1(4) z1(5) [OF q] by (auto simp: z_def told_def)
    moreover have "local_lock z1" by (simp add: z1(3) z_def)
    from end_header_at [OF this, of i epp h] obtain m where
      "end_header i epp (at i z1 h) = (Ok (), at i (z1\<lparr>local_lock := False, ref_count := ref_count z1 + 1,
        awaiting := awaiting z1 @ [Await_body (body_size (read_msg z1))]\<rparr>) (h\<lparr>session_map := m\<rparr>))" by blast
    ultimately show ?thesis
      using none e hold [of _ m] by simp (simp add: reading_def)
  qed
  have "h\<lparr>session_map := session_map h\<rparr> = h" by simp
  with none hold [of z1 "session_map h"] have "holds i ?J (at i z1 h)" by simp
  then show ?thesis
    unfolding run
    by (rule header_block_keeps [where I = "holds i ?J", OF c [unfolded z1(1)] _ good])
      (assumption | intro holds_access holds_hub viewed.aside_release [where V = ?V] viewed.J_locks [where V = ?V] preserves_rules)+
qed

text \<open>From one statement to another, whatever the computation returns.\<close>

definition leads :: "('s \<Rightarrow> bool) \<Rightarrow> ('s \<Rightarrow> bool) \<Rightarrow> ('s, 'a) cpp \<Rightarrow> bool" where
  "leads I J m \<longleftrightarrow> (\<forall>s. I s \<longrightarrow> J (snd (m s)))"

lemma leads_bnd:
  assumes "preserves I m" and "\<And>a. leads I J (k a)" and "\<And>s. I s \<Longrightarrow> J s"
  shows "leads I J (bnd m k)"
  unfolding leads_def
proof (intro allI impI)
  fix s assume "I s"
  from preservesD [OF assms(1) this] show "J (snd (bnd m k s))"
    using assms(2,3) by (cases "m s") (auto simp: bnd_run leads_def split: outcome.split)
qed

lemma leads_then:
  assumes "leads I J m" and "\<And>a. preserves J (k a)"
  shows "leads I J (bnd m k)"
  unfolding leads_def
proof (intro allI impI)
  fix s assume "I s"
  then have "J (snd (m s))" using assms(1) by (simp add: leads_def)
  then show "J (snd (bnd m k s))"
    using preservesD [OF assms(2)] by (cases "m s") (auto simp: bnd_run split: outcome.split)
qed

text \<open>The end of the read of a body: the next thing the session awaits is a header.\<close>

lemma body_block_reads:
  "leads (holds i (\<lambda>z. reading z = [] \<and> remote_ep z = e))
     (holds i (\<lambda>z. reading z = [] \<or> reading z = [Await_header] \<and> remote_ep z = e)) (body_block E i ep m)"
proof -
  let ?J = "\<lambda>z. reading z = [] \<and> remote_ep z = e" and ?H = "\<lambda>z. reading z = [] \<or> reading z = [Await_header] \<and> remote_ep z = e"
  have sub: "holds i ?J h \<Longrightarrow> holds i ?H h" for h :: "'a hub" by (auto simp: holds_def)
  have "leads ?J ?H (thn (add_ref 1) (await Await_header))"
    by (auto simp: leads_def add_ref_def await_def cpp_simps) (simp_all add: reading_def)
  then have last: "leads (holds i ?J) (holds i ?H) (access i (thn (add_ref 1) (await Await_header)) :: ('a hub, unit) cpp)"
    by (auto simp: leads_def holds_def access_def split: option.split prod.split)
  have "preserves (holds i ?H) (access i unlock_local :: ('a hub, unit) cpp)"
    using viewed.J_locks(2) [where V = "\<lambda>ops c e'. ops = [] \<or> ops = [Await_header] \<and> e' = e"] by (intro holds_access) simp
  note last = leads_then [OF last this]
  note keeps = holds_access [OF viewed.J_locks(1) [where V = "\<lambda>ops c e'. ops = [] \<and> e' = e"]]
    viewed.aside_send [where V = "\<lambda>ops c e'. ops = [] \<and> e' = e"] holds_hub(5) [of i ?J]
  show ?thesis
    unfolding body_block_def
    using keeps by (auto intro!: leads_bnd last sub preserves_rules)
qed

lemma body_is_read:
  assumes "hub_ok h" and "map_of (live h) i = Some x" and "reading x = [Await_body n]"
    and "error \<or> length bytes = n" and "h' = snd (handle_event E (Body_done i error bytes) h)"
  shows "holds i (\<lambda>z. reading z = [] \<or> (\<not> error \<and> reading z = [Await_header] \<and> remote_ep z = remote_ep x)) h'"
proof -
  have h: "h = at i x h" by (rule at_same [OF hub_okD(1) [OF assms(1)] assms(2)])
  have free: "\<not> local_lock x" and i: "i < next_object h" using hub_okD(3) [OF assms(1,2)] by (simp_all add: session_ok_def)
  have "Await_body n \<in> set (reading x)" using assms(3) by simp
  then have aw: "Await_body n \<in> set (awaiting x)" by (simp add: reading_def)
  then have eff: "awaits i (\<lambda>op. is_body op \<and> (error \<or> op = Await_body (length bytes))) h"
    using assms(2,4) by (auto simp: awaits_def is_body_def)
  define x0 where "x0 = x\<lparr>awaiting := filter (\<lambda>op. \<not> is_body op) (awaiting x)\<rparr>"
  have "reading x0 = filter (\<lambda>op. \<not> is_body op) (reading x)" by (simp add: reading_def x0_def conj_commute)
  then have none: "reading x0 = []" using assms(3) by simp
  show ?thesis
  proof (cases error)
    case True
    have h0: "holds i (\<lambda>z. reading z = []) (at i x0 h)" using none i by (simp add: holds_def)
    have "done_op i is_body h = (Ok (), at i x0 h)" by (subst h) (simp add: done_op_at x0_def)
    then have "h' = snd (handle_read_body E i True (at i x0 h))"
      using eff True by (simp add: assms(5) bnd_run fill_read_msg_def when_run ret_run)
    moreover have "preserves (holds i (\<lambda>z. reading z = [])) (handle_read_body E i True)"
      using viewed.J_locks [where V = "\<lambda>ops c e. ops = []"] viewed.aside_release [where V = "\<lambda>ops c e. ops = []"]
      by (auto simp: handle_read_body_def intro!: preserves_rules holds_access)
    ultimately show ?thesis using preservesD [where I = "holds i (\<lambda>z. reading z = [])", OF _ h0] True by simp
  next
    case False
    define x1 where "x1 = x\<lparr>awaiting := filter (\<lambda>op. \<not> is_body op) (awaiting x), ref_count := ref_count x - 1,
      read_msg := fill_at header_length bytes (read_msg x)\<rparr>"
    have "Await_body (length bytes) \<in> set (awaiting x)" using aw assms(4) False by simp
    from body_event_block [OF free this x1_def, where i = i and h = h and E = E, folded h]
    have run: "h' = snd (body_block E i (remote_ep x) (fill_at header_length bytes (read_msg x)) (at i x1 h))"
      by (simp add: assms(5) False)
    have "holds i (\<lambda>z. reading z = [] \<and> remote_ep z = remote_ep x) (at i x1 h)"
      using none i by (simp add: holds_def x1_def x0_def reading_def)
    with body_block_reads [where i = i and e = "remote_ep x" and E = E] show ?thesis
      unfolding run leads_def using False by simp
  qed
qed

section \<open>The messages of a stream\<close>

text \<open>What one event does to the reads of a session that awaits at most one of them.\<close>

definition one_read :: "io_op list \<Rightarrow> bool" where
  "one_read ops \<longleftrightarrow> ops = [] \<or> ops = [Await_header] \<or> (\<exists>n. ops = [Await_body n])"

lemma one_read_simps [simp]: "one_read []" "one_read [Await_header]" "one_read [Await_body n]"
  by (simp_all add: one_read_def)

text \<open>The session, where it awaits something, and that is all it reads.\<close>

lemma listens_session:
  assumes "listens i [op] h" and "awaits i p h" and "\<And>op. p op \<Longrightarrow> \<not> is_write op"
  obtains x where "map_of (live h) i = Some x" and "reading x = [op]" and "p op"
proof -
  obtain x op' where x: "map_of (live h) i = Some x" "op' \<in> set (awaiting x)" "p op'"
    using assms(2) by (auto simp: awaits_def split: option.splits)
  have r: "reading x = [op]" using assms(1) x(1) by (simp add: listens_def holds_def)
  have "op' \<in> set (reading x)" using x(2,3) assms(3) by (simp add: reading_def)
  with r x show ?thesis by (intro that) auto
qed

lemma listens_cases:
  assumes "holds i (\<lambda>z. reading z = [] \<or> b \<and> reading z = ops' \<and> Q z) h'" and "listens i ops h" and "h' = snd (handle_event E ev h)"
  shows "listens i [] h' \<or> b \<and> listens i ops' h'"
proof -
  have "holds i (\<lambda>z. reading z = []) h' \<or> b \<and> holds i (\<lambda>z. reading z = ops') h'"
    using assms(1) by (cases "map_of (live h') i") (auto simp: holds_def)
  then show ?thesis using listensI [OF _ assms(2,3)] by blast
qed

lemma header_reads:
  assumes "hub_reach E h" and "listens i ops h" and "one_read ops"
    and "h' = snd (handle_event E (Header_done i error bytes rem) h)"
  obtains (aside) ops' where "listens i ops' h'" and "ops' = ops \<or> ops' = []" and "bytes_read i (Header_done i error bytes rem) h = []"
  | (read) x where "ops = [Await_header]" and "\<not> error" and "length bytes = header_length"
      and "map_of (live h) i = Some x" and "reading x = [Await_header]"
      and "bytes_read i (Header_done i error bytes rem) h = bytes"
proof (cases "awaits i (\<lambda>op. op = Await_header) h \<and> (error \<or> length bytes = header_length)")
  case False
  with assms(2,4) show ?thesis by (intro aside [of ops]) auto
next
  case True
  then have ops: "ops = [Await_header]"
    using listens_awaits [OF assms(2), of "\<lambda>op. op = Await_header"] assms(3) by (force simp: one_read_def)
  obtain x where x: "map_of (live h) i = Some x" "reading x = [Await_header]"
    by (rule listens_session [OF assms(2) [unfolded ops] conjunct1 [OF True]]) auto
  show ?thesis
  proof (cases error)
    case err: True
    from header_is_read [OF hub_reach_ok [OF assms(1)] x _ _ assms(4)] err
    have "holds i (\<lambda>z. reading z = [] \<or> False \<and> reading z = [] \<and> True) h'" by simp
    from listens_cases [OF this assms(2,4)] err show ?thesis by (intro aside [of "[]"]) auto
  next
    case False
    with True ops x show ?thesis by (intro read) auto
  qed
qed

lemma body_reads:
  assumes "hub_reach E h" and "listens i ops h" and "one_read ops"
    and "h' = snd (handle_event E (Body_done i error bytes) h)"
  obtains (aside) ops' where "listens i ops' h'" and "ops' = ops \<or> ops' = []" and "bytes_read i (Body_done i error bytes) h = []"
      and "packets_given i (Body_done i error bytes) h = []"
  | (read) ops' where "ops = [Await_body (length bytes)]" and "listens i ops' h'" and "ops' = [] \<or> ops' = [Await_header]"
      and "bytes_read i (Body_done i error bytes) h = bytes" and "map packet_text (packets_given i (Body_done i error bytes) h) = [Ok bytes]"
proof (cases "awaits i (\<lambda>op. is_body op \<and> (error \<or> op = Await_body (length bytes))) h")
  case False
  with assms(2,4) show ?thesis by (intro aside [of ops]) auto
next
  case eff: True
  have "\<exists>op \<in> set ops. is_body op \<and> (error \<or> op = Await_body (length bytes))"
    by (rule listens_awaits [OF assms(2) eff]) (auto simp: is_body_def)
  with assms(3) obtain n where ops: "ops = [Await_body n]" by (auto simp: one_read_def)
  obtain x where x: "map_of (live h) i = Some x" "reading x = [Await_body n]" "error \<or> length bytes = n"
    by (rule listens_session [OF assms(2) [unfolded ops] eff]) (auto simp: is_body_def)
  note after = listens_cases [OF body_is_read [OF hub_reach_ok [OF assms(1)] x assms(4)] assms(2,4)]
  show ?thesis
  proof (cases error)
    case True
    with after show ?thesis by (intro aside [of "[]"]) auto
  next
    case False
    then have n: "length bytes = n" using x(3) by simp
    obtain ops' where go: "listens i ops' h'" "ops' = [] \<or> ops' = [Await_header]" using after by blast
    have "Await_body n \<in> set (reading x)" using x(2) by simp
    then have aw: "Await_body (length bytes) \<in> set (awaiting x)" by (simp add: reading_def n)
    have b: "buf_ok x" by (rule everyD [OF hub_reach_buf [OF assms(1)] x(1)])
    have "packet_text (fill_at header_length bytes (read_msg x)) = Ok bytes"
      by (rule filled_packet_text) (use b aw in \<open>auto simp: buf_ok_def PACKET_SIZE_def header_length_def\<close>)
    with False eff go x(1) ops n show ?thesis by (intro read [OF _ go]) auto
  qed
qed

lemma other_reads:
  assumes "listens i ops h" and "one_read ops"
    and "\<And>error bytes rem. ev \<noteq> Header_done i error bytes rem" and "\<And>error bytes. ev \<noteq> Body_done i error bytes"
  shows "listens i ops (snd (handle_event E ev h))" and "bytes_read i ev h = []" and "packets_given i ev h = []"
proof -
  have "Await_connect \<notin> set ops" using assms(2) by (auto simp: one_read_def)
  from listens_aside [OF assms(1) this assms(3,4)] show "listens i ops (snd (handle_event E ev h))" .
  show "bytes_read i ev h = []" "packets_given i ev h = []" using assms(3,4) by (cases ev; auto)+
qed

text \<open>
  Where the bytes read and the messages given may be, in a stream of packets: between two packets, after
  the header of one, or further on, past a packet whose message was given.
\<close>

inductive framed :: "16 word \<Rightarrow> string list \<Rightarrow> string \<Rightarrow> string outcome list \<Rightarrow> bool" for lp where
  between: "framed lp msgs [] []"
| within: "framed lp (m # msgs) (peer_header (length m) lp) []"
| whole: "framed lp msgs t g \<Longrightarrow> framed lp (m # msgs) (wire lp m @ t) (Ok m # g)"

text \<open>What a session reads from now on, by what it awaits.\<close>

definition follows :: "16 word \<Rightarrow> string list \<Rightarrow> io_op list \<Rightarrow> string \<Rightarrow> string outcome list \<Rightarrow> bool" where
  "follows lp msgs ops t g \<longleftrightarrow>
     (ops = [] \<longrightarrow> t = [] \<and> g = []) \<and>
     (ops = [Await_header] \<longrightarrow> prefix t (concat (map (wire lp) msgs)) \<longrightarrow> framed lp msgs t g) \<and>
     (\<forall>m. ops = [Await_body (length m)] \<longrightarrow> prefix t (m @ concat (map (wire lp) msgs)) \<longrightarrow>
        (t = [] \<and> g = []) \<or> (\<exists>t' g'. t = m @ t' \<and> g = Ok m # g' \<and> framed lp msgs t' g'))"

lemma follows_nothing: "follows lp msgs ops [] []"
  by (simp add: follows_def framed.between)

lemma follows_aside: "follows lp msgs ops' t g \<Longrightarrow> ops' = ops \<or> ops' = [] \<Longrightarrow> follows lp msgs ops t g"
  by (auto simp: follows_def framed.between)

text \<open>A header, and then nothing or the body it announces.\<close>

lemma follows_header:
  assumes "length bytes = header_length" and "\<forall>s \<in> set msgs. length s \<le> max_body_length"
    and "\<And>m ms. msgs = m # ms \<Longrightarrow> bytes = peer_header (length m) lp \<Longrightarrow>
      follows lp ms [] t g \<or> follows lp ms [Await_body (length m)] t g"
  shows "follows lp msgs [Await_header] (bytes @ t) g"
proof -
  have "framed lp msgs (bytes @ t) g" if p: "prefix (bytes @ t) (concat (map (wire lp) msgs))"
  proof (cases msgs)
    case Nil
    with p assms(1) show ?thesis by (simp add: header_length_def)
  next
    case (Cons m ms)
    then have m: "length m \<le> max_body_length" using assms(2) by simp
    have "prefix (bytes @ t) (peer_header (length m) lp @ m @ concat (map (wire lp) ms))"
      using p by (simp add: Cons wire_parts(1) [OF m])
    with assms(1) wire_parts(2) [OF m, of lp] have b: "bytes = peer_header (length m) lp"
      and t: "prefix t (m @ concat (map (wire lp) ms))"
      by (auto simp: prefix_def)
    from assms(3) [OF Cons b] t have "(t = [] \<and> g = []) \<or> (\<exists>t' g'. t = m @ t' \<and> g = Ok m # g' \<and> framed lp ms t' g')"
      unfolding follows_def by blast
    then show ?thesis
      using framed.within [of lp m ms] framed.whole [of lp ms _ _ m] by (auto simp: b Cons wire_parts(1) [OF m])
  qed
  then show ?thesis by (simp add: follows_def)
qed

lemma follows_body:
  assumes "follows lp msgs ops t g" and "ops = [] \<or> ops = [Await_header]"
  shows "follows lp msgs [Await_body (length bytes)] (bytes @ t) (Ok bytes # g)"
proof -
  have "\<exists>t' g'. bytes @ t = m @ t' \<and> Ok bytes # g = Ok m # g' \<and> framed lp msgs t' g'"
    if "length bytes = length m" and "prefix (bytes @ t) (m @ concat (map (wire lp) msgs))" for m
  proof -
    from that have "bytes = m" and t: "prefix t (concat (map (wire lp) msgs))" by (auto simp: prefix_def)
    moreover have "framed lp msgs t g" using assms t by (auto simp: follows_def framed.between)
    ultimately show ?thesis by blast
  qed
  then show ?thesis by (auto simp: follows_def)
qed

text \<open>One event and what follows it.\<close>

lemma event_follows:
  assumes "hub_reach E h" and "listens i ops h" and "one_read ops" and "\<forall>s \<in> set msgs. length s \<le> max_body_length"
    and h': "h' = snd (handle_event E ev h)"
    and IH: "\<And>ops msgs. listens i ops h' \<Longrightarrow> one_read ops \<Longrightarrow> \<forall>s \<in> set msgs. length s \<le> max_body_length \<Longrightarrow> follows lp msgs ops t g"
  shows "follows lp msgs ops (bytes_read i ev h @ t) (map packet_text (packets_given i ev h) @ g)"
proof -
  have skip: ?thesis if "listens i ops' h'" "ops' = ops \<or> ops' = []" "bytes_read i ev h = []" "packets_given i ev h = []" for ops'
    using follows_aside [OF IH [OF that(1) _ assms(4)] that(2)] that assms(3) by auto
  consider (H) error bytes rem where "ev = Header_done i error bytes rem" | (B) error bytes where "ev = Body_done i error bytes"
    | (other) "\<And>error bytes rem. ev \<noteq> Header_done i error bytes rem" "\<And>error bytes. ev \<noteq> Body_done i error bytes" by blast
  then show ?thesis
  proof cases
    case H
    have none: "packets_given i ev h = []" by (simp add: H)
    from assms(1-3) h' [unfolded H] show ?thesis
    proof (cases rule: header_reads)
      case (aside ops')
      with none H show ?thesis by (intro skip [of ops']) auto
    next
      case (read x)
      have "follows lp ms [] t g \<or> follows lp ms [Await_body (length m)] t g"
        if "msgs = m # ms" and "bytes = peer_header (length m) lp" for m ms
      proof -
        have ms: "\<forall>s \<in> set ms. length s \<le> max_body_length" "length m \<le> max_body_length" using assms(4) that(1) by simp_all
        from header_is_read [OF hub_reach_ok [OF assms(1)] read(4,5) disjI2 [OF read(3)] _ h' [unfolded H],
            of "length m" lp] that(2) ms(2)
        have "holds i (\<lambda>z. reading z = [] \<or> \<not> error \<and> reading z = [Await_body (length m)] \<and>
          told rem lp x (remote_ep z)) h'" by blast
        from listens_cases [OF this assms(2) h'] have "listens i [] h' \<or> listens i [Await_body (length m)] h'" by blast
        then show ?thesis using IH [OF _ _ ms(1)] by auto
      qed
      from follows_header [OF read(3) assms(4) this] show ?thesis unfolding none read(6) [folded H] read(1) by simp
    qed
  next
    case B
    from assms(1-3) h' [unfolded B] show ?thesis
    proof (cases rule: body_reads)
      case (aside ops')
      with B show ?thesis by (intro skip [of ops']) auto
    next
      case (read ops')
      have "one_read ops'" using read(3) by auto
      from follows_body [OF IH [OF read(2) this assms(4)] read(3), of bytes]
      show ?thesis unfolding read(4,5) [folded B] read(1) by simp
    qed
  next
    case other
    from other_reads [OF assms(2,3) other] show ?thesis by (intro skip [of ops]) (auto simp: h')
  qed
qed

lemma stream_follows:
  "hub_reach E h \<Longrightarrow> undisturbed E evs h \<Longrightarrow> listens i ops h \<Longrightarrow> one_read ops \<Longrightarrow>
    \<forall>s \<in> set msgs. length s \<le> max_body_length \<Longrightarrow> follows lp msgs ops (bytes_taken E i evs h) (messages_given E i evs h)"
proof (induction evs arbitrary: h ops msgs)
  case (Cons ev evs)
  have "hub_reach E (snd (handle_event E ev h))"
    using hub_reach.event [OF Cons.prems(1), of ev "fst (handle_event E ev h)" "snd (handle_event E ev h)"] Cons.prems(2)
    by (auto split: outcome.splits)
  moreover have "(if event_of i ev then map packet_text (calls_made E ev h) else []) = map packet_text (packets_given i ev h)"
    using arg_cong [OF calls_are_given [OF hub_reach_ok [OF Cons.prems(1)]], of "map packet_text" i ev E] by (simp split: if_splits)
  ultimately show ?case
    using event_follows [OF Cons.prems(1,3-5) refl Cons.IH] Cons.prems(2) by (simp del: handle_event.simps)
qed (simp add: follows_nothing)

text \<open>The place in the stream as a number of packets.\<close>

lemma framed_cut:
  assumes "framed lp msgs t g"
  obtains k where "k \<le> length msgs" and "g = map Ok (take k msgs)"
    and "t = concat (map (wire lp) (take k msgs)) \<or>
      k < length msgs \<and> t = concat (map (wire lp) (take k msgs)) @ peer_header (length (msgs ! k)) lp"
  using assms
proof (induction arbitrary: thesis rule: framed.induct)
  case (between msgs)
  then show ?case by (metis append_Nil concat.simps(1) le0 list.simps(8) take0)
next
  case (within m msgs)
  show ?case by (rule within [of 0]) simp_all
next
  case (whole msgs t g m)
  from whole.IH obtain k where k: "k \<le> length msgs" "g = map Ok (take k msgs)"
    "t = concat (map (wire lp) (take k msgs)) \<or>
      k < length msgs \<and> t = concat (map (wire lp) (take k msgs)) @ peer_header (length (msgs ! k)) lp" by blast
  then show ?case by (intro whole.prems [of "Suc k"]) auto
qed

lemma framed_all:
  assumes "framed lp msgs t g" and "t = concat (map (wire lp) msgs)"
    and "\<And>m. m \<in> set msgs \<Longrightarrow> m \<noteq> [] \<and> length m \<le> max_body_length"
  shows "g = map Ok msgs"
  using assms
proof (induction rule: framed.induct)
  case (between msgs)
  then show ?case by (cases msgs) (use wire_parts in \<open>auto simp: header_length_def\<close>)
next
  case (within m msgs)
  then show ?case using wire_parts(1) [of m lp] by simp
qed simp

lemma waits_listens:
  assumes "hub_ok h" and "map_of (live h) i = Some x" and "Await_header \<in> set (awaiting x)"
  shows "listens i [Await_header] h"
proof -
  have "Await_header \<in> set (reading x)" using assms(3) by (simp add: reading_def)
  moreover have "i < next_object h" "length (reading x) \<le> 1"
    using hub_okD(3) [OF assms(1,2)] by (simp_all add: session_ok_def)
  moreover have "reading y = []" if "acceptor h = Some i" "map_of (live h) i = Some y" for y
    using hub_okD(5) [OF assms(1) that(1)] that(2) by (auto simp: idle_def)
  ultimately show ?thesis
    using assms(2) by (cases "reading x") (auto simp: listens_def holds_def)
qed

section \<open>Properties\<close>

text \<open>
  C7 (messages arrive whole and in order): the bytes a session that waits for a header reads from then on
  are those of the packets of its peer, as far as they have come. Then whatever happens meanwhile, to
  this session and to all others, errors and lost connections included, the node is given exactly the
  messages of the packets that were read, each once, in order and byte for byte; what was read beyond
  them is nothing, or the header of the next packet. When all bytes were read and no message is empty,
  every message was given.
\<close>

theorem messages_arrive_in_order:
  assumes "hub_reach E h" and "map_of (live h) i = Some x" and "Await_header \<in> set (awaiting x)"
    and "undisturbed E evs h" and "\<forall>s \<in> set msgs. length s \<le> max_body_length"
    and "prefix (bytes_taken E i evs h) (concat (map (wire lp) msgs))"
  shows "(\<exists>k \<le> length msgs. messages_given E i evs h = map Ok (take k msgs) \<and>
      (bytes_taken E i evs h = concat (map (wire lp) (take k msgs)) \<or>
       k < length msgs \<and> bytes_taken E i evs h = concat (map (wire lp) (take k msgs)) @ take header_length (wire lp (msgs ! k)))) \<and>
    (bytes_taken E i evs h = concat (map (wire lp) msgs) \<and> (\<forall>s \<in> set msgs. s \<noteq> []) \<longrightarrow>
      messages_given E i evs h = map Ok msgs)"
proof -
  have "listens i [Await_header] h" by (rule waits_listens [OF hub_reach_ok [OF assms(1)] assms(2,3)])
  from stream_follows [OF assms(1,4) this _ assms(5)] assms(6)
  have f: "framed lp msgs (bytes_taken E i evs h) (messages_given E i evs h)" by (simp add: follows_def)
  have head: "take header_length (wire lp (msgs ! k)) = peer_header (length (msgs ! k)) lp" if "k < length msgs" for k
    using wire_parts [of "msgs ! k" lp] assms(5) nth_mem [OF that] by simp
  from framed_cut [OF f] obtain k where "k \<le> length msgs" "messages_given E i evs h = map Ok (take k msgs)"
    "bytes_taken E i evs h = concat (map (wire lp) (take k msgs)) \<or>
      k < length msgs \<and> bytes_taken E i evs h = concat (map (wire lp) (take k msgs)) @ peer_header (length (msgs ! k)) lp" .
  with head have "\<exists>k \<le> length msgs. messages_given E i evs h = map Ok (take k msgs) \<and>
      (bytes_taken E i evs h = concat (map (wire lp) (take k msgs)) \<or>
       k < length msgs \<and> bytes_taken E i evs h = concat (map (wire lp) (take k msgs)) @ take header_length (wire lp (msgs ! k)))"
    by (intro exI [of _ k]) auto
  with framed_all [OF f] assms(5) show ?thesis by blast
qed

text \<open>A peer sends a message of two letters.\<close>

theorem messages_arrive_in_order_witness:
  "\<exists>h. hub_reach demo_env h \<and> messages_given demo_env 0
     [Header_done 0 False (peer_header 2 80) (Inr (demo_tcp 9)), Body_done 0 False ''hi''] h = [Ok ''hi'']"
proof -
  let ?evs = "[Header_done 0 False (peer_header 2 80) (Inr (demo_tcp 9)), Body_done 0 False ''hi'']"
  obtain x h where h: "hub_reach demo_env h" "map_of (live h) 0 = Some x" "waits_for_header x"
    by (rule demo_connected)
  have at: "h = at 0 x h" by (rule at_same [OF hub_okD(1) [OF hub_reach_ok [OF h(1)]] h(2)])
  have two: "(2 :: nat) \<le> max_body_length" by (simp add: max_body_length_def PACKET_SIZE_def header_length_def)
  have ip: "ip_text (demo_tcp 9) \<noteq> []" by (simp add: demo_tcp_def)
  from header_run [OF h(3) ip refl two, of demo_env 0 80 h, folded at] obtain y m where
    1: "handle_event demo_env (Header_done 0 False (peer_header 2 80) (Inr (demo_tcp 9))) h = (Ok (), at 0 y (h\<lparr>session_map := m\<rparr>))"
    "awaiting y = [Await_body 2]" "\<not> local_lock y" by blast
  have body: "Await_body (length ''hi'') \<in> set (awaiting y)" using 1(2) by simp
  have got: "got_message demo_env ep p n = (Ok (), n, [])" for ep p n by (simp add: demo_env_def)
  have "\<exists>z h2. handle_event demo_env (Body_done 0 False ''hi'') (at 0 y (h\<lparr>session_map := m\<rparr>)) = (Ok (), at 0 z h2)"
    using body_run [OF 1(3) body got refl] 1(3) by (auto simp: ret_run simp del: handle_event.simps)
  then obtain h3 where 2: "handle_event demo_env (Body_done 0 False ''hi'') (at 0 y (h\<lparr>session_map := m\<rparr>)) = (Ok (), h3)" by blast
  have u: "undisturbed demo_env ?evs h" using 1(1) 2 by (simp del: handle_event.simps)
  have aw: "Await_header \<in> set (awaiting x)" using h(3) by (simp add: waits_for_header_def)
  have w: "wire 80 ''hi'' = peer_header 2 80 @ ''hi''" "length (peer_header 2 80) = header_length"
    using wire_parts [of "''hi''" 80] two by (simp_all add: numeral_2_eq_2)
  have t: "bytes_taken demo_env 0 ?evs h = concat (map (wire 80) [''hi''])"
    using 1(1,2) w aw h(2) by (simp add: awaits_def del: handle_event.simps)
  have "messages_given demo_env 0 ?evs h = map Ok [''hi'']"
    using messages_arrive_in_order [OF h(1,2) aw u, of "[''hi'']" 80] t two by simp
  then have "messages_given demo_env 0 ?evs h = [Ok ''hi'']" by (simp only: list.map)
  with h(1) show ?thesis by blast
qed

end
