(* ===== verification/Network.thy ===== *)
theory Network
  imports Session_Sealed Session_Stream
begin

text \<open>
  Nodes that run the program, each on a host of its own, and the connections between them: streams of bytes
  that arrive in order, late, in part, or not at all.
\<close>

section \<open>State\<close>

text \<open>
  The systems, by number.  A session is named by its node and its number there: \<open>far\<close> is the node at the
  other end of its connection, \<open>mate\<close> the session there, once the connection has been accepted; \<open>carried\<close>
  are the packets the network has taken from it, \<open>taken\<close> the bytes it has read.
\<close>

type_synonym end_point = "nat \<times> nat"

record network =
  hubs :: "nat \<Rightarrow> node hub"
  far :: "end_point \<Rightarrow> nat option"
  mate :: "end_point \<Rightarrow> end_point option"
  carried :: "end_point \<Rightarrow> packet list"
  taken :: "end_point \<Rightarrow> string"

text \<open>The bytes of a packet, and those of the packets that left a session.\<close>

definition packet_bytes :: "packet \<Rightarrow> string" where
  "packet_bytes p = map the (packet_data p)"

definition flow :: "network \<Rightarrow> end_point \<Rightarrow> string" where
  "flow N e = concat (map packet_bytes (carried N e))"

text \<open>Where a node listens: the address of its host and its port.\<close>

definition addr :: "(nat \<Rightarrow> string) \<Rightarrow> network \<Rightarrow> nat \<Rightarrow> tcp_endpoint" where
  "addr host N n = \<lparr>ip_text = host n, ip_port = listen_port (app (hubs N n))\<rparr>"

section \<open>Steps\<close>

text \<open>An event at a system, which is no undefined behaviour.\<close>

definition event_at :: "platform \<Rightarrow> hub_event \<Rightarrow> node hub \<Rightarrow> node hub \<Rightarrow> bool" where
  "event_at P ev h h' \<longleftrightarrow> (\<exists>r. handle_event (node_env P) ev h = (r, h') \<and> (\<forall>f. r \<noteq> Abort f))"

text \<open>What can fail at any time.\<close>

fun failure :: "hub_event \<Rightarrow> bool" where
  "failure (Accepted error rem) = error"
| "failure (Send uep msg) = False"
| "failure (Connect_done i error rem) = error"
| "failure (Header_done i error bytes rem) = error"
| "failure (Body_done i error bytes) = error"
| "failure (Write_done i error) = error"

text \<open>The session awaits the end of such an operation.\<close>

definition waits :: "network \<Rightarrow> end_point \<Rightarrow> io_op \<Rightarrow> bool" where
  "waits N e op \<longleftrightarrow> (\<exists>x. map_of (live (hubs N (fst e))) (snd e) = Some x \<and> op \<in> set (awaiting x))"

text \<open>
  A step: a node acts by itself; something fails; a connection to the address of a node comes about, which
  the two sides are told in any order, the accepting one the address of the host that connected; the
  network takes a packet that is being written, and the write ends; the session at the other end reads
  bytes that follow those it has read.
\<close>

inductive network_step :: "(nat \<Rightarrow> platform) \<Rightarrow> (nat \<Rightarrow> string) \<Rightarrow> network \<Rightarrow> network \<Rightarrow> bool"
  for Ps host where
  own: "node_acts (Ps n) c (hubs N n) = (r, h') \<Longrightarrow> (\<forall>f. r \<noteq> Abort f) \<Longrightarrow>
    network_step Ps host N (N\<lparr>hubs := (hubs N)(n := h')\<rparr>)"
| fails: "failure ev \<Longrightarrow> event_at (Ps n) ev (hubs N n) h' \<Longrightarrow>
    network_step Ps host N (N\<lparr>hubs := (hubs N)(n := h')\<rparr>)"
| dial: "map_of (live (hubs N n)) i = Some x \<Longrightarrow> Await_connect \<in> set (awaiting x) \<Longrightarrow> far N (n, i) = None \<Longrightarrow>
    remote_ep x = addr host N b \<Longrightarrow>
    network_step Ps host N (N\<lparr>far := (far N)((n, i) \<mapsto> b)\<rparr>)"
| connects: "far N (n, i) = Some b \<Longrightarrow> (\<forall>r. rem = Inr r \<longrightarrow> r = addr host N b) \<Longrightarrow>
    event_at (Ps n) (Connect_done i False rem) (hubs N n) h' \<Longrightarrow>
    network_step Ps host N (N\<lparr>hubs := (hubs N)(n := h')\<rparr>)"
| accepts: "far N (n, i) = Some b \<Longrightarrow> mate N (n, i) = None \<Longrightarrow> acceptor (hubs N b) = Some j \<Longrightarrow> ip_text r = host n \<Longrightarrow>
    event_at (Ps b) (Accepted False (Inr r)) (hubs N b) h' \<Longrightarrow>
    network_step Ps host N (N\<lparr>hubs := (hubs N)(b := h'), far := (far N)((b, j) \<mapsto> n),
      mate := (mate N)((n, i) \<mapsto> (b, j), (b, j) \<mapsto> (n, i))\<rparr>)"
| carries: "far N (n, i) = Some b \<Longrightarrow> map_of (live (hubs N n)) i = Some x \<Longrightarrow> Await_write p \<in> set (awaiting x) \<Longrightarrow>
    carried N (n, i) = written x \<Longrightarrow>
    network_step Ps host N (N\<lparr>carried := (carried N)((n, i) := written x @ [p])\<rparr>)"
| wrote: "map_of (live (hubs N n)) i = Some x \<Longrightarrow> Await_write p \<in> set (awaiting x) \<Longrightarrow>
    carried N (n, i) = written x @ [p] \<Longrightarrow> event_at (Ps n) (Write_done i False) (hubs N n) h' \<Longrightarrow>
    network_step Ps host N (N\<lparr>hubs := (hubs N)(n := h')\<rparr>)"
| reads_header: "mate N (n, i) = Some (b, j) \<Longrightarrow> waits N (n, i) Await_header \<Longrightarrow> length bytes = header_length \<Longrightarrow>
    prefix (taken N (n, i) @ bytes) (flow N (b, j)) \<Longrightarrow> (\<forall>r. rem = Inr r \<longrightarrow> ip_text r = host b) \<Longrightarrow>
    event_at (Ps n) (Header_done i False bytes rem) (hubs N n) h' \<Longrightarrow>
    network_step Ps host N (N\<lparr>hubs := (hubs N)(n := h'), taken := (taken N)((n, i) := taken N (n, i) @ bytes)\<rparr>)"
| reads_body: "mate N (n, i) = Some (b, j) \<Longrightarrow> waits N (n, i) (Await_body (length bytes)) \<Longrightarrow>
    prefix (taken N (n, i) @ bytes) (flow N (b, j)) \<Longrightarrow>
    event_at (Ps n) (Body_done i False bytes) (hubs N n) h' \<Longrightarrow>
    network_step Ps host N (N\<lparr>hubs := (hubs N)(n := h'), taken := (taken N)((n, i) := taken N (n, i) @ bytes)\<rparr>)"

text \<open>Nodes whose constructors have returned, before any connection.\<close>

definition booted :: "platform \<Rightarrow> node hub \<Rightarrow> bool" where
  "booted P h \<longleftrightarrow> (\<exists>k path p mx s r. start_node P k path p mx = (Ok (), s) \<and>
     send_all (sends_of (outbox s)) (fresh_hub s) = (r, h) \<and> (\<forall>f. r \<noteq> Abort f))"

definition apart :: "(nat \<Rightarrow> node hub) \<Rightarrow> network" where
  "apart H = \<lparr>hubs = H, far = (\<lambda>_. None), mate = (\<lambda>_. None), carried = (\<lambda>_. []), taken = (\<lambda>_. [])\<rparr>"

inductive network_reach :: "(nat \<Rightarrow> platform) \<Rightarrow> (nat \<Rightarrow> string) \<Rightarrow> network \<Rightarrow> bool" for Ps host where
  start: "(\<And>n. booted (Ps n) (H n)) \<Longrightarrow> network_reach Ps host (apart H)"
| step: "network_reach Ps host N \<Longrightarrow> network_step Ps host N N' \<Longrightarrow> network_reach Ps host N'"

text \<open>Each system of a network is one.\<close>

lemma booted_reach: "booted P h \<Longrightarrow> system_reach P h"
  by (auto simp: booted_def intro: system_reach.boot)

lemma event_at_reach: "system_reach P h \<Longrightarrow> event_at P ev h h' \<Longrightarrow> network_event ev \<Longrightarrow> system_reach P h'"
  by (auto simp: event_at_def intro: system_reach.network)

lemma failure_event: "failure ev \<Longrightarrow> network_event ev"
  by (cases ev) (simp_all add: network_event_def)

lemma network_step_system:
  assumes "network_step Ps host N N'" and "\<And>n. system_reach (Ps n) (hubs N n)"
  shows "system_reach (Ps n) (hubs N' n)"
proof -
  note event = event_at_reach [OF assms(2)]
  from assms(1) show ?thesis
  proof (cases rule: network_step.cases)
    case (own m c r h')
    with assms(2) system_reach.own [OF assms(2)] show ?thesis by auto
  qed (use assms(2) event in \<open>auto simp: network_event_def dest: failure_event\<close>)
qed

lemma network_reach_system: "network_reach Ps host N \<Longrightarrow> system_reach (Ps n) (hubs N n)"
proof (induction arbitrary: n rule: network_reach.induct)
  case (start H)
  then show ?case by (simp add: apart_def booted_reach)
next
  case (step N N')
  from network_step_system [OF step.hyps(2) step.IH] show ?case .
qed

section \<open>Sessions that connect\<close>

text \<open>The end of connecting: the session is over, or awaits a header from the endpoint it was told to connect to.\<close>

lemma connect_is_done:
  assumes "hub_ok h" and "map_of (live h) i = Some x" and "reading x = [Await_connect]"
    and "h' = snd (handle_event E (Connect_done i error rem) h)"
  shows "holds i (\<lambda>z. reading z = [] \<or> (\<not> error \<and> reading z = [Await_header] \<and>
    (remote_ep z = remote_ep x \<or> rem = Inr (remote_ep z)))) h'"
proof -
  have h: "h = at i x h" by (rule at_same [OF hub_okD(1) [OF assms(1)] assms(2)])
  have free: "\<not> local_lock x" and i: "i < next_object h" using hub_okD(3) [OF assms(1,2)] by (simp_all add: session_ok_def)
  have "Await_connect \<in> set (reading x)" using assms(3) by simp
  then have aw: "awaits i (\<lambda>op. op = Await_connect) h" using assms(2) by (auto simp: awaits_def reading_def)
  define x0 where "x0 = x\<lparr>awaiting := filter (\<lambda>op. op \<noteq> Await_connect) (awaiting x)\<rparr>"
  have "reading x0 = filter (\<lambda>op. op \<noteq> Await_connect) (reading x)" by (simp add: reading_def x0_def conj_commute)
  then have none: "reading x0 = []" using assms(3) by simp
  have "done_op i (\<lambda>op. op = Await_connect) h = (Ok (), at i x0 h)" by (subst h) (simp add: done_op_at x0_def)
  then have run: "h' = snd (handle_connect i error rem (at i x0 h))"
    using aw by (simp add: assms(4) bnd_run)
  show ?thesis
  proof (cases error)
    case True
    have "holds i (\<lambda>z. reading z = []) (at i x0 h)" using none i by (simp add: holds_def)
    moreover have "preserves (holds i (\<lambda>z. reading z = [])) (handle_connect i True rem)"
      using viewed.J_locks [where V = "\<lambda>ops c e. ops = []"] viewed.aside_release [where V = "\<lambda>ops c e. ops = []"]
      by (auto simp: handle_connect_def intro!: preserves_rules holds_access)
    ultimately show ?thesis
      using preservesD [where I = "holds i (\<lambda>z. reading z = [])"] True by (simp add: run)
  next
    case False
    define y where "y = x0\<lparr>ref_count := ref_count x0 - 1\<rparr>"
    have y: "\<not> local_lock y" "reading y = []" "remote_ep y = remote_ep x"
      using free none by (simp_all add: y_def x0_def reading_def)
    have "handle_connect i False rem (at i x0 h) = access i (start rem) (at i y h)"
    proof -
      have "access i (thn lock_local (add_ref (- 1))) (at i x0 h) = (Ok (), at i (y\<lparr>local_lock := True\<rparr>) h)"
        using enter_at [of x0 i h] free by (cases x) (simp add: x0_def y_def)
      moreover have "access i unlock_local (at i (y\<lparr>local_lock := True\<rparr>) h) = (Ok (), at i y h)"
        using unlock_at [of "y\<lparr>local_lock := True\<rparr>" i h] y(1) by (cases y) simp
      ultimately show ?thesis
        by (simp only: handle_connect_def bnd_run [of "access i m" for m] prod.case outcome.case if_True not_False_eq_True)
    qed
    then have "h' = at i (snd (start rem y)) h" using False by (simp add: run)
    then show ?thesis
      using y i False by (auto simp: holds_def start_run [OF y(1)] reading_def split: sum.split)
  qed
qed

text \<open>
  Taking up the session that waits for a peer, which was not told to connect; another one waits after it.
\<close>

lemma accept_is_done:
  assumes "hub_ok h" and "acceptor h = Some i" and "map_of (live h) i = Some x" and "\<not> connected x"
    and "h' = snd (handle_event E (Accepted False (Inr r)) h)"
  shows "taken_up i h'" and "holds i (\<lambda>z. reading z = [Await_header] \<and> \<not> connected z) h'"
proof -
  have free: "\<not> local_lock x" and i: "i < next_object h" using hub_okD(3) [OF assms(1,3)] by (simp_all add: session_ok_def)
  have "reading x = []" using hub_okD(5) [OF assms(1,2)] assms(3) by (auto simp: idle_def)
  then show "taken_up i h'" "holds i (\<lambda>z. reading z = [Await_header] \<and> \<not> connected z) h'"
    using assms free i
    by (auto simp: handle_accept_def start_accept_def make_session_def try_std_run bnd_run when_run access_run
        start_run writes_run holds_def reading_def)
qed

text \<open>A session waits for a peer, and it was not told to connect.\<close>

definition slot_free :: "node hub \<Rightarrow> bool" where
  "slot_free h \<longleftrightarrow> (\<exists>i. acceptor h = Some i \<and> holds i (\<lambda>x. \<not> connected x) h)"

lemma acceptor_idle:
  assumes "hub_ok h" and "acceptor h = Some i" and "\<And>error rem. ev \<noteq> Accepted error rem"
  shows "aside i ev h"
proof -
  obtain x where "map_of (live h) i = Some x" "reading x = []"
    using hub_okD(5) [OF assms(1,2)] by (auto simp: idle_def)
  then have none: "\<not> awaits i p h" if "\<And>op. p op \<Longrightarrow> \<not> is_write op" for p
    using that by (auto simp: awaits_def reading_def filter_empty_conv)
  have "\<not> awaits i (\<lambda>op. op = Await_connect) h" "\<not> awaits i (\<lambda>op. op = Await_header) h" "\<not> awaits i is_body h"
    by (rule none; auto simp: is_body_def)+
  then show ?thesis using assms(3) by (cases ev) auto
qed

lemma slot_free_keeps:
  assumes "preserves (slot (\<lambda>a. a = Some i) i) m" and "preserves (holds i (\<lambda>x. \<not> connected x)) m" and "acceptor h = Some i"
    and "slot_free h"
  shows "slot_free (snd (m h))"
  using assms preservesD [OF assms(1), of h] preservesD [OF assms(2), of h] by (auto simp: slot_free_def holds_def)

lemma slot_free_event:
  assumes "hub_ok h" and "event_at P ev h h'" and "slot_free h"
  shows "slot_free h'"
proof (cases "\<exists>error rem. ev = Accepted error rem")
  case False
  obtain i where i: "acceptor h = Some i" "holds i (\<lambda>x. \<not> connected x) h" using assms(3) by (auto simp: slot_free_def)
  have h': "h' = snd (handle_event (node_env P) ev h)" using assms(2) by (auto simp: event_at_def)
  have "aside i ev h" using acceptor_idle [OF assms(1) i(1)] False by blast
  from viewed.aside_event [where V = "\<lambda>ops c e. \<not> c", OF i(2) this, of "node_env P"]
    preservesD [OF acceptor_event [where ev = ev and A = "\<lambda>a. a = Some i" and i = i and E = "node_env P"], of h] False i
  show ?thesis by (auto simp: slot_free_def holds_def h')
next
  case True
  then obtain error rem j where ev: "ev = Accepted error rem" "acceptor h = Some j" using assms(3) by (auto simp: slot_free_def)
  obtain r where run: "handle_accept j error rem h = (r, h')" "\<And>f. r \<noteq> Abort f"
    using assms(2) ev by (auto simp: event_at_def)
  obtain q h1 where first: "when_cpp (\<not> error) (access j (start rem)) h = (q, h1)" by fastforce
  obtain x where x: "map_of (live h) j = Some x" using hub_okD(5) [OF assms(1) ev(2)] by blast
  have "\<not> local_lock x" using hub_okD(3) [OF assms(1) x] by (simp add: session_ok_def)
  with first have "q \<noteq> Throw (String_exception t)" for t
    by (auto simp: when_run access_run [OF x] start_run split: sum.splits if_splits)
  then have "h' = snd (start_accept h1)"
    using run first
    by (auto simp: handle_accept_def try_std_run bnd_run abort_run start_accept_def make_session_def writes_run
        split: outcome.splits exn.splits if_splits)
  then show ?thesis by (simp add: slot_free_def start_accept_def make_session_def bnd_run writes_run holds_def new_session_def)
qed

lemma slot_free_sends: "slot_free h \<Longrightarrow> slot_free (snd (send_all out h))"
proof -
  assume h: "slot_free h"
  then obtain i where "acceptor h = Some i" by (auto simp: slot_free_def)
  moreover have "preserves (holds i (\<lambda>x. \<not> connected x)) (send_all out)"
    unfolding send_all_def
    by (intro preserves_rules) (auto intro: viewed.aside_send [where V = "\<lambda>ops c e. \<not> c"])
  ultimately show ?thesis using h by (intro slot_free_keeps [OF slot_send_all])
qed

end
