(* ===== verification/Network_Tables.thy ===== *)
theory Network_Tables
  imports Network Handshake
begin

text \<open>
  What the nodes of a network know of each other: the tables have nodes of the network only, each with its
  key and the endpoint it listens on.
\<close>

section \<open>Streams of packets\<close>

text \<open>The bytes of messages that fit into packets, and how they are told apart.\<close>

definition fitting :: "string list \<Rightarrow> bool" where
  "fitting msgs \<longleftrightarrow> (\<forall>s \<in> set msgs. length s \<le> max_body_length)"

definition wires :: "16 word \<Rightarrow> string list \<Rightarrow> string" where
  "wires lp msgs = concat (map (wire lp) msgs)"

lemma wires_simps [simp]: "wires lp [] = []" "wires lp (xs @ ys) = wires lp xs @ wires lp ys"
  "wires lp [s] = wire lp s" "fitting []" "fitting (xs @ ys) \<longleftrightarrow> fitting xs \<and> fitting ys" "fitting [s] \<longleftrightarrow> length s \<le> max_body_length"
  by (auto simp: wires_def fitting_def)

lemma peer_header_inject:
  assumes "peer_header n lp = peer_header k lp" and "n \<le> max_body_length" and "k \<le> max_body_length"
  shows "n = k"
  using decode_peer_header [OF assms(2), of lp empty_packet] decode_peer_header [OF assms(3), of lp empty_packet] assms(1)
  by (metis packet.select_convs(2) packet.surjective packet.update_convs(2,3) prod.inject)

lemma stream_cut:
  "fitting xs \<Longrightarrow> fitting msgs \<Longrightarrow> prefix (wires lp xs @ t) (wires lp msgs) \<Longrightarrow> \<exists>rest. msgs = xs @ rest \<and> prefix t (wires lp rest)"
proof (induction xs arbitrary: msgs)
  case (Cons x xs)
  have x: "wire lp x = peer_header (length x) lp @ x" "length (peer_header (length x) lp) = header_length"
    "length x \<le> max_body_length"
    using wire_parts [of x lp] Cons.prems(1) by (simp_all add: fitting_def)
  obtain m ms where msgs: "msgs = m # ms"
    using Cons.prems(3) x(1,2) by (cases msgs) (auto simp: wires_def header_length_def)
  have m: "wire lp m = peer_header (length m) lp @ m" "length (peer_header (length m) lp) = header_length"
    "length m \<le> max_body_length"
    using wire_parts [of m lp] Cons.prems(2) by (simp_all add: fitting_def msgs)
  from Cons.prems(3) obtain u where
    "peer_header (length x) lp @ x @ wires lp xs @ t @ u = peer_header (length m) lp @ m @ wires lp ms"
    using x(1) m(1) by (auto simp: prefix_def wires_def msgs)
  with x(2) m(2) have h: "peer_header (length x) lp = peer_header (length m) lp"
    and b: "x @ wires lp xs @ t @ u = m @ wires lp ms" by auto
  from peer_header_inject [OF h x(3) m(3)] b have "x = m" "(wires lp xs @ t) @ u = wires lp ms" by auto
  then have "x = m" "prefix (wires lp xs @ t) (wires lp ms)" by (metis prefixI)+
  with Cons.IH [of ms] Cons.prems(1,2) show ?case by (auto simp: msgs fitting_def)
qed simp

lemma next_header:
  assumes "fitting xs" and "fitting msgs" and "prefix (wires lp xs @ bytes) (wires lp msgs)" and "length bytes = header_length"
  obtains k where "k \<le> max_body_length" and "bytes = peer_header k lp"
proof -
  obtain rest where rest: "msgs = xs @ rest" "prefix bytes (wires lp rest)" using stream_cut [OF assms(1-3)] by blast
  then obtain m ms where m: "rest = m # ms" using assms(4) by (cases rest) (auto simp: header_length_def)
  have "length m \<le> max_body_length" using assms(2) rest(1) m by (simp add: fitting_def)
  with wire_parts [OF this, of lp] rest(2) assms(4) show ?thesis
    by (intro that [of "length m"]) (auto simp: m wires_def prefix_def)
qed

lemma next_body:
  assumes "fitting xs" and "fitting msgs" and "length bytes \<le> max_body_length"
    and "prefix ((wires lp xs @ peer_header (length bytes) lp) @ bytes) (wires lp msgs)"
  shows "bytes \<in> set msgs" and "(wires lp xs @ peer_header (length bytes) lp) @ bytes = wires lp (xs @ [bytes])"
proof -
  have w: "(wires lp xs @ peer_header (length bytes) lp) @ bytes = wires lp (xs @ [bytes])"
    using wire_parts(1) [OF assms(3)] by simp
  then show "(wires lp xs @ peer_header (length bytes) lp) @ bytes = wires lp (xs @ [bytes])" .
  from stream_cut [of "xs @ [bytes]" msgs lp "[]"] assms w show "bytes \<in> set msgs" by auto
qed

section \<open>The seat of a session\<close>

text \<open>
  What a session knows of the endpoint \<open>ep\<close> at the other end after the bytes \<open>t\<close>, by what it awaits, whether
  it was told to connect, and its endpoint.
\<close>

definition seat :: "tcp_endpoint \<Rightarrow> string \<Rightarrow> io_op list \<Rightarrow> bool \<Rightarrow> tcp_endpoint \<Rightarrow> bool" where
  "seat ep t ops c e \<longleftrightarrow> ops = [] \<or> (ops = [Await_connect] \<and> t = [] \<and> e = ep) \<or>
     (ops = [Await_header] \<and> (c \<longrightarrow> e = ep) \<and> (\<exists>xs. fitting xs \<and> t = wires (ip_port ep) xs)) \<or>
     (\<exists>k. ops = [Await_body k] \<and> e = ep \<and> k \<le> max_body_length \<and>
        (\<exists>xs. fitting xs \<and> t = wires (ip_port ep) xs @ peer_header k (ip_port ep)))"

definition seated :: "tcp_endpoint \<Rightarrow> string \<Rightarrow> nat \<Rightarrow> 'n hub \<Rightarrow> bool" where
  "seated ep t i h \<longleftrightarrow> acceptor h \<noteq> Some i \<and> holds i (\<lambda>x. seat ep t (reading x) (connected x) (remote_ep x)) h"

lemma seat_over [simp]: "seat ep t [] c e"
  by (simp add: seat_def)

lemma holds_app [simp]: "holds i J (h\<lparr>app := s\<rparr>) = holds i J h"
  by (simp add: holds_def)

lemma seatedI:
  assumes "seated ep t i h" and "h' = snd (handle_event E ev h)"
    and "holds i (\<lambda>x. seat ep t' (reading x) (connected x) (remote_ep x)) h'"
  shows "seated ep t' i h'"
  using assms preservesD [OF slot_event, of i h E ev] by (auto simp: seated_def holds_def)

lemma holds_weaken: "holds i J h \<Longrightarrow> (\<And>x. J x \<Longrightarrow> J' x) \<Longrightarrow> holds i J' h"
  by (auto simp: holds_def)

lemma seated_aside: "seated ep t i h \<Longrightarrow> aside i ev h \<Longrightarrow> h' = snd (handle_event E ev h) \<Longrightarrow> seated ep t i h'"
  by (rule seatedI) (auto simp: seated_def intro: viewed.aside_event [where V = "seat ep t"])

lemma seated_sends: "seated ep t i h \<Longrightarrow> seated ep t i (snd (send_all out h))"
proof -
  assume h: "seated ep t i h"
  have "preserves (holds i (\<lambda>x. seat ep t (reading x) (connected x) (remote_ep x))) (send_all out)"
    unfolding send_all_def by (intro preserves_rules) (auto intro: viewed.aside_send [where V = "seat ep t"])
  from preservesD [OF this, of h] h
  have "holds i (\<lambda>x. seat ep t (reading x) (connected x) (remote_ep x)) (snd (send_all out h))" by (simp add: seated_def)
  moreover have "taken_up i h" using h by (simp add: seated_def holds_def)
  then have "taken_up i (snd (send_all out h))" by (rule preservesD [OF slot_send_all])
  ultimately show ?thesis by (simp add: seated_def)
qed

text \<open>What a session awaits to read is all it awaits to read.\<close>

lemma awaits_reading:
  assumes "hub_ok h" and "awaits i p h" and "\<And>op. p op \<Longrightarrow> \<not> is_write op"
  obtains x op where "map_of (live h) i = Some x" and "reading x = [op]" and "p op"
proof -
  obtain x op where x: "map_of (live h) i = Some x" "op \<in> set (awaiting x)" "p op"
    using assms(2) by (auto simp: awaits_def split: option.splits)
  have "op \<in> set (reading x)" using x(2,3) assms(3) by (simp add: reading_def)
  moreover have "length (reading x) \<le> 1" using hub_okD(3) [OF assms(1) x(1)] by (simp add: session_ok_def)
  ultimately have "reading x = [op]" by (cases "reading x") auto
  with x that show ?thesis by blast
qed

text \<open>A failure ends the session, or is aside.\<close>

lemma seated_fails:
  assumes "hub_ok h" and "seated ep t i h" and "failure ev" and h': "h' = snd (handle_event E ev h)"
  shows "seated ep t i h'"
proof (cases "aside i ev h")
  case False
  from assms(2) have "acceptor h \<noteq> Some i" by (simp add: seated_def)
  with False assms(3) consider (C) rem where "ev = Connect_done i True rem" "awaits i (\<lambda>op. op = Await_connect) h"
    | (H) bytes rem where "ev = Header_done i True bytes rem" "awaits i (\<lambda>op. op = Await_header) h"
    | (B) bytes where "ev = Body_done i True bytes" "awaits i is_body h"
    by (cases ev) auto
  then have over: "holds i (\<lambda>z. reading z = []) h'"
  proof cases
    case C
    obtain x where "map_of (live h) i = Some x" "reading x = [Await_connect]"
      by (rule awaits_reading [OF assms(1) C(2)]) auto
    from connect_is_done [OF assms(1) this h' [unfolded C(1)]] show ?thesis by simp
  next
    case H
    obtain x where "map_of (live h) i = Some x" "reading x = [Await_header]"
      by (rule awaits_reading [OF assms(1) H(2)]) auto
    from header_is_read [OF assms(1) this _ _ h' [unfolded H(1)]] show ?thesis by simp
  next
    case B
    obtain x n where "map_of (live h) i = Some x" "reading x = [Await_body n]"
      by (rule awaits_reading [OF assms(1) B(2)]) (auto simp: is_body_def)
    from body_is_read [OF assms(1) this _ h' [unfolded B(1)]] show ?thesis by simp
  qed
  show ?thesis by (rule seatedI [OF assms(2) h' holds_weaken [OF over]]) simp
qed (rule seated_aside [OF assms(2) _ h'])

text \<open>The ends of connecting and of the two reads.\<close>

lemma seated_connects:
  assumes "hub_ok h" and "seated ep t i h" and "\<forall>r. rem = Inr r \<longrightarrow> r = ep"
    and h': "h' = snd (handle_event E (Connect_done i False rem) h)"
  shows "seated ep t i h'"
proof (cases "awaits i (\<lambda>op. op = Await_connect) h")
  case True
  obtain x where x: "map_of (live h) i = Some x" "reading x = [Await_connect]"
    by (rule awaits_reading [OF assms(1) True]) auto
  then have "t = []" "remote_ep x = ep" using assms(2) by (auto simp: seated_def holds_def seat_def)
  note start = this
  from connect_is_done [OF assms(1) x h'] have to:
    "holds i (\<lambda>z. reading z = [] \<or> reading z = [Await_header] \<and> (remote_ep z = remote_ep x \<or> rem = Inr (remote_ep z))) h'" by simp
  have "fitting []" "t = wires (ip_port ep) []" using start(1) by simp_all
  then show ?thesis
    using start(2) assms(3) by (intro seatedI [OF assms(2) h' holds_weaken [OF to]]) (auto simp only: seat_def)
qed (use seated_aside [OF assms(2) _ h'] in auto)

lemma seated_header:
  assumes "hub_ok h" and "seated ep t i h" and "awaits i (\<lambda>op. op = Await_header) h" and "length bytes = header_length"
    and "fitting msgs" and "prefix (t @ bytes) (wires (ip_port ep) msgs)" and "\<forall>r. rem = Inr r \<longrightarrow> ip_text r = ip_text ep"
    and h': "h' = snd (handle_event E (Header_done i False bytes rem) h)"
  shows "seated ep (t @ bytes) i h'"
proof -
  obtain x where x: "map_of (live h) i = Some x" "reading x = [Await_header]"
    by (rule awaits_reading [OF assms(1,3)]) auto
  then obtain xs where xs: "fitting xs" "t = wires (ip_port ep) xs" and c: "connected x \<longrightarrow> remote_ep x = ep"
    using assms(2) by (auto simp: seated_def holds_def seat_def)
  obtain k where k: "k \<le> max_body_length" "bytes = peer_header k (ip_port ep)"
    by (rule next_header [OF xs(1) assms(5) assms(6) [unfolded xs(2)] assms(4)])
  from header_is_read [OF assms(1) x _ _ h', of k "ip_port ep"] assms(4) k
  have to: "holds i (\<lambda>z. reading z = [] \<or> reading z = [Await_body k] \<and> told rem (ip_port ep) x (remote_ep z)) h'" by simp
  have "told rem (ip_port ep) x e \<Longrightarrow> e = ep" for e
    using c assms(7) by (auto simp: told_def split: if_splits)
  then show ?thesis
    using k xs by (intro seatedI [OF assms(2) h' holds_weaken [OF to]]) (auto simp: seat_def)
qed

lemma seated_body:
  assumes "hub_ok h" and "seated ep t i h" and "awaits i (\<lambda>op. op = Await_body (length bytes)) h"
    and "fitting msgs" and "prefix (t @ bytes) (wires (ip_port ep) msgs)"
    and h': "h' = snd (handle_event E (Body_done i False bytes) h)"
  shows "seated ep (t @ bytes) i h'" and "bytes \<in> set msgs"
    and "\<exists>x. map_of (live h) i = Some x \<and> remote_ep x = ep \<and> Await_body (length bytes) \<in> set (awaiting x)"
proof -
  obtain x where x: "map_of (live h) i = Some x" "reading x = [Await_body (length bytes)]"
    by (rule awaits_reading [OF assms(1,3)]) auto
  then obtain xs where xs: "fitting xs" "t = wires (ip_port ep) xs @ peer_header (length bytes) (ip_port ep)"
    and e: "remote_ep x = ep" "length bytes \<le> max_body_length"
    using assms(2) by (auto simp: seated_def holds_def seat_def)
  note body = next_body [OF xs(1) assms(4) e(2) assms(5) [unfolded xs(2)]]
  show "bytes \<in> set msgs" by (rule body)
  have "Await_body (length bytes) \<in> set (reading x)" using x(2) by simp
  then have "Await_body (length bytes) \<in> set (awaiting x)" by (simp add: reading_def)
  with x e show "\<exists>x. map_of (live h) i = Some x \<and> remote_ep x = ep \<and> Await_body (length bytes) \<in> set (awaiting x)" by blast
  from body_is_read [OF assms(1) x _ h']
  have to: "holds i (\<lambda>z. reading z = [] \<or> reading z = [Await_header] \<and> remote_ep z = remote_ep x) h'" by simp
  have "fitting (xs @ [bytes])" "t @ bytes = wires (ip_port ep) (xs @ [bytes])" using e xs body(2) by simp_all
  then show "seated ep (t @ bytes) i h'"
    using e(1) by (intro seatedI [OF assms(2) h' holds_weaken [OF to]]) (auto simp only: seat_def)
qed

section \<open>The nodes\<close>

text \<open>Contacts that are nodes: the key of one and the endpoint it listens on.\<close>

definition a_node :: "(nat \<Rightarrow> key_text) \<Rightarrow> (nat \<Rightarrow> tcp_endpoint) \<Rightarrow> key_text \<times> endpoint_proto \<Rightarrow> bool" where
  "a_node ids eps c \<longleftrightarrow> (\<exists>b. fst c = ids b \<and> endpoint_to_proto (eps b) = Ok (snd c))"

text \<open>
  What holds of each system: its node keeps its key and port, its contacts are of \<open>T\<close>, and the session that
  waits for a peer has no endpoint of its own.
\<close>

definition truthful :: "(key_text \<times> endpoint_proto \<Rightarrow> bool) \<Rightarrow> platform \<Rightarrow> key_text \<Rightarrow> 16 word \<Rightarrow> node hub \<Rightarrow> bool" where
  "truthful T P me lp h \<longleftrightarrow> system_reach P h \<and> node_of me lp (app h) \<and> known T (contacts (app h)) \<and> slot_free h"

text \<open>An event calls the node with one message at most.\<close>

definition only_from :: "tcp_endpoint \<Rightarrow> packet \<Rightarrow> 'n hub_env \<Rightarrow> 'n hub_env" where
  "only_from e p E = E\<lparr>got_message := (\<lambda>ep m s. if ep = e \<and> m = p then got_message E ep m s else (Ok (), s, []))\<rparr>"

lemma only_from_simps [simp]: "got_disconnected (only_from e p E) = got_disconnected E"
  "got_message (only_from e p E) e p = got_message E e p"
  "got_message (only_from e p E) ep m s = (if ep = e \<and> m = p then got_message E ep m s else (Ok (), s, []))"
  by (simp_all add: only_from_def fun_eq_iff)

lemma event_only:
  assumes "\<And>i bytes. ev \<noteq> Body_done i False bytes"
  shows "handle_event (only_from e p E) ev = handle_event E ev"
proof (cases ev)
  case (Body_done i error bytes)
  with assms have error by (cases error) auto
  with Body_done show ?thesis by (simp add: handle_read_body_def fun_eq_iff)
next
  case (Header_done i error bytes rem)
  have same: "handle_read_header (only_from e p E) = handle_read_header E" by (simp add: fun_eq_iff handle_read_header_def)
  show ?thesis unfolding Header_done handle_event.simps same ..
qed simp_all

text \<open>Where that message introduces nobody but nodes, the contacts stay nodes.\<close>

lemma only_from_known:
  assumes "\<And>body waited c. packet_text p = Ok body \<Longrightarrow> introduces P (e, body, waited) c \<Longrightarrow> T c"
  shows "app_invariant (only_from e p (node_env P)) (\<lambda>s. node_ok s \<and> known T (contacts s))"
proof unfold_locales
  fix s ep m r s' out
  assume s: "node_ok s \<and> known T (contacts s)" and nf: "\<And>f. r \<noteq> Abort f"
    and run: "got_message (only_from e p (node_env P)) ep m s = (r, s', out)"
  show "node_ok s' \<and> known T (contacts s')"
  proof (cases "ep = e \<and> m = p")
    case True
    have "kept (\<lambda>s. node_ok s \<and> known T (contacts s)) (bnd (lift_outcome (packet_text p)) (\<lambda>body. handle_receive P e body))"
    proof (cases "packet_text p")
      case (Ok body)
      have "preserves (\<lambda>s. known T (contacts s) \<and> node_ok s) (handle_receive P e body)"
      proof (rule preservesI)
        fix s assume s: "known T (contacts s) \<and> node_ok s"
        from receive_known [of s T T P e body] s assms [OF Ok] preservesD [OF ok_handle_receive, of s P e body]
        show "known T (contacts (snd (handle_receive P e body s))) \<and> node_ok (snd (handle_receive P e body s))"
          by (auto simp: hearing_of_def)
      qed
      then show ?thesis
        by (intro kept_preserves) (auto simp: preserves_def bnd_run lift_outcome_run Ok)
    qed (auto simp: kept_def bnd_run lift_outcome_run)
    from kept_run_node [OF this s _ _ nf, of s' out] run True show ?thesis by (simp add: node_env_def)
  next
    case False
    then have "s' = s" using run by (auto split: if_splits)
    then show ?thesis using s by simp
  qed
next
  fix s ep r s'
  assume s: "node_ok s \<and> known T (contacts s)" and run: "got_disconnected (only_from e p (node_env P)) ep s = (r, s')"
  then show "node_ok s' \<and> known T (contacts s')"
    using preservesD [OF own.ok_handle_disconnect, of s P ep] preservesD [OF contacts_known.ok_handle_disconnect, of T s P ep]
    by (simp add: node_env_def)
qed

lemma truthful_system: "truthful T P me lp h \<Longrightarrow> system_ok h \<and> hub_ok h \<and> node_ok (app h)"
  using system_reach_ok [of P h] by (auto simp: truthful_def system_ok_def)

text \<open>Events and steps of its own keep this.\<close>

lemma truthful_sealed: "truthful T P me lp h \<Longrightarrow> every (sealed (genuine P me lp)) h"
  using system_reach_genuine [of P h] by (auto simp: truthful_def)

lemma truthful_event:
  assumes "truthful T P me lp h" and "event_at P ev h h'" and "network_event ev"
    and same: "handle_event (only_from e p (node_env P)) ev h = handle_event (node_env P) ev h"
    and intro: "\<And>body waited c. packet_text p = Ok body \<Longrightarrow> introduces P (e, body, waited) c \<Longrightarrow> T c"
  shows "truthful T P me lp h'"
proof -
  obtain r where run: "handle_event (node_env P) ev h = (r, h')" "\<And>f. r \<noteq> Abort f"
    using assms(2) by (auto simp: event_at_def)
  have h: "node_of me lp (app h)" "node_ok (app h) \<and> known T (contacts (app h))" "hub_ok h" "slot_free h" "system_reach P h"
    using assms(1) truthful_system [OF assms(1)] by (simp_all add: truthful_def)
  have "kept (of_app (\<lambda>s. node_ok s \<and> known T (contacts s))) (handle_event (only_from e p (node_env P)) ev)"
    by (rule app_invariant.kept_event, rule only_from_known) (rule intro)
  from keptD [OF this h(2), of r h'] run same have "known T (contacts (app h'))" by simp
  moreover have "node_of me lp (app h')"
    using preservesD [OF genuine.seal_event [where ev = ev and P = P and me = me and lp = lp], of h] assms(3) h(1) truthful_sealed [OF assms(1)] run(1)
    by (auto simp: network_event_def)
  moreover have "slot_free h'" by (rule slot_free_event [OF h(3) assms(2) h(4)])
  moreover have "system_reach P h'" by (rule event_at_reach [OF h(5) assms(2,3)])
  ultimately show ?thesis by (simp add: truthful_def)
qed

lemma truthful_other:
  assumes "truthful T P me lp h" and "event_at P ev h h'" and "network_event ev" and "\<And>i bytes. ev \<noteq> Body_done i False bytes"
  shows "truthful T P me lp h'"
proof -
  define p where "p = \<lparr>packet_data = [], body_size = 1, packet_port = 0\<rparr>"
  have p: "packet_text p \<noteq> Ok body" for body by (simp add: p_def packet_text_def packet_body_def)
  show ?thesis
  proof (rule truthful_event [OF assms(1-3)])
    show "handle_event (only_from e p (node_env P)) ev h = handle_event (node_env P) ev h" for e
      by (rule fun_cong [OF event_only [OF assms(4)]])
  qed (use p in simp)
qed

text \<open>The end of the read of a message from a node.\<close>

lemma truthful_body:
  assumes "truthful T P me lp h" and "event_at P (Body_done i False bytes) h h'"
    and "map_of (live h) i = Some x" and "Await_body (length bytes) \<in> set (awaiting x)"
    and "\<And>epp. endpoint_to_proto (remote_ep x) = Ok epp \<Longrightarrow> T (from_id (parse P bytes), epp)"
  shows "truthful T P me lp h'"
proof -
  let ?p = "fill_at header_length bytes (read_msg x)"
  have given: "packets_given i (Body_done i False bytes) h = [?p]"
    using assms(3,4) by (auto simp: awaits_def)
  have "buf_ok x" using system_reach_ok [of P h] assms(1,3) by (auto simp: truthful_def system_ok_def dest: everyD)
  then have body: "packet_text ?p = Ok bytes"
    using assms(4) by (intro filled_packet_text) (auto simp: buf_ok_def PACKET_SIZE_def header_length_def)
  show ?thesis
  proof (rule truthful_event [OF assms(1,2), of "remote_ep x" ?p])
    show "handle_event (only_from (remote_ep x) ?p (node_env P)) (Body_done i False bytes) h =
        handle_event (node_env P) (Body_done i False bytes) h"
      using truthful_system [OF assms(1)] by (intro body_event_calls [OF _ given assms(3)]) simp_all
    show "T c" if "packet_text ?p = Ok body" "introduces P (remote_ep x, body, waited) c" for body waited c
      using that body assms(5) by (cases c) auto
  qed (simp add: network_event_def)
qed

lemma truthful_call:
  assumes "truthful T P me lp h" and "node_acts P c h = (r, h')" and "\<And>f. r \<noteq> Abort f"
  shows "truthful T P me lp h'"
proof -
  obtain q s out where run: "run_node (run_call P c) (app h) = (q, s, out)" by (cases "run_node (run_call P c) (app h)") auto
  have h: "hub_ok h" "slot_free h" "known T (contacts (app h))" "system_reach P h" "node_of me lp (app h)"
    using assms(1) truthful_system [OF assms(1)] by (simp_all add: truthful_def)
  obtain u h1 where send: "send_all out (h\<lparr>app := s\<rparr>) = (u, h1)" by fastforce
  have h1: "h1 = h'"
    using assms(2) run send by (simp add: node_acts_def bnd_run lift_outcome_run split: outcome.splits)
  have "known T (contacts s)"
    using preservesD [OF contacts_known.ok_run_call, of T "(app h)\<lparr>sessions := [], outbox := []\<rparr>" P c] h(3) run
    by (simp add: run_node_def split: prod.splits)
  moreover have "app h' = s"
    using preservesD [OF app_send_all [where I = "\<lambda>n. n = s" and out = out], of "h\<lparr>app := s\<rparr>"] send h1 by simp
  moreover have "slot_free h'"
    using slot_free_sends [of "h\<lparr>app := s\<rparr>" out] h(2) send h1 by (simp add: slot_free_def holds_def)
  moreover have "node_of me lp (app h')" using genuine_call [OF h(5) truthful_sealed [OF assms(1)] assms(2)] by simp
  moreover have "system_reach P h'" by (rule system_reach.own [OF h(4) assms(2)]) (simp add: assms(3))
  ultimately show ?thesis by (simp add: truthful_def)
qed

lemma seated_call:
  assumes "seated ep t i h" and "node_acts P c h = (r, h')"
  shows "seated ep t i h'"
proof -
  obtain q s out where run: "run_node (run_call P c) (app h) = (q, s, out)" by (cases "run_node (run_call P c) (app h)") auto
  obtain u h1 where send: "send_all out (h\<lparr>app := s\<rparr>) = (u, h1)" by fastforce
  have "h1 = h'" using assms(2) run send by (simp add: node_acts_def bnd_run lift_outcome_run split: outcome.splits)
  moreover have "seated ep t i (h\<lparr>app := s\<rparr>)" using assms(1) by (simp add: seated_def)
  from seated_sends [OF this, of out] send have "seated ep t i h1" by simp
  ultimately show ?thesis by simp
qed

section \<open>The network\<close>

text \<open>
  The invariant: every system is truthful, packets carried are those of the node they come from, each session
  of a connection has its seat, and only those that have a mate have read anything.
\<close>

definition truth :: "(nat \<Rightarrow> platform) \<Rightarrow> (nat \<Rightarrow> key_text) \<Rightarrow> (nat \<Rightarrow> tcp_endpoint) \<Rightarrow> network \<Rightarrow> bool" where
  "truth Ps ids eps N \<longleftrightarrow>
     (\<forall>n. truthful (a_node ids eps) (Ps n) (ids n) (ip_port (eps n)) (hubs N n)) \<and>
     (\<forall>n i p. p \<in> set (carried N (n, i)) \<longrightarrow> genuine (Ps n) (ids n) (ip_port (eps n)) p) \<and>
     (\<forall>n i b. far N (n, i) = Some b \<longrightarrow> seated (eps b) (taken N (n, i)) i (hubs N n)) \<and>
     (\<forall>n i b j. mate N (n, i) = Some (b, j) \<longrightarrow> far N (n, i) = Some b) \<and>
     (\<forall>n i. mate N (n, i) = None \<longrightarrow> taken N (n, i) = [])"

lemma truthD:
  assumes "truth Ps ids eps N"
  shows "truthful (a_node ids eps) (Ps n) (ids n) (ip_port (eps n)) (hubs N n)"
    and "p \<in> set (carried N (n, i)) \<Longrightarrow> genuine (Ps n) (ids n) (ip_port (eps n)) p"
    and "far N (n, i) = Some b \<Longrightarrow> seated (eps b) (taken N (n, i)) i (hubs N n)"
    and "mate N (n, i) = Some (b, j) \<Longrightarrow> far N (n, i) = Some b" and "mate N (n, i) = None \<Longrightarrow> taken N (n, i) = []"
  using assms unfolding truth_def by blast+

lemma truth_addr:
  assumes "truth Ps ids eps N" and "\<And>n. ip_text (eps n) = host n"
  shows "addr host N n = eps n"
proof -
  have "listen_port (app (hubs N n)) = ip_port (eps n)" using truthD(1) [OF assms(1), of n] by (simp add: truthful_def)
  then show ?thesis by (cases "eps n") (simp add: addr_def assms(2) [symmetric])
qed

text \<open>A step at one system, in which one session may read.\<close>

lemma truth_hub:
  assumes "truth Ps ids eps N" and "truthful (a_node ids eps) (Ps n) (ids n) (ip_port (eps n)) h'"
    and "\<And>i b. far N (n, i) = Some b \<Longrightarrow> seated (eps b) (taken N (n, i)) i h'"
  shows "truth Ps ids eps (N\<lparr>hubs := (hubs N)(n := h')\<rparr>)"
  using assms unfolding truth_def by simp

lemma truth_read:
  assumes "truth Ps ids eps N" and "truthful (a_node ids eps) (Ps n) (ids n) (ip_port (eps n)) h'"
    and "mate N (n, i) = Some (c, k)" and "seated (eps c) t i h'"
    and "\<And>j b. j \<noteq> i \<Longrightarrow> far N (n, j) = Some b \<Longrightarrow> seated (eps b) (taken N (n, j)) j h'"
  shows "truth Ps ids eps (N\<lparr>hubs := (hubs N)(n := h'), taken := (taken N)((n, i) := t)\<rparr>)"
  using assms truthD(4) [OF assms(1,3)] unfolding truth_def by simp

text \<open>The bytes of the packets that left a node are those of messages with its key.\<close>

lemma flow_messages:
  assumes "truth Ps ids eps N"
  obtains msgs where "flow N (b, j) = wires (ip_port (eps b)) msgs" and "fitting msgs"
    and "\<And>s. s \<in> set msgs \<Longrightarrow> \<exists>m. s = serialize (Ps b) m \<and> from_id m = ids b"
proof -
  define body where "body p = (SOME s. message_packet (ip_port (eps b)) s = Ok p \<and> (\<exists>m. s = serialize (Ps b) m \<and> from_id m = ids b))" for p
  have body: "message_packet (ip_port (eps b)) (body p) = Ok p \<and> (\<exists>m. body p = serialize (Ps b) m \<and> from_id m = ids b)"
    if "p \<in> set (carried N (b, j))" for p
    unfolding body_def by (rule someI_ex) (use truthD(2) [OF assms that] in \<open>auto simp: genuine_def\<close>)
  have fits: "length (body p) \<le> max_body_length" if "p \<in> set (carried N (b, j))" for p
    using body [OF that] packet_overflow [of "ip_port (eps b)" "body p"] by simp
  have "packet_bytes p = wire (ip_port (eps b)) (body p)" if "p \<in> set (carried N (b, j))" for p
    using body [OF that] by (simp add: wire_def packet_bytes_def)
  then have "flow N (b, j) = wires (ip_port (eps b)) (map body (carried N (b, j)))"
    by (simp add: flow_def wires_def comp_def cong: map_cong)
  with body fits show ?thesis by (intro that) (auto simp: fitting_def)
qed

text \<open>What an event at a system is to the sessions: a function of its state.\<close>

lemma event_at_snd: "event_at P ev h h' \<Longrightarrow> h' = snd (handle_event (node_env P) ev h)"
  by (auto simp: event_at_def)

lemma waits_awaits: "waits N (n, i) op \<Longrightarrow> awaits i (\<lambda>op'. op' = op) (hubs N n)"
  by (auto simp: waits_def awaits_def)

text \<open>The steps.\<close>

lemma truth_event:
  assumes "truth Ps ids eps N" and "event_at (Ps n) ev (hubs N n) h'" and "network_event ev"
    and "\<And>i bytes. ev \<noteq> Body_done i False bytes"
    and "\<And>i b. far N (n, i) = Some b \<Longrightarrow> seated (eps b) (taken N (n, i)) i h'"
  shows "truth Ps ids eps (N\<lparr>hubs := (hubs N)(n := h')\<rparr>)"
  by (rule truth_hub [OF assms(1) truthful_other [OF truthD(1) [OF assms(1)] assms(2-4)] assms(5)])

lemma truth_accepts:
  assumes N: "truth Ps ids eps N" and "\<And>n. ip_text (eps n) = host n" and "far N (n, i) = Some b" and "mate N (n, i) = None"
    and "acceptor (hubs N b) = Some j" and "ip_text r = host n" and ev: "event_at (Ps b) (Accepted False (Inr r)) (hubs N b) h'"
  shows "truth Ps ids eps (N\<lparr>hubs := (hubs N)(b := h'), far := (far N)((b, j) \<mapsto> n),
      mate := (mate N)((n, i) \<mapsto> (b, j), (b, j) \<mapsto> (n, i))\<rparr>)"
proof -
  note h' = event_at_snd [OF ev]
  have ok: "hub_ok (hubs N b)" "slot_free (hubs N b)"
    using truthful_system [OF truthD(1) [OF N, of b]] truthD(1) [OF N, of b] by (simp_all add: truthful_def)
  obtain x where x: "map_of (live (hubs N b)) j = Some x" using hub_okD(5) [OF ok(1) assms(5)] by blast
  then have "\<not> connected x" using ok(2) assms(5) by (auto simp: slot_free_def holds_def)
  note accepted = accept_is_done [OF ok(1) assms(5) x this h']
  have "seat (eps n) [] (reading z) (connected z) (remote_ep z)" if "reading z = [Await_header] \<and> \<not> connected z" for z
  proof -
    have "fitting []" "[] = wires (ip_port (eps n)) []" by simp_all
    with that show ?thesis unfolding seat_def by blast
  qed
  with accepted have new: "seated (eps n) [] j h'" by (auto simp: seated_def intro: holds_weaken)
  have unseated: "far N (b, j) \<noteq> Some c" for c using truthD(3) [OF N] assms(5) by (auto simp: seated_def)
  then have idle: "mate N (b, j) = None" "taken N (b, j) = []"
    using truthD(4,5) [OF N] by (metis not_None_eq surj_pair)+
  have seats: "seated (eps c) (taken N (b, k)) k h'" if "far N (b, k) = Some c" for c k
    using truthD(3) [OF N that] by (intro seated_aside [OF _ _ h']) (auto simp: seated_def)
  have "truthful (a_node ids eps) (Ps b) (ids b) (ip_port (eps b)) h'"
    by (rule truthful_other [OF truthD(1) [OF N] ev]) (simp_all add: network_event_def)
  with N new seats idle unseated assms(3,4) show ?thesis unfolding truth_def by auto
qed

lemma truth_hub_ok: "truth Ps ids eps N \<Longrightarrow> hub_ok (hubs N n)"
  using truthful_system [OF truthD(1)] by blast

lemma truth_dials:
  assumes N: "truth Ps ids eps N" and "map_of (live (hubs N n)) i = Some x" and "Await_connect \<in> set (awaiting x)"
    and "far N (n, i) = None" and "remote_ep x = eps b"
  shows "truth Ps ids eps (N\<lparr>far := (far N)((n, i) \<mapsto> b)\<rparr>)"
proof -
  have "Await_connect \<in> set (reading x)" using assms(3) by (simp add: reading_def)
  moreover have "length (reading x) \<le> 1" and i: "i < next_object (hubs N n)"
    using hub_okD(3) [OF truth_hub_ok [OF N] assms(2)] by (simp_all add: session_ok_def)
  ultimately have r: "reading x = [Await_connect]" by (cases "reading x") auto
  then have "acceptor (hubs N n) \<noteq> Some i" using hub_okD(5) [OF truth_hub_ok [OF N]] assms(2) by (fastforce simp: idle_def)
  moreover have "seat (eps b) [] (reading x) (connected x) (remote_ep x)" using r assms(5) by (simp add: seat_def)
  ultimately have "seated (eps b) [] i (hubs N n)" using i assms(2) by (simp add: seated_def holds_def)
  moreover have free: "mate N (n, i) = None"
    using truthD(4) [OF N] assms(4) by (metis not_None_eq surj_pair option.distinct(1))
  moreover have "taken N (n, i) = []" by (rule truthD(5) [OF N free])
  ultimately show ?thesis using N unfolding truth_def by auto
qed

lemma truth_connects:
  assumes N: "truth Ps ids eps N" and "far N (n, i) = Some b" and "\<forall>r. rem = Inr r \<longrightarrow> r = eps b"
    and ev: "event_at (Ps n) (Connect_done i False rem) (hubs N n) h'"
  shows "truth Ps ids eps (N\<lparr>hubs := (hubs N)(n := h')\<rparr>)"
proof -
  have "seated (eps c) (taken N (n, j)) j h'" if far: "far N (n, j) = Some c" for j c
  proof (cases "j = i")
    case True
    with far assms(2) have "c = b" by simp
    then show ?thesis
      using seated_connects [OF truth_hub_ok [OF N] truthD(3) [OF N far] _ event_at_snd [OF ev, folded True]] assms(3) by simp
  qed (rule seated_aside [OF truthD(3) [OF N far] _ event_at_snd [OF ev]], simp)
  from truth_event [OF N ev _ _ this] show ?thesis by (simp add: network_event_def)
qed

lemma truth_carries:
  assumes N: "truth Ps ids eps N" and "map_of (live (hubs N n)) i = Some x" and "Await_write p \<in> set (awaiting x)"
  shows "truth Ps ids eps (N\<lparr>carried := (carried N)((n, i) := written x @ [p])\<rparr>)"
proof -
  have "every (sealed (genuine (Ps n) (ids n) (ip_port (eps n)))) (hubs N n)" by (rule truthful_sealed [OF truthD(1) [OF N]])
  from everyD [OF this assms(2)] assms(3)
  have "genuine (Ps n) (ids n) (ip_port (eps n)) q" if "q \<in> set (written x @ [p])" for q
    using that by (auto simp: sealed_def packet_log_def)
  then show ?thesis using N unfolding truth_def by auto
qed

text \<open>The other sessions of a system keep their seats when one of them reads.\<close>

lemma others_seated:
  assumes "truth Ps ids eps N" and "\<And>j. j \<noteq> i \<Longrightarrow> aside j ev (hubs N n)" and "event_at (Ps n) ev (hubs N n) h'"
    and "j \<noteq> i" and "far N (n, j) = Some b"
  shows "seated (eps b) (taken N (n, j)) j h'"
  by (rule seated_aside [OF truthD(3) [OF assms(1,5)] assms(2) [OF assms(4)] event_at_snd [OF assms(3)]])

lemma truth_reads_header:
  assumes N: "truth Ps ids eps N" and "mate N (n, i) = Some (b, j)" and "waits N (n, i) Await_header"
    and "length bytes = header_length" and "prefix (taken N (n, i) @ bytes) (flow N (b, j))"
    and "\<forall>r. rem = Inr r \<longrightarrow> ip_text r = ip_text (eps b)"
    and ev: "event_at (Ps n) (Header_done i False bytes rem) (hubs N n) h'"
  shows "truth Ps ids eps (N\<lparr>hubs := (hubs N)(n := h'), taken := (taken N)((n, i) := taken N (n, i) @ bytes)\<rparr>)"
proof (rule truth_read [OF N _ assms(2)])
  obtain msgs where msgs: "flow N (b, j) = wires (ip_port (eps b)) msgs" "fitting msgs"
    using flow_messages [OF N, of b j] by blast
  show "seated (eps b) (taken N (n, i) @ bytes) i h'"
    by (rule seated_header [OF truth_hub_ok [OF N] truthD(3) [OF N truthD(4) [OF N assms(2)]] waits_awaits [OF assms(3)]
          assms(4) msgs(2) assms(5) [unfolded msgs(1)] assms(6) event_at_snd [OF ev]])
  show "truthful (a_node ids eps) (Ps n) (ids n) (ip_port (eps n)) h'"
    by (rule truthful_other [OF truthD(1) [OF N] ev]) (simp_all add: network_event_def)
qed (rule others_seated [OF N _ ev], auto)

text \<open>A message that is read is one of the node at the other end, and comes from its endpoint.\<close>

lemma message_of_mate:
  assumes N: "truth Ps ids eps N" and "mate N (n, i) = Some (b, j)" and "waits N (n, i) (Await_body (length bytes))"
    and "prefix (taken N (n, i) @ bytes) (flow N (b, j))" and ev: "event_at (Ps n) (Body_done i False bytes) (hubs N n) h'"
  obtains x m where "map_of (live (hubs N n)) i = Some x" and "remote_ep x = eps b" and "Await_body (length bytes) \<in> set (awaiting x)"
    and "bytes = serialize (Ps b) m" and "from_id m = ids b" and "seated (eps b) (taken N (n, i) @ bytes) i h'"
proof -
  obtain msgs where msgs: "flow N (b, j) = wires (ip_port (eps b)) msgs" "fitting msgs"
    "\<And>s. s \<in> set msgs \<Longrightarrow> \<exists>m. s = serialize (Ps b) m \<and> from_id m = ids b"
    using flow_messages [OF N, of b j] by blast
  note body = seated_body [OF truth_hub_ok [OF N] truthD(3) [OF N truthD(4) [OF N assms(2)]] waits_awaits [OF assms(3)]
      msgs(2) assms(4) [unfolded msgs(1)] event_at_snd [OF ev]]
  from body(1,3) msgs(3) [OF body(2)] that show ?thesis by blast
qed

lemma truth_reads_body:
  assumes N: "truth Ps ids eps N" and formats: "\<And>m. from_id (parse (Ps n) (serialize (Ps b) m)) = from_id m"
    and "mate N (n, i) = Some (b, j)" and "waits N (n, i) (Await_body (length bytes))"
    and "prefix (taken N (n, i) @ bytes) (flow N (b, j))" and ev: "event_at (Ps n) (Body_done i False bytes) (hubs N n) h'"
  shows "truth Ps ids eps (N\<lparr>hubs := (hubs N)(n := h'), taken := (taken N)((n, i) := taken N (n, i) @ bytes)\<rparr>)"
proof (rule truth_read [OF N _ assms(3)])
  obtain x m where x: "map_of (live (hubs N n)) i = Some x" "remote_ep x = eps b" "Await_body (length bytes) \<in> set (awaiting x)"
    "bytes = serialize (Ps b) m" "from_id m = ids b" and "seated (eps b) (taken N (n, i) @ bytes) i h'"
    by (rule message_of_mate [OF N assms(3-5) ev])
  then show "seated (eps b) (taken N (n, i) @ bytes) i h'" by blast
  have "from_id (parse (Ps n) bytes) = ids b" by (simp add: x(4,5) formats)
  then show "truthful (a_node ids eps) (Ps n) (ids n) (ip_port (eps n)) h'"
    by (intro truthful_body [OF truthD(1) [OF N] ev x(1,3)]) (auto simp: a_node_def x(2))
qed (rule others_seated [OF N _ ev], auto)

lemma truth_step:
  assumes "network_step Ps host N N'" and N: "truth Ps ids eps N" and host: "\<And>n. ip_text (eps n) = host n"
    and formats: "\<And>n b m. from_id (parse (Ps n) (serialize (Ps b) m)) = from_id m"
  shows "truth Ps ids eps N'"
proof -
  have ep: "addr host N b = eps b" for b by (rule truth_addr [OF N host])
  note seatD = truthD(3) [OF N]
  from assms(1) show ?thesis
  proof (cases rule: network_step.cases)
    case (own n c r h')
    with seated_call [OF seatD own(2)] truth_hub [OF N truthful_call [OF truthD(1) [OF N] own(2)]] show ?thesis by auto
  next
    case (fails ev n h')
    have "\<And>i bytes. ev \<noteq> Body_done i False bytes" using fails(2) by (cases ev) auto
    from truth_event [OF N fails(3) failure_event [OF fails(2)] this
        seated_fails [OF truth_hub_ok [OF N] seatD fails(2) event_at_snd [OF fails(3)]]]
    show ?thesis by (simp add: fails(1))
  next
    case (dial n i x b)
    from truth_dials [OF N dial(2-4)] dial(5) ep show ?thesis by (simp add: dial(1))
  next
    case (connects n i b rem h')
    from truth_connects [OF N connects(2) _ connects(4)] connects(3) ep show ?thesis by (simp add: connects(1))
  next
    case (accepts n i b j r h')
    from truth_accepts [OF N host accepts(2-6)] show ?thesis by (simp add: accepts(1))
  next
    case (carries n i b x p)
    from truth_carries [OF N carries(3,4)] show ?thesis by (simp add: carries(1))
  next
    case (wrote n i x p h')
    from truth_event [OF N wrote(5) _ _ seated_aside [OF seatD _ event_at_snd [OF wrote(5)]]] show ?thesis
      by (simp add: wrote(1) network_event_def)
  next
    case (reads_header n i b j bytes rem h')
    from truth_reads_header [OF N reads_header(2-5) _ reads_header(7)] reads_header(6) host show ?thesis
      by (simp add: reads_header(1))
  next
    case (reads_body n i b j bytes h')
    from truth_reads_body [OF N formats reads_body(2-5)] show ?thesis by (simp add: reads_body(1))
  qed
qed

text \<open>The network starts with it.\<close>

lemma booted_facts:
  assumes "booted P h"
  shows "known T (contacts (app h))" and "slot_free h"
proof -
  obtain k path p mx s r where boot: "start_node P k path p mx = (Ok (), s)"
    "send_all (sends_of (outbox s)) (fresh_hub s) = (r, h)" using assms by (auto simp: booted_def)
  have fresh: "app (fresh_hub s) = s" "slot_free (fresh_hub s)"
    by (simp_all add: fresh_hub_def start_accept_def make_session_def bnd_run writes_run slot_free_def holds_def new_session_def)
  have "known T (contacts s)"
    using contacts_known.ok_start_node [of T k p mx P path] boot(1) by (simp add: new_node_def new_bucket_def known_def)
  moreover have "app h = s"
    using preservesD [OF app_send_all [where I = "\<lambda>n. n = s" and out = "sends_of (outbox s)"], of "fresh_hub s"] boot(2) fresh by simp
  ultimately show "known T (contacts (app h))" by simp
  show "slot_free h" using slot_free_sends [OF fresh(2), of "sends_of (outbox s)"] boot(2) by simp
qed

lemma truth_start:
  assumes "\<And>n. booted (Ps n) (H n)"
  shows "truth Ps (\<lambda>n. node_id (app (H n))) (addr host (apart H)) (apart H)"
  unfolding truth_def truthful_def
  using booted_reach [OF assms] booted_facts [OF assms] by (simp add: apart_def addr_def)

text \<open>Keys and endpoints stay what they are, so the invariant can be stated with those of the present.\<close>

lemma truth_now:
  assumes "truth Ps ids eps N" and "\<And>n. ip_text (eps n) = host n"
  shows "ids = (\<lambda>n. node_id (app (hubs N n)))" and "eps = addr host N"
proof -
  show "ids = (\<lambda>n. node_id (app (hubs N n)))" using truthD(1) [OF assms(1)] by (simp add: truthful_def fun_eq_iff)
  show "eps = addr host N" using truth_addr [OF assms] by (simp add: fun_eq_iff)
qed

lemma network_reach_truth:
  assumes "network_reach Ps host N" and "\<And>n b m. from_id (parse (Ps n) (serialize (Ps b) m)) = from_id m"
  shows "truth Ps (\<lambda>n. node_id (app (hubs N n))) (addr host N) N"
  using assms(1)
proof (induction rule: network_reach.induct)
  case (start H)
  from truth_start [OF this] show ?case by (simp add: apart_def)
next
  case (step N N')
  have host: "ip_text (addr host N n) = host n" for n by (simp add: addr_def)
  from truth_step [OF step.hyps(2) step.IH host assms(2)] truth_now [of Ps _ _ N' host, OF _ host]
  show ?case by metis
qed

section \<open>Properties\<close>

text \<open>
  C4 (the tables of a network are true): nodes run the program, each on a host of its own; connections carry
  bytes in order, late, in part, or not at all; operations fail, connections break, and the nodes do what
  they like.  As long as nothing is undefined, each contact in the table of a node is a node of the network,
  under its own key, with the address of its host and the port it listens on, and it is another one.  The
  wire format is that of protocol buffers: the sender of a message is read as it was written.
\<close>

theorem network_tables_are_true:
  assumes "network_reach Ps host N" and "\<And>n b m. from_id (parse (Ps n) (serialize (Ps b) m)) = from_id m"
    and "e \<in> set (entries (contacts (app (hubs N n))))"
  shows "\<exists>b. b \<noteq> n \<and> contact_key (snd e) = node_id (app (hubs N b)) \<and>
    endpoint_to_proto (addr host N b) = Ok (contact_ep (snd e))"
proof -
  have t: "truthful (a_node (\<lambda>n. node_id (app (hubs N n))) (addr host N)) (Ps n) (node_id (app (hubs N n)))
      (ip_port (addr host N n)) (hubs N n)"
    by (rule truthD(1) [OF network_reach_truth [OF assms(1,2)]])
  then obtain b where b: "contact_key (snd e) = node_id (app (hubs N b))"
    "endpoint_to_proto (addr host N b) = Ok (contact_ep (snd e))"
    using assms(3) by (auto simp: truthful_def known_def a_node_def)
  have "node_ok (app (hubs N n))" using truthful_system [OF t] by simp
  then have "contact_key (snd e) \<noteq> node_id (app (hubs N n))"
    using assms(3) by (auto simp: node_ok_def bucket_ok_def entry_ok_def)
  with b show ?thesis by metis
qed

text \<open>Two of the nodes: the first pings the second, which reads the ping.\<close>

definition pair_host :: "nat \<Rightarrow> string" where
  "pair_host n = (if n = 0 then ''a'' else ''b'')"

definition pair_network :: network where
  "pair_network = apart (\<lambda>n. fresh_hub (pair_start (if n = 0 then 1 else 2)))"

abbreviation pair_reach :: "network \<Rightarrow> bool" where
  "pair_reach \<equiv> network_reach (\<lambda>_. pair_platform) pair_host"

lemma pair_reach_event:
  "handle_event (node_env P) ev h = (Ok (), h') \<Longrightarrow> event_at P ev h h'"
  by (simp add: event_at_def)

lemma pair_network_start: "pair_reach pair_network"
  unfolding pair_network_def
proof (rule network_reach.start)
  fix n
  have "start_node pair_platform k [] 80 10 = (Ok (), pair_start k)" for k
    using pair_start_runs by (simp add: pair_start_def prod_eq_iff)
  moreover have "send_all (sends_of (outbox (pair_start k))) (fresh_hub (pair_start k)) = (Ok (), fresh_hub (pair_start k))" for k
    by (simp add: pair_start_state send_all_def ret_run)
  ultimately show "booted pair_platform (fresh_hub (pair_start (if n = 0 then 1 else 2)))"
    unfolding booted_def by blast
qed

lemma app_fresh_hub [simp]: "app (fresh_hub s) = s"
  by (simp add: fresh_hub_def start_accept_def make_session_def bnd_run writes_run)

text \<open>The ping leaves the first node, its connection comes about, and the network takes it.\<close>

lemma pair_connected:
  obtains N x c where "pair_reach N" and "mate N (1, 0) = Some (0, 1)" and "carried N (0, 1) = [c]" and "taken N (1, 0) = []"
    and "message_packet 80 (CHR ''p'' # key_to_string 1) = Ok c" and "map_of (live (hubs N 1)) 0 = Some x" and "waits_for_header x"
    and "app (hubs N 1) = pair_start 2"
proof -
  let ?tB = "\<lparr>ip_text = ''b'', ip_port = 80\<rparr>" and ?epB = "Endpoint ''b'' (show_nat (unat (80 :: 16 word)))"
  let ?hA = "fresh_hub (pair_start 1)" and ?hB = "fresh_hub (pair_start 2)" and ?s = "CHR ''p'' # key_to_string 1"
  have s: "serialize pair_platform (new_message SEND_PING (key_to_string 1) 7) = ?s" "length ?s \<le> max_body_length"
    by (simp_all add: pair_platform_def new_message_def length_key_to_string max_body_length_def PACKET_SIZE_def header_length_def)
  obtain c where c: "message_packet 80 ?s = Ok c" using message_packet_data [OF s(2)] by blast
  have ok: "system_ok ?hA" by (rule system_reach_ok [OF pair_system])
  from ping_leaves [OF ok, of ?tB ?epB pair_platform 7 c] s c
  obtain a where ping: "node_acts pair_platform (Call_ping_endpoint ?epB 7) ?hA =
      (Ok (), at 1 (pinging ?tB c) (?hA\<lparr>app := a, next_object := Suc 1\<rparr>))"
    by (auto simp: fresh_acceptor pair_start_state pair_platform_def demo_platform_simps)
  define hA where "hA = at 1 (pinging ?tB c) (?hA\<lparr>app := a, next_object := Suc 1\<rparr>)"
  have hA: "map_of (live hA) 1 = Some (pinging ?tB c)" by (simp add: hA_def)
  define N1 where "N1 = pair_network\<lparr>hubs := (hubs pair_network)(0 := hA)\<rparr>"
  have 1: "pair_reach N1" unfolding N1_def
    by (rule network_reach.step [OF pair_network_start network_step.own [of _ _ "Call_ping_endpoint ?epB 7" _ "Ok ()"]])
      (use ping in \<open>simp_all add: pair_network_def apart_def hA_def\<close>)
  define N2 where "N2 = N1\<lparr>far := (far N1)((0, 1) \<mapsto> 1)\<rparr>"
  have 2: "pair_reach N2" unfolding N2_def
    by (rule network_reach.step [OF 1 network_step.dial [of _ _ _ "pinging ?tB c"]])
      (use hA in \<open>simp_all add: N1_def pair_network_def apart_def addr_def pair_host_def pair_start_state pinging_def\<close>)
  have less: "(0 :: nat) < next_object ?hB" by (simp add: fresh_acceptor)
  from accepted_run [OF fresh_acceptor(1,2) less, of "node_env pair_platform" "\<lparr>ip_text = ''a'', ip_port = 9\<rparr>"]
  obtain x hB where acc: "handle_event (node_env pair_platform) (Accepted False (Inr \<lparr>ip_text = ''a'', ip_port = 9\<rparr>)) ?hB = (Ok (), hB)"
    "map_of (live hB) 0 = Some x" "waits_for_header x" "app hB = pair_start 2" by auto
  define N3 where "N3 = N2\<lparr>hubs := (hubs N2)(1 := hB), far := (far N2)((1, 0) \<mapsto> 0),
      mate := (mate N2)((0, 1) \<mapsto> (1, 0), (1, 0) \<mapsto> (0, 1))\<rparr>"
  have 3: "pair_reach N3" unfolding N3_def
    by (rule network_reach.step [OF 2 network_step.accepts [of _ _ _ _ _ "\<lparr>ip_text = ''a'', ip_port = 9\<rparr>"]])
      (use pair_reach_event [OF acc(1)] in \<open>simp_all add: N2_def N1_def pair_network_def apart_def pair_host_def fresh_acceptor\<close>)
  define N4 where "N4 = N3\<lparr>carried := (carried N3)((0, 1) := [] @ [c])\<rparr>"
  have w: "written (pinging ?tB c) = []" "Await_write c \<in> set (awaiting (pinging ?tB c))"
    by (simp_all add: pinging_def new_session_def)
  have 4: "pair_reach N4"
    using network_step.carries [of N3 0 1 1 "pinging ?tB c" c] hA w unfolding N4_def
    by (intro network_reach.step [OF 3]) (simp add: N3_def N2_def N1_def pair_network_def apart_def)
  show ?thesis
    by (rule that [OF 4 _ _ _ c _ acc(3), of])
      (use acc in \<open>simp_all add: N4_def N3_def N2_def N1_def pair_network_def apart_def\<close>)
qed

lemma pair_reads_ping:
  obtains N e where "pair_reach N" and "e \<in> set (entries (contacts (app (hubs N 1))))"
proof -
  define s where "s = CHR ''p'' # key_to_string 1"
  let ?r = "\<lparr>ip_text = ''a'', ip_port = 9\<rparr>" and ?h = "peer_header (length s) 80"
  obtain N x c where N: "pair_reach N" "mate N (1, 0) = Some (0, 1)" "carried N (0, 1) = [c]" "taken N (1, 0) = []"
    "message_packet 80 s = Ok c" "map_of (live (hubs N 1)) 0 = Some x" "waits_for_header x" "app (hubs N 1) = pair_start 2"
    unfolding s_def by (rule pair_connected)
  have len: "length s \<le> max_body_length"
    by (simp add: s_def length_key_to_string max_body_length_def PACKET_SIZE_def header_length_def)
  have flow: "flow N (0, 1) = ?h @ s" and hl: "length ?h = header_length"
    using wire_parts [OF len, of 80] N(3,5) by (simp_all add: flow_def packet_bytes_def wire_def)
  have "hub_ok (hubs N 1)" using system_reach_ok [OF network_reach_system [OF N(1), of 1]] by (simp add: system_ok_def)
  then have at: "hubs N 1 = at 0 x (hubs N 1)" by (rule at_same [OF hub_okD(1) N(6)])
  from header_run [OF N(7) _ refl len, of ?r "node_env pair_platform" 0 80 "hubs N 1", folded at] obtain y m where
    1: "handle_event (node_env pair_platform) (Header_done 0 False ?h (Inr ?r)) (hubs N 1) = (Ok (), at 0 y ((hubs N 1)\<lparr>session_map := m\<rparr>))"
    "map_of m = (map_of (session_map (hubs N 1)))(Endpoint ''a'' (show_nat (unat (80 :: 16 word))) \<mapsto> 0)"
    "awaiting y = [Await_body (length s)]" "remote_ep y = \<lparr>ip_text = ''a'', ip_port = 80\<rparr>" by auto
  define h1 where "h1 = at 0 y ((hubs N 1)\<lparr>session_map := m\<rparr>)"
  define N1 where "N1 = N\<lparr>hubs := (hubs N)(1 := h1), taken := (taken N)((1, 0) := taken N (1, 0) @ ?h)\<rparr>"
  have "waits N (1, 0) Await_header" using N(6,7) by (simp add: waits_def waits_for_header_def)
  then have r1: "pair_reach N1" unfolding N1_def h1_def
    by (intro network_reach.step [OF N(1) network_step.reads_header [OF N(2) _ hl _ _ pair_reach_event [OF 1(1)]]])
      (simp_all add: N(4) flow pair_host_def del: One_nat_def)
  have h1: "map_of (live h1) 0 = Some y" "map_of (session_map h1) (Endpoint ''a'' (show_nat (unat (80 :: 16 word)))) = Some 0"
    "app h1 = pair_start 2" using 1(2) N(8) by (simp_all add: h1_def)
  have sys: "system_ok h1" using system_reach_ok [OF network_reach_system [OF r1, of 1]] by (simp add: N1_def)
  have "\<exists>h2 z c'. handle_event (node_env pair_platform) (Body_done 0 False s) h1 = (Ok (), h2) \<and>
      map_of (live h2) 0 = Some z \<and> Await_header \<in> set (awaiting z) \<and> packet_log z = packet_log y @ [c'] \<and>
      message_packet (listen_port (app h1)) (serialize pair_platform (ping_answer (app h1) (parse pair_platform s))) = Ok c' \<and>
      bucket_at (contacts (app h2)) (from_id (parse pair_platform s)) = Ok (Endpoint ''a'' (show_nat (unat (80 :: 16 word))))"
    by (rule ping_answered_run [OF sys h1(1)])
      (use 1(3,4) h1(2,3) pair_keys in \<open>simp_all add: pair_platform_def pair_parse_def s_def demo_platform_simps new_message_def
        pair_start_state new_bucket_def mm_count_def BUCKET_SIZE_def ping_answer_def length_key_to_string
        max_body_length_def PACKET_SIZE_def header_length_def\<close>)
  then obtain h2 where 2: "handle_event (node_env pair_platform) (Body_done 0 False s) h1 = (Ok (), h2)"
    "bucket_at (contacts (app h2)) (from_id (parse pair_platform s)) = Ok (Endpoint ''a'' (show_nat (unat (80 :: 16 word))))" by blast
  define N2 where "N2 = N1\<lparr>hubs := (hubs N1)(1 := h2), taken := (taken N1)((1, 0) := taken N1 (1, 0) @ s)\<rparr>"
  have r2: "pair_reach N2" unfolding N2_def
    by (rule network_reach.step [OF r1 network_step.reads_body [of _ _ _ 0 1]])
      (use N(2-4) flow 1(3) h1(1) pair_reach_event [OF 2(1)] in \<open>simp_all add: N1_def waits_def flow_def del: One_nat_def\<close>)
  have "node_ok (app h2)"
    using system_reach_ok [OF network_reach_system [OF r2, of 1]] by (simp add: N2_def system_ok_def)
  then have "bucket_ok (contacts (app h2))" by (simp add: node_ok_def)
  from find_key_cases [OF this, of "from_id (parse pair_platform s)"] 2(2)
  obtain i where "i < length (entries (contacts (app h2)))" by auto
  then have "entries (contacts (app h2)) ! i \<in> set (entries (contacts (app (hubs N2 1))))" by (simp add: N2_def)
  with r2 show ?thesis by (rule that)
qed

theorem network_tables_are_true_witness:
  "\<exists>N e b. network_reach (\<lambda>_. pair_platform) pair_host N \<and> e \<in> set (entries (contacts (app (hubs N 1)))) \<and>
     b \<noteq> 1 \<and> contact_key (snd e) = node_id (app (hubs N b)) \<and> endpoint_to_proto (addr pair_host N b) = Ok (contact_ep (snd e))"
proof -
  obtain N e where N: "pair_reach N" "e \<in> set (entries (contacts (app (hubs N 1))))" by (rule pair_reads_ping)
  with network_tables_are_true [OF N(1) pair_format N(2)] show ?thesis by blast
qed

end
