(* ===== verification/Spec2Isabelle.thy ===== *)
theory Spec2Isabelle
  imports Node_Requests Node_Periodic Node_Expiry Node_Routes Node_Restart Session_Map Session_Race Session_Locks
    Session_Dangling Network_Tables
begin

text \<open>
  A verification development for miniDHT, a distributed hash table after Kademlia in C++ (directory
  \<open>Sources\<close>).

  \<^bold>\<open>The program.\<close>  A node (class \<open>miniDHT\<close>, \<open>miniDHT.cpp\<close>) has a key of 256 bits, a table of contacts
  (class \<open>bucket\<close>), the searches it has going on (class \<open>search\<close>), a store of records for the network
  and a backup of its contacts (classes \<open>db_multi_key_data\<close> and \<open>db_key_value\<close> over SQLite).  Nodes
  exchange protocol buffers in packets (class \<open>basic_message\<close>) over TCP connections (class \<open>session\<close>);
  a map from endpoints to session pointers is shared by the node and its sessions.  A packet that has
  been read calls the node back (\<open>handle_receive\<close>), which enters the sender in the table, acts on the
  message and sends; a thread runs \<open>periodic\<close>, which forgets silent contacts, searches for keys of empty
  buckets, and removes or republishes records.

  \<^bold>\<open>How it is modelled.\<close>  A computation is a function from a state to an outcome and a state
  (\<open>cpp\<close> in \<open>Prelude\<close>).  An outcome is a value, an exception (one derived from \<open>std::exception\<close> or a
  string, which the handlers of the code do not catch) or a fault: undefined behaviour, a failed
  assertion, a deadlock, a loop that does not end.  A fault is never caught.  Member functions act on the
  record of their class, and a larger state runs them on its part (\<open>on_part\<close>).  A \<open>std::map\<close> or
  \<open>std::multimap\<close> is the list of its entries in order, an iterator an index, and moving one out of range a
  fault.  Integers have their width where it matters (keys and tokens are words, times and their
  differences 64 bits); sizes of containers are natural numbers.  What the program asks of the outside is a parameter:
  the record \<open>platform\<close> holds the clock, the random numbers, name resolution, the wire format, the
  engines and the callbacks of the application; \<open>sql_env\<close> one engine: its errors, the number of rows it
  gives and their order.

  \<^bold>\<open>Theories, in the order of the code.\<close>
  \<^item> \<open>Prelude\<close>: outcomes, computations, loops over lists, the rules for invariants of computations
    (\<open>preserves_rules\<close>, and \<open>kept_rules\<close> for those that hold unless there is a fault), ordered containers.
  \<^item> \<open>Keys\<close> (\<open>miniDHT_const.h\<close>, \<open>miniDHT_const.cpp\<close>): bit sets, \<open>common_bits\<close>, digests and their texts,
    \<open>key_to_string\<close>, \<open>string_to_key\<close>, \<open>digest_file\<close>.  The orders are the numeric ones; \<open>common_bits\<close> is the
    scale of the XOR distance; texts are read back, with the bytes of keys reversed.
  \<^item> \<open>Messages\<close> (\<open>miniDHT_proto.proto\<close>, \<open>miniDHT_const.cpp\<close>): messages with optional fields, the
    comparisons with their assertions, texts of endpoints; \<open>linorder\<close> instance of endpoints.  Times and
    their differences are counted in microseconds, as Boost does, in 64 bits that wrap around (\<open>ticks\<close>).
  \<^item> \<open>Identity\<close> (\<open>local_key\<close>, \<open>key_from_port\<close>): the recursion of \<open>local_key\<close> through the file system; it
    ends, with a stable key, exactly where the file can be written.
  \<^item> \<open>Bucket\<close> (\<open>miniDHT_bucket.cpp\<close>): the table as a multimap from common bits to contacts.  Every operation
    keeps \<open>bucket_ok\<close>; \<open>find_key\<close>, \<open>operator[]\<close> and \<open>add_contact\<close> refine a finite map; \<open>rhs_first\<close> is the
    order of evaluation of an assignment, which C++17 fixed, and what is evicted is stated for both.
  \<^item> \<open>Search\<close> (\<open>miniDHT_search.cpp\<close>): the short list stays the nearest contacts, in order; the two
    pickers enumerate it (locale \<open>contact_picker\<close>, interpreted for nodes and for values).
  \<^item> \<open>Packet\<close> (\<open>basic_message\<close> of \<open>miniDHT_session.h\<close>): header and body of a packet, with bytes nothing
    was written to as None.
  \<^item> \<open>Sql_Engine\<close>, \<open>Kv_Store\<close>, \<open>Record_Store\<close>, \<open>Store_Contract\<close> (\<open>miniDHT_db.cpp\<close>): the handle with its
    mutex, the SQL texts the functions build and what an engine makes of them on the tables; the
    key-value store refines a finite map (locale \<open>kv_store\<close>), the record store a list of records
    (locale \<open>record_store\<close>, in which the eviction loop of \<open>insert_db\<close> is shown to end).
  \<^item> \<open>Node\<close>, \<open>Lookup\<close>, \<open>Handlers\<close> (\<open>miniDHT.h\<close>, \<open>miniDHT.cpp\<close>): the state of a node with its lock, the
    sending and replying functions, the searches, the handlers of messages, the public functions, the
    constructor and the periodic task.  What is given to the sessions is a list of events, the calls of
    callbacks another.
  \<^item> \<open>Node_Invariant\<close>: the invariant of the node and the reachability relation; the locales
    \<open>search_frame\<close>, \<open>node_frame\<close> and \<open>node_table_frame\<close>, each an extension of the one before, say what a
    statement needs for the searches, the handlers that leave the contact table alone, or all handlers to
    keep it: first of all that messages in the name of the node keep it, which \<open>core_frame\<close> gives for
    statements that do not depend on what sending changes.  They are interpreted for the invariant, the
    lock, the contact table, the store and the packets that are sent; \<open>public_frame\<close> extends \<open>node_frame\<close> to
    what a node does without a message (\<open>own_step\<close>).
  \<^item> \<open>Node_Properties\<close>, \<open>Node_Requests\<close>, \<open>Node_Records\<close>, \<open>Node_Periodic\<close>, \<open>Node_Expiry\<close>: what the
    handlers, the searches, the store and the periodic task do, and to the lock.
  \<^item> \<open>Node_Routes\<close>, \<open>Node_Restart\<close>: whom the messages of a search go to (locale \<open>message_frame\<close>: a statement
    that holds whatever messages about one key are sent); what a node asks of the network for the contacts
    its backup has when it starts.
  \<^item> \<open>Node_Provenance\<close>, \<open>Node_Sender\<close>: the runs of a node with the messages it received, and where its
    contacts come from; each packet it sends is that of a message with its own key.
  \<^item> \<open>Session\<close> (\<open>session\<close> of \<open>miniDHT_session.h\<close>, \<open>start_accept\<close>, \<open>handle_accept\<close> and the end of
    \<open>send_MESSAGE\<close> of \<open>miniDHT.cpp\<close>): the session objects by number, with their counts of references and the
    operations they await; the events of the network as a datatype.  \<open>orphans\<close>, \<open>read_over\<close> and \<open>written\<close>
    record, for the statements, the operations of deleted sessions, that reading has failed, and what was
    written.
  \<^item> \<open>Session_Invariant\<close>, \<open>Session_Order\<close>, \<open>Session_Properties\<close>: the invariant over reachable hubs; the
    locales \<open>deliver_frame\<close>, \<open>queue_frame\<close>, \<open>peer_frame\<close>, \<open>session_frame\<close> and \<open>writing_frame\<close>, each an
    extension of the one before (the last also of \<open>pop_frame\<close>), for statements about one session that
    sending, the functions on it, those that do not touch the queue, the events but the end of a write, or
    all events keep, interpreted for the endpoint of a session, a failed write and the order of packets; the
    properties.  A statement may ask something of the packets that join a queue; \<open>any_frame\<close> is for those
    that do not.
  \<^item> \<open>Session_Buffer\<close>: the locales \<open>new_frame\<close> and \<open>object_frame\<close> for statements about all sessions, interpreted
    for the buffer a session reads into; the reads stay inside it.
  \<^item> \<open>Session_Map\<close>: the map from endpoints to sessions, over the hubs reached without a second port.
  \<^item> \<open>Session_Race\<close>: \<open>hub_send\<close> as the two steps of \<open>send_MESSAGE\<close> that other threads can come between,
    the search of the map (\<open>find_session\<close>) and the use of the session found (\<open>use_session\<close>).
  \<^item> \<open>Session_Locks\<close>: the handlers that call the node with a check that no session is locked, which never
    fails: the locks are taken in one order.
  \<^item> \<open>System\<close>: node and sessions together.  \<open>node_env\<close> binds the handlers of the node to the callbacks of
    the sessions, \<open>system_reach\<close> interleaves the events of the network with what the user and the periodic
    task do (its parts are steps of their own, as they give up the lock between them); the locale
    \<open>app_invariant\<close> says what the callbacks must keep for every event to keep it.
  \<^item> \<open>Session_Stream\<close>: the bytes a session reads, through any events, and the messages the node is given for
    them, recorded from the calls of the callback; the locale \<open>aside_frame\<close> for statements about one session that every event keeps that is \<open>aside\<close>.
  \<^item> \<open>Session_Sealed\<close>: the packets in the queues of the sessions are those the node sent (locale \<open>sealing\<close>,
    interpreted for the node), so in its name.
  \<^item> \<open>Handshake\<close>: two systems, and the packets of a ping and of its answer carried from one to the other.
  \<^item> \<open>Session_Dangling\<close>: a peer that announces two ports, with the handlers of the node as callbacks, and
    the deleted session that it leaves in the map.
  \<^item> \<open>Network\<close>, \<open>Network_Tables\<close>: any number of systems and the connections between them (\<open>network_step\<close>):
    who is connected with whom, the packets the network has taken from each session and the bytes each has
    read; what is in the contact tables.

  \<^bold>\<open>Bounds and loops.\<close>  Loops that end are recursive functions with measures or on lists.  Two loops of
  the code may not end: the eviction of \<open>insert_db\<close>, a \<open>partial_function\<close> whose None is the fault
  \<open>Infinite_loop\<close> and which ends from one record on, and the recursion of \<open>local_key\<close>, likewise.
  The loop that stores a record ends since every turn marks a contact (a measure).  There is no fuel.
  The constants \<open>KEY_SIZE\<close>, \<open>BUCKET_SIZE\<close>, \<open>ALPHA\<close>, \<open>PACKET_SIZE\<close> and so on are those of the code.

  \<^bold>\<open>Hypotheses.\<close>  Statements about the stores assume an engine that reports no error and gives every row
  in some order (\<open>engine_ok\<close>), and texts without quotes or zeros (\<open>sql_literal\<close>); what happens
  otherwise is stated apart.  In a network the host of a node has one address, which is what both the nodes
  that connect to it and those it connects to see.  The key texts the properties call canonical are those \<open>key_to_string\<close> makes.

  \<^bold>\<open>Not modelled.\<close>  Threads: a handler is one step, between the lockings that are in it, except that
  \<open>Session_Race\<close> lets the end of a connection come between the two steps of sending; the race of
  \<open>handle_disconnect\<close>, which takes no lock, with another handler on the contact table is not stated.  The bytes of protocol buffers, SHA-256, SQLite, asio and name resolution are parameters.
  The destructor of the node, which stops the thread of the periodic task, the output on the error stream,
  sleeping and yielding have no effect here.  The
  programs of \<open>Tests\<close>, the AES helper only they use, and the compiler checks of \<open>cmake\<close> are no part of the
  library.
\<close>

end
